(* ===== verification/Prelude.thy ===== *)
theory Prelude
  imports Main "HOL-Library.Code_Target_Numeral" "HOL-Library.Char_ord"
    "HOL-Library.List_Lexorder" "HOL-Library.Multiset" "HOL-Library.Word"
    "HOL-Library.Signed_Division"
begin

text \<open>
  What every component shares: the names of the model's types, the machine arithmetic the
  source uses (saturating and wrapping operations of Rust's integer types, written out over
  \<^typ>\<open>int\<close> and \<^typ>\<open>nat\<close>), decimal printing and parsing of integers, and generic lemmas on
  lists. Strings are UTF-8 byte sequences: a \<^typ>\<open>char\<close> is a byte, \<open>length\<close> is the source's
  \<open>len()\<close> and the lexicographic order of \<open>List_Lexorder\<close> is the order of \<open>str\<close>.
\<close>

section \<open>Names and collections\<close>

type_synonym byte_string = string
type_synonym millis = int

named_theorems machine_arith "definitions of the machine-integer operations"
named_theorems policy_defs "definitions of the admission limits"
named_theorems trans_defs "definitions of the state transitions of the components"

section \<open>Machine integers\<close>

definition I64_MAX :: int where
  "I64_MAX = 9223372036854775807"

definition I64_MIN :: int where
  "I64_MIN = - 9223372036854775808"

definition U64_MAX :: nat where
  "U64_MAX = 18446744073709551615"

definition U16_MAX :: nat where
  "U16_MAX = 65535"

definition is_i64 :: "int \<Rightarrow> bool" where
  "is_i64 x \<longleftrightarrow> I64_MIN \<le> x \<and> x \<le> I64_MAX"

definition i64_clamp :: "int \<Rightarrow> int" where
  "i64_clamp x = (if x < I64_MIN then I64_MIN else if I64_MAX < x then I64_MAX else x)"

definition i64_saturating_add :: "int \<Rightarrow> int \<Rightarrow> int" where
  "i64_saturating_add a b = i64_clamp (a + b)"

definition i64_saturating_mul :: "int \<Rightarrow> int \<Rightarrow> int" where
  "i64_saturating_mul a b = i64_clamp (a * b)"

definition i16_saturating_sub :: "int \<Rightarrow> int \<Rightarrow> int" where
  "i16_saturating_sub a b = (if a - b < - 32768 then - 32768 else if 32767 < a - b then 32767 else a - b)"

definition u16_saturating_add :: "nat \<Rightarrow> nat \<Rightarrow> nat" where
  "u16_saturating_add a b = min U16_MAX (a + b)"

definition u64_saturating_add :: "nat \<Rightarrow> nat \<Rightarrow> nat" where
  "u64_saturating_add a b = min U64_MAX (a + b)"

text \<open>\<open>usize\<close> is 64 bits wide; an unchecked decrement of 0 wraps around in a release build.\<close>

definition usize_wrapping_dec :: "nat \<Rightarrow> nat" where
  "usize_wrapping_dec n = (if n = 0 then U64_MAX else n - 1)"

definition usize_saturating_add :: "nat \<Rightarrow> nat \<Rightarrow> nat" where
  "usize_saturating_add a b = min U64_MAX (a + b)"

lemmas machine_constants = I64_MAX_def I64_MIN_def U64_MAX_def U16_MAX_def

declare i64_saturating_add_def [machine_arith] i64_saturating_mul_def [machine_arith]
  i16_saturating_sub_def [machine_arith] u16_saturating_add_def [machine_arith]
  u64_saturating_add_def [machine_arith] usize_wrapping_dec_def [machine_arith]
  usize_saturating_add_def [machine_arith] i64_clamp_def [machine_arith]

lemma is_i64_clamp [simp]: "is_i64 (i64_clamp x)"
  by (auto simp: is_i64_def i64_clamp_def machine_constants)

lemma i64_clamp_id: "is_i64 x \<Longrightarrow> i64_clamp x = x"
  by (auto simp: is_i64_def i64_clamp_def)

lemma i64_clamp_mono: "x \<le> y \<Longrightarrow> i64_clamp x \<le> i64_clamp y"
  by (auto simp: i64_clamp_def machine_constants)

lemma i64_saturating_add_ge:
  "is_i64 a \<Longrightarrow> 0 \<le> b \<Longrightarrow> a \<le> i64_saturating_add a b"
  by (auto simp: is_i64_def machine_arith machine_constants)

lemma i64_saturating_add_le:
  "is_i64 a \<Longrightarrow> 0 \<le> b \<Longrightarrow> i64_saturating_add a b \<le> a + b"
  by (auto simp: is_i64_def machine_arith machine_constants)

lemma i64_saturating_add_gt:
  "is_i64 a \<Longrightarrow> a < I64_MAX \<Longrightarrow> 0 < b \<Longrightarrow> a < i64_saturating_add a b"
  by (auto simp: is_i64_def machine_arith machine_constants)

section \<open>Decimal numerals\<close>

definition digit_char :: "nat \<Rightarrow> char" where
  "digit_char d = char_of (48 + d)"

definition char_digit :: "char \<Rightarrow> nat option" where
  "char_digit c = (let b = of_char c :: nat in if 48 \<le> b \<and> b \<le> 57 then Some (b - 48) else None)"

text \<open>\<open>ToString\<close> of an unsigned integer.\<close>

fun show_nat :: "nat \<Rightarrow> string" where
  "show_nat n = (if n < 10 then [digit_char n] else show_nat (n div 10) @ [digit_char (n mod 10)])"

declare show_nat.simps [simp del]

text \<open>\<open>ToString\<close> of a signed integer.\<close>

definition show_int :: "int \<Rightarrow> string" where
  "show_int i = (if i < 0 then CHR ''-'' # show_nat (nat (- i)) else show_nat (nat i))"

text \<open>
  The digit loop of \<open>str::parse\<close>: every step multiplies and adds with an overflow check
  against the type's bound.
\<close>

fun parse_digits :: "nat \<Rightarrow> nat \<Rightarrow> string \<Rightarrow> nat option" where
  "parse_digits bound acc [] = Some acc"
| "parse_digits bound acc (c # cs) =
     (case char_digit c of
        None \<Rightarrow> None
      | Some d \<Rightarrow> (if bound < acc * 10 + d then None else parse_digits bound (acc * 10 + d) cs))"

text \<open>\<open>parse::<u64>\<close>: an optional plus sign, then at least one digit.\<close>

definition parse_u64 :: "string \<Rightarrow> nat option" where
  "parse_u64 s =
     (case s of
        [] \<Rightarrow> None
      | c # cs \<Rightarrow>
          if c = CHR ''+'' then (if cs = [] then None else parse_digits U64_MAX 0 cs)
          else parse_digits U64_MAX 0 s)"

text \<open>\<open>parse::<i64>\<close>: an optional sign, then at least one digit.\<close>

definition parse_i64 :: "string \<Rightarrow> int option" where
  "parse_i64 s =
     (case s of
        [] \<Rightarrow> None
      | c # cs \<Rightarrow>
          if c = CHR ''-'' then
            (if cs = [] then None else map_option (\<lambda>n. - int n) (parse_digits (nat (- I64_MIN)) 0 cs))
          else if c = CHR ''+'' then
            (if cs = [] then None else map_option int (parse_digits (nat I64_MAX) 0 cs))
          else map_option int (parse_digits (nat I64_MAX) 0 s))"

lemma of_char_digit_char: "d < 10 \<Longrightarrow> (of_char (digit_char d) :: nat) = 48 + d"
  by (simp add: digit_char_def)

lemma char_digit_digit_char [simp]: "d < 10 \<Longrightarrow> char_digit (digit_char d) = Some d"
  by (simp add: char_digit_def of_char_digit_char Let_def)

lemma digit_char_neq_sign:
  "d < 10 \<Longrightarrow> digit_char d \<noteq> CHR ''+''" "d < 10 \<Longrightarrow> digit_char d \<noteq> CHR ''-''"
  using of_char_digit_char [of d] by auto

lemma parse_digits_append:
  "parse_digits b a (xs @ ys) =
     (case parse_digits b a xs of None \<Rightarrow> None | Some a' \<Rightarrow> parse_digits b a' ys)"
  by (induction xs arbitrary: a) (auto split: option.splits)

lemma parse_digits_le: "parse_digits b a s = Some n \<Longrightarrow> a \<le> b \<Longrightarrow> n \<le> b"
  by (induction s arbitrary: a) (auto split: option.splits if_splits)

lemma parse_digits_show_nat: "n \<le> b \<Longrightarrow> parse_digits b 0 (show_nat n) = Some n"
proof (induction n rule: show_nat.induct)
  case (1 n)
  show ?case
  proof (cases "n < 10")
    case True
    with "1.prems" show ?thesis by (simp add: show_nat.simps [of n])
  next
    case False
    with 1 have "parse_digits b 0 (show_nat (n div 10)) = Some (n div 10)" by simp
    with False "1.prems" show ?thesis
      by (simp add: show_nat.simps [of n] parse_digits_append)
  qed
qed

lemma show_nat_not_Nil [simp]: "show_nat n \<noteq> []"
  by (subst show_nat.simps) simp

lemma set_show_nat: "set (show_nat n) \<subseteq> digit_char ` {..<10}"
proof (induction n rule: show_nat.induct)
  case (1 n)
  then show ?case by (subst show_nat.simps) auto
qed

lemma hd_show_nat_sign: "hd (show_nat n) \<noteq> CHR ''+''" "hd (show_nat n) \<noteq> CHR ''-''"
proof -
  have "hd (show_nat n) \<in> digit_char ` {..<10}"
    using set_show_nat [of n] hd_in_set [of "show_nat n"] by auto
  then obtain d where "d < 10" "hd (show_nat n) = digit_char d" by auto
  then show "hd (show_nat n) \<noteq> CHR ''+''" "hd (show_nat n) \<noteq> CHR ''-''"
    using digit_char_neq_sign [of d] by simp_all
qed

lemma show_nat_inj: "show_nat m = show_nat n \<Longrightarrow> m = n"
  by (metis le_add1 le_add2 option.inject parse_digits_show_nat)

lemma minus_notin_show_nat: "CHR ''-'' \<notin> set (show_nat n)"
proof
  assume "CHR ''-'' \<in> set (show_nat n)"
  then obtain d where "d < 10" "CHR ''-'' = digit_char d" using set_show_nat [of n] by auto
  then show False using digit_char_neq_sign(2) [of d] by simp
qed

lemma parse_u64_show_nat: "n \<le> U64_MAX \<Longrightarrow> parse_u64 (show_nat n) = Some n"
proof -
  assume "n \<le> U64_MAX"
  then have p: "parse_digits U64_MAX 0 (show_nat n) = Some n" by (rule parse_digits_show_nat)
  obtain c cs where c: "show_nat n = c # cs" by (meson list.exhaust show_nat_not_Nil)
  with hd_show_nat_sign [of n] have "c \<noteq> CHR ''+''" by simp
  with c p show ?thesis by (simp only: parse_u64_def list.case if_False)
qed

lemma parse_u64_le: "parse_u64 s = Some n \<Longrightarrow> n \<le> U64_MAX"
  by (auto simp: parse_u64_def simp del: parse_digits.simps split: list.splits if_splits
      dest: parse_digits_le)

lemma parse_i64_show_int: "is_i64 i \<Longrightarrow> parse_i64 (show_int i) = Some i"
proof (cases "i < 0")
  case True
  moreover assume "is_i64 i"
  ultimately show ?thesis
    by (simp add: parse_i64_def show_int_def parse_digits_show_nat is_i64_def nat_mono)
next
  case False
  moreover assume "is_i64 i"
  moreover from False obtain n where "i = int n" by (metis nonneg_int_cases not_less)
  ultimately have n: "i = int n" "n \<le> nat I64_MAX" by (auto simp: is_i64_def)
  then have p: "parse_digits (nat I64_MAX) 0 (show_nat n) = Some n"
    by (intro parse_digits_show_nat)
  obtain c cs where c: "show_nat n = c # cs" by (meson list.exhaust show_nat_not_Nil)
  with hd_show_nat_sign [of n] have "c \<noteq> CHR ''+''" "c \<noteq> CHR ''-''" by simp_all
  moreover have "show_int i = c # cs" using n c by (simp add: show_int_def)
  ultimately show ?thesis
    using c p n by (simp only: parse_i64_def list.case if_False option.map)
qed

section \<open>Lists\<close>

lemma length_filter_le_mono:
  "(\<And>x. x \<in> set xs \<Longrightarrow> P x \<Longrightarrow> Q x) \<Longrightarrow> length (filter P xs) \<le> length (filter Q xs)"
  by (induction xs) auto

lemma filter_count_eq_0_iff: "length (filter P xs) = 0 \<longleftrightarrow> (\<forall>x\<in>set xs. \<not> P x)"
  by (auto simp: filter_empty_conv)

lemma sort_mset_cong: "mset xs = mset ys \<Longrightarrow> sort xs = sort ys"
  by (metis properties_for_sort mset_sort sorted_sort)

lemma set_eq_if_distinct_subset_length:
  assumes "distinct xs" "set xs \<subseteq> set ys" "length ys \<le> length xs"
  shows "set xs = set ys"
proof (rule card_subset_eq)
  have "card (set ys) \<le> length ys" by (rule card_length)
  also have "\<dots> \<le> card (set xs)" using assms by (simp add: distinct_card)
  finally show "card (set xs) = card (set ys)"
    using assms card_mono [of "set ys" "set xs"] by simp
qed (use assms in auto)

lemma distinct_set_eq_imp_mset_eq:
  "distinct xs \<Longrightarrow> distinct ys \<Longrightarrow> set xs = set ys \<Longrightarrow> mset xs = mset ys"
  by (simp add: set_eq_iff_mset_eq_distinct)

end
