(* ===== verification/HashMap.thy ===== *)
theory HashMap
  imports Prelude
begin

text \<open>
  \<open>std::collections::HashMap\<close> as the source uses it: an association list with distinct keys,
  whose list order is one possible iteration order. \<open>get\<close>, \<open>insert\<close>, \<open>get_mut\<close> followed by
  an assignment (\<open>hm_modify\<close>), \<open>contains_key\<close>, \<open>len\<close>, \<open>iter\<close>, \<open>values\<close> and the in-place
  update of all values. The locale states the laws a client relies on; the lemmas about the
  counting and grouping loops, which three callers of the source share, are proved in it.
\<close>

section \<open>Operations\<close>

type_synonym ('k, 'v) hash_map = "('k \<times> 'v) list"

definition hm_new :: "('k, 'v) hash_map" where
  "hm_new = []"

definition hm_get :: "('k, 'v) hash_map \<Rightarrow> 'k \<Rightarrow> 'v option" where
  "hm_get m k = map_of m k"

fun hm_insert :: "'k \<Rightarrow> 'v \<Rightarrow> ('k, 'v) hash_map \<Rightarrow> ('k, 'v) hash_map" where
  "hm_insert k v [] = [(k, v)]"
| "hm_insert k v ((k', v') # m) = (if k = k' then (k, v) # m else (k', v') # hm_insert k v m)"

text \<open>\<open>if let Some(slot) = m.get_mut(k)\<close> followed by an update of the slot.\<close>

definition hm_modify :: "'k \<Rightarrow> ('v \<Rightarrow> 'v) \<Rightarrow> ('k, 'v) hash_map \<Rightarrow> ('k, 'v) hash_map" where
  "hm_modify k f m = (case hm_get m k of None \<Rightarrow> m | Some v \<Rightarrow> hm_insert k (f v) m)"

text \<open>\<open>m.entry(k).or_default().push(x)\<close> on a map of vectors.\<close>

definition hm_entry_push :: "'k \<Rightarrow> 'a \<Rightarrow> ('k, 'a list) hash_map \<Rightarrow> ('k, 'a list) hash_map" where
  "hm_entry_push k x m = hm_insert k ((case hm_get m k of None \<Rightarrow> [] | Some xs \<Rightarrow> xs) @ [x]) m"

definition hm_contains_key :: "('k, 'v) hash_map \<Rightarrow> 'k \<Rightarrow> bool" where
  "hm_contains_key m k \<longleftrightarrow> hm_get m k \<noteq> None"

definition hm_len :: "('k, 'v) hash_map \<Rightarrow> nat" where
  "hm_len m = length m"

definition hm_iter :: "('k, 'v) hash_map \<Rightarrow> ('k \<times> 'v) list" where
  "hm_iter m = m"

definition hm_values :: "('k, 'v) hash_map \<Rightarrow> 'v list" where
  "hm_values m = map snd m"

definition hm_map_values :: "('v \<Rightarrow> 'w) \<Rightarrow> ('k, 'v) hash_map \<Rightarrow> ('k, 'w) hash_map" where
  "hm_map_values f m = map (\<lambda>(k, v). (k, f v)) m"

definition hm_wf :: "('k, 'v) hash_map \<Rightarrow> bool" where
  "hm_wf m \<longleftrightarrow> distinct (map fst m)"

section \<open>Laws\<close>

locale hash_map_laws =
  fixes new :: "'m"
    and get :: "'m \<Rightarrow> 'k \<Rightarrow> 'v option"
    and insert :: "'k \<Rightarrow> 'v \<Rightarrow> 'm \<Rightarrow> 'm"
    and iter :: "'m \<Rightarrow> ('k \<times> 'v) list"
    and wf :: "'m \<Rightarrow> bool"
  assumes wf_new: "wf new"
    and get_new: "get new k = None"
    and wf_insert: "wf m \<Longrightarrow> wf (insert k v m)"
    and get_insert: "get (insert k v m) k' = (if k' = k then Some v else get m k')"
    and distinct_iter: "wf m \<Longrightarrow> distinct (map fst (iter m))"
    and in_iter: "wf m \<Longrightarrow> (k, v) \<in> set (iter m) \<longleftrightarrow> get m k = Some v"
begin

lemma set_iter_keys: "wf m \<Longrightarrow> fst ` set (iter m) = {k. get m k \<noteq> None}"
  by (auto simp: in_iter image_iff) (metis in_iter fst_conv)

text \<open>Inserting a list of keys with one value (\<open>iter().map(..).collect()\<close>, or a loop of inserts).\<close>

lemma get_insert_all:
  "get (fold (\<lambda>x m. insert (f x) v m) xs m) k = (if k \<in> f ` set xs then Some v else get m k)"
  by (induction xs arbitrary: m) (auto simp: get_insert)

lemma wf_insert_all: "wf m \<Longrightarrow> wf (fold (\<lambda>x m. insert (f x) (g x) m) xs m)"
  by (induction xs arbitrary: m) (auto simp: wf_insert)

text \<open>A loop that updates the slot of each element's key, when the key is present.\<close>

lemma wf_modify_all:
  "wf m \<Longrightarrow> wf (fold (\<lambda>x m. case get m (f x) of None \<Rightarrow> m | Some v \<Rightarrow> insert (f x) (g v) m) xs m)"
  by (induction xs arbitrary: m) (auto simp: wf_insert split: option.split)

lemma get_modify_all:
  "get (fold (\<lambda>x m. case get m (f x) of None \<Rightarrow> m | Some v \<Rightarrow> insert (f x) (g v) m) xs m) k =
     map_option (\<lambda>v. (g ^^ length (filter (\<lambda>x. f x = k) xs)) v) (get m k)"
proof (induction xs arbitrary: m)
  case Nil
  then show ?case by (simp add: option.map_ident)
next
  case (Cons x xs)
  then show ?case
    by (cases "get m (f x)"; cases "get m k") (auto simp: get_insert funpow_swap1)
qed

end

lemma hm_get_insert [simp]:
  "hm_get (hm_insert k v m) k' = (if k' = k then Some v else hm_get m k')"
  by (induction k v m rule: hm_insert.induct) (auto simp: hm_get_def)

lemma hm_keys_insert:
  "map fst (hm_insert k v m) = (if k \<in> fst ` set m then map fst m else map fst m @ [k])"
  by (induction k v m rule: hm_insert.induct) auto

lemma hm_wf_insert [simp]: "hm_wf m \<Longrightarrow> hm_wf (hm_insert k v m)"
  by (auto simp: hm_wf_def hm_keys_insert)

lemma hm_in_iff_get: "hm_wf m \<Longrightarrow> (k, v) \<in> set m \<longleftrightarrow> hm_get m k = Some v"
  by (simp add: hm_wf_def hm_get_def)

interpretation hm: hash_map_laws hm_new hm_get hm_insert hm_iter hm_wf
  by unfold_locales (auto simp: hm_new_def hm_iter_def hm_in_iff_get, auto simp: hm_wf_def hm_get_def)

section \<open>Derived facts\<close>

lemma hm_get_new [simp]: "hm_get hm_new k = None"
  by (rule hm.get_new)

lemma hm_wf_new [simp]: "hm_wf hm_new"
  by (rule hm.wf_new)

lemma hm_contains_key_iff: "hm_contains_key m k \<longleftrightarrow> k \<in> fst ` set m"
  unfolding hm_contains_key_def hm_get_def by (metis map_of_eq_None_iff)

lemma hm_get_None_iff: "hm_get m k = None \<longleftrightarrow> k \<notin> fst ` set m"
  unfolding hm_get_def by (rule map_of_eq_None_iff)

lemma hm_get_in_set: "hm_get m k = Some v \<Longrightarrow> (k, v) \<in> set m"
  by (simp add: hm_get_def map_of_SomeD)

lemma hm_get_values: "hm_get m k = Some v \<Longrightarrow> v \<in> set (hm_values m)"
  by (force simp: hm_values_def dest: hm_get_in_set)

lemma hm_get_modify [simp]:
  "hm_get (hm_modify k f m) k' = (if k' = k then map_option f (hm_get m k) else hm_get m k')"
  by (auto simp: hm_modify_def split: option.split)

lemma hm_wf_modify [simp]: "hm_wf m \<Longrightarrow> hm_wf (hm_modify k f m)"
  by (auto simp: hm_modify_def split: option.split)

lemma hm_keys_modify: "map fst (hm_modify k f m) = map fst m"
proof (cases "hm_get m k")
  case (Some v)
  then have "k \<in> fst ` set m" using hm_get_None_iff [of m k] by auto
  with Some show ?thesis by (simp add: hm_modify_def hm_keys_insert)
qed (simp add: hm_modify_def)

lemma hm_dom_modify: "{v. hm_get (hm_modify k f m) v \<noteq> None} = {v. hm_get m v \<noteq> None}"
  by auto

lemma hm_get_entry_push [simp]:
  "hm_get (hm_entry_push k x m) k' =
     (if k' = k then Some ((case hm_get m k of None \<Rightarrow> [] | Some xs \<Rightarrow> xs) @ [x]) else hm_get m k')"
  by (simp add: hm_entry_push_def)

lemma hm_wf_entry_push [simp]: "hm_wf m \<Longrightarrow> hm_wf (hm_entry_push k x m)"
  by (simp add: hm_entry_push_def)

lemma hm_get_map_values [simp]: "hm_get (hm_map_values f m) k = map_option f (hm_get m k)"
  by (induction m) (auto simp: hm_get_def hm_map_values_def)

lemma hm_keys_map_values [simp]: "map fst (hm_map_values f m) = map fst m"
  by (induction m) (auto simp: hm_map_values_def)

lemma hm_wf_map_values [simp]: "hm_wf (hm_map_values f m) = hm_wf m"
  by (simp add: hm_wf_def)

lemma hm_modify_Nil [simp]: "hm_modify k f [] = []"
  by (simp add: hm_modify_def hm_get_def)

lemma hm_modify_Cons [simp]:
  "hm_modify k f ((a, v) # m) = (if a = k then (a, f v) # m else (a, v) # hm_modify k f m)"
  by (auto simp: hm_modify_def hm_get_def split: option.split)

lemma hm_modify_commute:
  "k \<noteq> k' \<Longrightarrow> hm_modify k f (hm_modify k' g m) = hm_modify k' g (hm_modify k f m)"
  by (induction m) auto

lemma hm_modify_compose: "hm_modify k f (hm_modify k g m) = hm_modify k (\<lambda>v. f (g v)) m"
  by (induction m) auto

lemma hm_modify_cong: "(\<And>v. hm_get m k = Some v \<Longrightarrow> f v = g v) \<Longrightarrow> hm_modify k f m = hm_modify k g m"
  by (auto simp: hm_modify_def split: option.split)

lemma hm_len_insert:
  "hm_len (hm_insert k v m) = (if hm_contains_key m k then hm_len m else Suc (hm_len m))"
  using arg_cong [OF hm_keys_insert [of k v m], of length]
  by (simp add: hm_len_def hm_contains_key_iff split: if_splits)

lemma hm_len_modify [simp]: "hm_len (hm_modify k f m) = hm_len m"
  using arg_cong [OF hm_keys_modify [of k f m], of length] by (simp add: hm_len_def)

lemma funpow_Suc_nat: "(Suc ^^ n) m = m + n"
  by (induction n) auto

text \<open>The counting loop: in-degrees in \<open>DagSpec::validate\<close>, dependency counts in both submits.\<close>

lemma hm_get_count_loop:
  "hm_get (fold (\<lambda>x m. hm_modify (f x) Suc m) xs m) k =
     map_option (\<lambda>n. n + length (filter (\<lambda>x. f x = k) xs)) (hm_get m k)"
  using hm.get_modify_all [of f Suc xs m k] by (simp add: hm_modify_def funpow_Suc_nat add.commute)

lemma hm_wf_count_loop: "hm_wf m \<Longrightarrow> hm_wf (fold (\<lambda>x m. hm_modify (f x) Suc m) xs m)"
  by (induction xs arbitrary: m) auto

lemma hm_keys_count_loop: "map fst (fold (\<lambda>x m. hm_modify (f x) Suc m) xs m) = map fst m"
  by (induction xs arbitrary: m) (auto simp: hm_keys_modify)

text \<open>The grouping loop: outgoing edges in \<open>DagSpec::validate\<close>, dependents in \<open>Scheduler::submit\<close>.\<close>

definition hm_get_list :: "('k, 'a list) hash_map \<Rightarrow> 'k \<Rightarrow> 'a list" where
  "hm_get_list m k = (case hm_get m k of None \<Rightarrow> [] | Some xs \<Rightarrow> xs)"

lemma hm_get_group_loop:
  "hm_get_list (fold (\<lambda>x m. hm_entry_push (f x) (g x) m) xs m) k =
     hm_get_list m k @ map g (filter (\<lambda>x. f x = k) xs)"
  by (induction xs arbitrary: m) (auto simp: hm_get_list_def)

lemma hm_wf_group_loop: "hm_wf m \<Longrightarrow> hm_wf (fold (\<lambda>x m. hm_entry_push (f x) (g x) m) xs m)"
  by (induction xs arbitrary: m) auto

text \<open>Counting the values that satisfy a predicate counts keys.\<close>

lemma hm_count_values:
  assumes "hm_wf m"
  shows "length (filter P (hm_values m)) = card {k. \<exists>v. hm_get m k = Some v \<and> P v}"
proof -
  have "length (filter P (hm_values m)) = length (map fst (filter (\<lambda>x. P (snd x)) m))"
    by (simp add: hm_values_def filter_map comp_def)
  also have "\<dots> = card (set (map fst (filter (\<lambda>x. P (snd x)) m)))"
    using assms by (intro distinct_card [symmetric]) (auto simp: hm_wf_def intro: distinct_map_filter)
  also have "set (map fst (filter (\<lambda>x. P (snd x)) m)) = {k. \<exists>v. hm_get m k = Some v \<and> P v}"
    by (force simp: hm_in_iff_get [OF assms, symmetric])
  finally show ?thesis .
qed

end
