(* ===== verification/Domain.thy ===== *)
theory Domain
  imports HashMap
begin

text \<open>
  \<open>src/domain.rs\<close>: the job, graph and snapshot values, the admission limits, the payload and
  identifier policies, and \<open>DagSpec::validate\<close> with its Kahn loop. A fallible function returns
  \<open>error + value\<close>, \<open>Inl\<close> being the error; the Kahn loop is a \<open>while let\<close> over a queue that the
  code never bounds, so it is a partial function and \<open>None\<close> means that it does not return
  (\<open>Kahn\<close> proves that it always does).
\<close>

section \<open>Limits\<close>

definition MAX_DAG_ID_BYTES :: nat where
  "MAX_DAG_ID_BYTES = 64"

definition MAX_JOB_ID_BYTES :: nat where
  "MAX_JOB_ID_BYTES = 64"

definition MAX_JOBS_PER_DAG :: nat where
  "MAX_JOBS_PER_DAG = 1000"

definition MAX_DEPENDENCIES_PER_DAG :: nat where
  "MAX_DEPENDENCIES_PER_DAG = 10000"

definition MAX_PAYLOAD_BYTES :: nat where
  "MAX_PAYLOAD_BYTES = 4096"

declare MAX_DAG_ID_BYTES_def [policy_defs] MAX_JOB_ID_BYTES_def [policy_defs]
  MAX_JOBS_PER_DAG_def [policy_defs] MAX_DEPENDENCIES_PER_DAG_def [policy_defs]
  MAX_PAYLOAD_BYTES_def [policy_defs]

section \<open>Values\<close>

datatype job_kind = Delay | Checksum | Uppercase

datatype validation_error =
    InvalidIdentifier byte_string
  | InvalidJobCount
  | InvalidDependencyCount
  | DuplicateJob byte_string
  | UnknownJob byte_string
  | Cycle
  | PayloadTooLarge
  | InvalidDelay
  | InvalidPolicy

record job_spec =
  js_id :: byte_string
  js_kind :: job_kind
  js_payload :: byte_string
  js_max_attempts :: nat
  js_priority :: int

definition default_attempts :: nat where
  "default_attempts = 3"

record dependency =
  dep_from :: byte_string
  dep_to :: byte_string

record dag_spec =
  ds_id :: byte_string
  ds_jobs :: "job_spec list"
  ds_dependencies :: "dependency list"

datatype job_state = Pending | Ready | RetryWait | Leased | Succeeded | DeadLettered | Cancelled

record job_snapshot =
  sn_id :: byte_string
  sn_state :: job_state
  sn_attempts :: nat
  sn_max_attempts :: nat
  sn_available_at_ms :: millis
  sn_lease_owner :: "byte_string option"
  sn_lease_expires_at_ms :: "millis option"
  sn_result :: "byte_string option"

record dag_snapshot =
  dsn_id :: byte_string
  dsn_jobs :: "job_snapshot list"

section \<open>Policies\<close>

definition validate_payload :: "job_kind \<Rightarrow> byte_string \<Rightarrow> validation_error + unit" where
  "validate_payload kind payload =
     (if MAX_PAYLOAD_BYTES < length payload then Inl PayloadTooLarge
      else if kind = Delay then
        (case parse_u64 payload of
           None \<Rightarrow> Inl InvalidDelay
         | Some delay \<Rightarrow> if 5000 < delay then Inl InvalidDelay else Inr ())
      else Inr ())"

definition is_ascii_alphanumeric :: "char \<Rightarrow> bool" where
  "is_ascii_alphanumeric c =
     (let b = (of_char c :: nat)
      in 48 \<le> b \<and> b \<le> 57 \<or> 65 \<le> b \<and> b \<le> 90 \<or> 97 \<le> b \<and> b \<le> 122)"

definition identifier_byte :: "char \<Rightarrow> bool" where
  "identifier_byte c \<longleftrightarrow> is_ascii_alphanumeric c \<or> c = CHR ''-'' \<or> c = CHR ''_''"

definition validate_identifier :: "byte_string \<Rightarrow> nat \<Rightarrow> validation_error + unit" where
  "validate_identifier value max_bytes =
     (if value \<noteq> [] \<and> length value \<le> max_bytes \<and> list_all identifier_byte value then Inr ()
      else Inl (InvalidIdentifier value))"

section \<open>Graph validation\<close>

text \<open>The first loop of \<open>validate\<close>: per-job policies and the duplicate check.\<close>

fun collect_jobs ::
  "(byte_string, nat) hash_map \<Rightarrow> job_spec list \<Rightarrow> validation_error + (byte_string, nat) hash_map" where
  "collect_jobs indegree [] = Inr indegree"
| "collect_jobs indegree (job # jobs) =
     (case validate_identifier (js_id job) MAX_JOB_ID_BYTES of
        Inl e \<Rightarrow> Inl e
      | Inr _ \<Rightarrow>
        (case validate_payload (js_kind job) (js_payload job) of
           Inl e \<Rightarrow> Inl e
         | Inr _ \<Rightarrow>
           if js_max_attempts job = 0 \<or> 20 < js_max_attempts job
              \<or> \<not> (- 100 \<le> js_priority job \<and> js_priority job \<le> 100)
           then Inl InvalidPolicy
           else if hm_contains_key indegree (js_id job) then Inl (DuplicateJob (js_id job))
           else collect_jobs (hm_insert (js_id job) 0 indegree) jobs))"

text \<open>The second loop: edge checks, in-degrees and adjacency.\<close>

fun collect_edges ::
  "(byte_string, nat) hash_map \<Rightarrow> (byte_string, byte_string list) hash_map \<Rightarrow> dependency list
    \<Rightarrow> validation_error + (byte_string, nat) hash_map \<times> (byte_string, byte_string list) hash_map" where
  "collect_edges indegree outgoing [] = Inr (indegree, outgoing)"
| "collect_edges indegree outgoing (edge # edges) =
     (if dep_from edge = dep_to edge then Inl Cycle
      else if \<not> hm_contains_key indegree (dep_from edge) then Inl (UnknownJob (dep_from edge))
      else if \<not> hm_contains_key indegree (dep_to edge) then Inl (UnknownJob (dep_to edge))
      else collect_edges (hm_modify (dep_to edge) Suc indegree)
             (hm_entry_push (dep_from edge) (dep_to edge) outgoing) edges)"

text \<open>The inner \<open>for child in children\<close> loop of Kahn's algorithm.\<close>

fun release_children ::
  "(byte_string, nat) hash_map \<Rightarrow> byte_string list \<Rightarrow> byte_string list
    \<Rightarrow> (byte_string, nat) hash_map \<times> byte_string list" where
  "release_children indegree newly_ready [] = (indegree, newly_ready)"
| "release_children indegree newly_ready (child # children) =
     (case hm_get indegree child of
        None \<Rightarrow> release_children indegree newly_ready children
      | Some degree \<Rightarrow>
          let degree' = usize_wrapping_dec degree;
              indegree' = hm_insert child degree' indegree
          in release_children indegree' (if degree' = 0 then newly_ready @ [child] else newly_ready) children)"

partial_function (option) kahn_loop ::
  "(byte_string, byte_string list) hash_map \<Rightarrow> byte_string list \<Rightarrow> (byte_string, nat) hash_map
    \<Rightarrow> byte_string list \<Rightarrow> byte_string list option" where
  "kahn_loop outgoing queue indegree order =
     (case queue of
        [] \<Rightarrow> Some order
      | jid # rest \<Rightarrow>
          (case hm_get outgoing jid of
             None \<Rightarrow> kahn_loop outgoing rest indegree (order @ [jid])
           | Some children \<Rightarrow>
               (case release_children indegree [] children of
                  (indegree', newly_ready) \<Rightarrow>
                    kahn_loop outgoing (rest @ sort newly_ready) indegree' (order @ [jid]))))"

definition initial_queue :: "(byte_string, nat) hash_map \<Rightarrow> byte_string list" where
  "initial_queue indegree = sort (map fst (filter (\<lambda>(jid, degree). degree = 0) (hm_iter indegree)))"

definition validate :: "dag_spec \<Rightarrow> (validation_error + byte_string list) option" where
  "validate spec =
     (case validate_identifier (ds_id spec) MAX_DAG_ID_BYTES of
        Inl e \<Rightarrow> Some (Inl e)
      | Inr _ \<Rightarrow>
        if ds_jobs spec = [] \<or> MAX_JOBS_PER_DAG < length (ds_jobs spec) then Some (Inl InvalidJobCount)
        else if MAX_DEPENDENCIES_PER_DAG < length (ds_dependencies spec)
        then Some (Inl InvalidDependencyCount)
        else
          (case collect_jobs hm_new (ds_jobs spec) of
             Inl e \<Rightarrow> Some (Inl e)
           | Inr indegree0 \<Rightarrow>
             (case collect_edges indegree0 hm_new (ds_dependencies spec) of
                Inl e \<Rightarrow> Some (Inl e)
              | Inr (indegree, outgoing) \<Rightarrow>
                (case kahn_loop outgoing (initial_queue indegree) indegree [] of
                   None \<Rightarrow> None
                 | Some order \<Rightarrow>
                     if length order \<noteq> length (ds_jobs spec) then Some (Inl Cycle)
                     else Some (Inr order)))))"

end
