(* ===== verification/Kahn.thy ===== *)
theory Kahn
  imports Domain
begin

text \<open>
  Correctness of \<open>DagSpec::validate\<close>. The abstract side is a predicate on the submitted graph
  (\<open>dag_well_formed\<close>: the policies; \<open>edge_rel\<close>: the dependency relation) and the notion of a
  topological order. The Kahn loop keeps \<open>kahn_inv\<close>: the stored in-degree of a job is the
  number of its edges from jobs not yet output, the jobs of in-degree zero are exactly those
  output or queued, and every output or queued job has its parents output before it.
\<close>

section \<open>The abstract side\<close>

definition job_well_formed :: "job_spec \<Rightarrow> bool" where
  "job_well_formed job \<longleftrightarrow>
     validate_identifier (js_id job) MAX_JOB_ID_BYTES = Inr () \<and>
     validate_payload (js_kind job) (js_payload job) = Inr () \<and>
     1 \<le> js_max_attempts job \<and> js_max_attempts job \<le> 20 \<and>
     - 100 \<le> js_priority job \<and> js_priority job \<le> 100"

abbreviation job_ids :: "dag_spec \<Rightarrow> byte_string list" where
  "job_ids spec \<equiv> map js_id (ds_jobs spec)"

definition edge_known :: "byte_string set \<Rightarrow> dependency \<Rightarrow> bool" where
  "edge_known V e \<longleftrightarrow> dep_from e \<in> V \<and> dep_to e \<in> V"

definition dag_well_formed :: "dag_spec \<Rightarrow> bool" where
  "dag_well_formed spec \<longleftrightarrow>
     validate_identifier (ds_id spec) MAX_DAG_ID_BYTES = Inr () \<and>
     1 \<le> length (ds_jobs spec) \<and> length (ds_jobs spec) \<le> MAX_JOBS_PER_DAG \<and>
     length (ds_dependencies spec) \<le> MAX_DEPENDENCIES_PER_DAG \<and>
     list_all job_well_formed (ds_jobs spec) \<and>
     distinct (job_ids spec) \<and>
     list_all (edge_known (set (job_ids spec))) (ds_dependencies spec)"

definition edge_rel :: "dag_spec \<Rightarrow> (byte_string \<times> byte_string) set" where
  "edge_rel spec = (\<lambda>e. (dep_from e, dep_to e)) ` set (ds_dependencies spec)"

text \<open>\<open>a\<close> occurs before \<open>b\<close>.\<close>

definition precedes :: "'a list \<Rightarrow> 'a \<Rightarrow> 'a \<Rightarrow> bool" where
  "precedes xs a b \<longleftrightarrow> (\<exists>us vs ws. xs = us @ a # vs @ b # ws)"

text \<open>Every element has its parents in \<open>P\<close> or earlier in the list.\<close>

fun topo_from :: "dependency list \<Rightarrow> byte_string set \<Rightarrow> byte_string list \<Rightarrow> bool" where
  "topo_from E P [] = True"
| "topo_from E P (v # vs) =
     ((\<forall>e\<in>set E. dep_to e = v \<longrightarrow> dep_from e \<in> P) \<and> topo_from E (insert v P) vs)"

lemma topo_from_append:
  "topo_from E P (xs @ ys) \<longleftrightarrow> topo_from E P xs \<and> topo_from E (P \<union> set xs) ys"
  by (induction xs arbitrary: P) auto

lemma topo_from_all_in: 
  "(\<And>v e. v \<in> set vs \<Longrightarrow> e \<in> set E \<Longrightarrow> dep_to e = v \<Longrightarrow> dep_from e \<in> P) \<Longrightarrow> topo_from E P vs"
proof (induction vs arbitrary: P)
  case (Cons v vs)
  show ?case using Cons.prems by (auto intro!: Cons.IH)
qed simp

lemma topo_from_precedes:
  assumes "topo_from E {} ord" "e \<in> set E" "dep_to e \<in> set ord"
  shows "precedes ord (dep_from e) (dep_to e)"
proof -
  from assms(3) obtain us ws where ord: "ord = us @ dep_to e # ws" by (meson split_list)
  with assms(1,2) have "dep_from e \<in> set us" by (auto simp: topo_from_append)
  then obtain xs ys where "us = xs @ dep_from e # ys" by (meson split_list)
  with ord show ?thesis by (auto simp: precedes_def)
qed

text \<open>A list in which every edge goes forward witnesses acyclicity.\<close>

definition position :: "'a list \<Rightarrow> 'a \<Rightarrow> nat" where
  "position xs a = length (takeWhile (\<lambda>x. x \<noteq> a) xs)"

lemma position_split: "a \<notin> set us \<Longrightarrow> position (us @ a # ws) a = length us"
  by (induction us) (auto simp: position_def)

lemma precedes_position: "precedes xs a b \<Longrightarrow> distinct xs \<Longrightarrow> position xs a < position xs b"
proof -
  assume "precedes xs a b" and d: "distinct xs"
  then obtain us vs ws where xs: "xs = us @ a # vs @ b # ws" by (auto simp: precedes_def)
  with d have a: "a \<notin> set us" and b: "b \<notin> set us" "b \<noteq> a" "b \<notin> set vs" by auto
  from a have "position xs a = length us" unfolding xs by (rule position_split)
  moreover from b have "position xs b = length (us @ a # vs)"
    using position_split [of b "us @ a # vs" ws] by (simp add: xs)
  ultimately show ?thesis by simp
qed

lemma acyclic_if_precedes:
  assumes "distinct ord" "\<And>a b. (a, b) \<in> r \<Longrightarrow> precedes ord a b"
  shows "acyclic r"
proof (rule acyclicI_order [where f = "\<lambda>v. - int (position ord v)"])
  show "- int (position ord b) < - int (position ord a)" if "(a, b) \<in> r" for a b
    using assms precedes_position that by fastforce
qed

section \<open>The two collecting loops\<close>

lemma collect_jobs_Inr_iff:
  "collect_jobs indegree jobs = Inr indegree' \<longleftrightarrow>
     list_all job_well_formed jobs \<and> distinct (map js_id jobs) \<and>
     (\<forall>job\<in>set jobs. hm_get indegree (js_id job) = None) \<and>
     indegree' = fold (\<lambda>job. hm_insert (js_id job) 0) jobs indegree"
proof (induction jobs arbitrary: indegree)
  case (Cons job jobs)
  show ?case
    by (auto simp: Cons.IH job_well_formed_def hm_contains_key_def image_iff split: sum.split)
qed auto

lemma collect_edges_Inr_iff:
  "collect_edges indegree outgoing edges = Inr (indegree', outgoing') \<longleftrightarrow>
     list_all (edge_known {v. hm_get indegree v \<noteq> None}) edges \<and>
     (\<forall>e\<in>set edges. dep_from e \<noteq> dep_to e) \<and>
     indegree' = fold (\<lambda>e. hm_modify (dep_to e) Suc) edges indegree \<and>
     outgoing' = fold (\<lambda>e. hm_entry_push (dep_from e) (dep_to e)) edges outgoing"
proof (induction edges arbitrary: indegree outgoing)
  case (Cons e edges)
  show ?case
    using Cons.IH [of "hm_modify (dep_to e) Suc indegree" "hm_entry_push (dep_from e) (dep_to e) outgoing"]
    unfolding hm_dom_modify by (auto simp: edge_known_def hm_contains_key_def)
qed auto

lemma collect_jobs_no_Cycle: "collect_jobs indegree jobs \<noteq> Inl Cycle"
  by (induction indegree jobs rule: collect_jobs.induct)
    (auto simp: validate_identifier_def validate_payload_def split: sum.splits option.splits if_splits)

lemma collect_edges_Cycle:
  "collect_edges indegree outgoing edges = Inl Cycle \<Longrightarrow> \<exists>e\<in>set edges. dep_from e = dep_to e"
  by (induction indegree outgoing edges rule: collect_edges.induct) (auto split: if_splits)

section \<open>The Kahn loop\<close>

definition pending_degree :: "dependency list \<Rightarrow> byte_string set \<Rightarrow> byte_string \<Rightarrow> nat" where
  "pending_degree E P v = length (filter (\<lambda>e. dep_to e = v \<and> dep_from e \<notin> P) E)"

definition children_of :: "dependency list \<Rightarrow> byte_string \<Rightarrow> byte_string list" where
  "children_of E u = map dep_to (filter (\<lambda>e. dep_from e = u) E)"

lemma pending_degree_insert:
  "u \<notin> P \<Longrightarrow> pending_degree E P v = pending_degree E (insert u P) v + count_list (children_of E u) v"
  by (induction E) (auto simp: pending_degree_def children_of_def)

lemma pending_degree_0_iff:
  "pending_degree E P v = 0 \<longleftrightarrow> (\<forall>e\<in>set E. dep_to e = v \<longrightarrow> dep_from e \<in> P)"
  unfolding pending_degree_def filter_count_eq_0_iff by auto

text \<open>
  One round of releases: no counter ever wraps, each child loses as many units as it has edges
  from the finished job, and the released children are those whose counter reached zero.
\<close>

lemma release_children_spec:
  assumes "\<forall>c\<in>set cs. \<exists>n. hm_get indegree c = Some n \<and> count_list cs c \<le> n"
  shows "\<exists>indegree' released. release_children indegree newly cs = (indegree', newly @ released) \<and>
     (\<forall>v. hm_get indegree' v = map_option (\<lambda>n. n - count_list cs v) (hm_get indegree v)) \<and>
     distinct released \<and>
     set released = {c \<in> set cs. hm_get indegree c = Some (count_list cs c)}"
  using assms
proof (induction cs arbitrary: indegree newly)
  case Nil
  then show ?case by (auto simp: option.map_ident)
next
  case (Cons c cs)
  from Cons.prems obtain n where n: "hm_get indegree c = Some n" "Suc (count_list cs c) \<le> n" by auto
  define ind1 where "ind1 = hm_insert c (n - 1) indegree"
  define newly1 where "newly1 = (if n - 1 = 0 then newly @ [c] else newly)"
  have step: "release_children indegree newly (c # cs) = release_children ind1 newly1 cs"
    using n by (simp add: ind1_def newly1_def usize_wrapping_dec_def Let_def)
  have "\<forall>c'\<in>set cs. \<exists>m. hm_get ind1 c' = Some m \<and> count_list cs c' \<le> m"
    using Cons.prems n by (auto simp: ind1_def split: if_splits)
  from Cons.IH [OF this, of newly1] obtain ind2 rel where
    r: "release_children ind1 newly1 cs = (ind2, newly1 @ rel)"
      "\<forall>v. hm_get ind2 v = map_option (\<lambda>n. n - count_list cs v) (hm_get ind1 v)"
      "distinct rel" "set rel = {c' \<in> set cs. hm_get ind1 c' = Some (count_list cs c')}"
    by auto
  have get2: "hm_get ind2 v = map_option (\<lambda>m. m - count_list (c # cs) v) (hm_get indegree v)" for v
    using r(2) n by (cases "hm_get indegree v") (auto simp: ind1_def)
  show ?case
  proof (cases "n = 1")
    case True
    with n have c: "c \<notin> set cs" by (simp add: count_list_0_iff)
    with True have rel: "set rel = {c' \<in> set cs. hm_get indegree c' = Some (count_list (c # cs) c')}"
      by (auto simp: r(4) ind1_def)
    have "set (c # rel) = {c' \<in> set (c # cs). hm_get indegree c' = Some (count_list (c # cs) c')}"
      using rel n c True by (auto simp: count_list_0_iff)
    moreover have "distinct (c # rel)" using c rel r(3) by auto
    ultimately show ?thesis
      using r(1) get2 True step by (intro exI [of _ ind2] exI [of _ "c # rel"]) (simp add: newly1_def)
  next
    case False
    have "set rel = {c' \<in> set (c # cs). hm_get indegree c' = Some (count_list (c # cs) c')}"
      using n False by (auto simp: r(4) ind1_def count_list_0_iff split: if_splits)
    then show ?thesis
      using r(1,3) get2 False step n(2) by (intro exI [of _ ind2] exI [of _ rel]) (simp add: newly1_def)
  qed
qed

definition kahn_inv ::
  "byte_string set \<Rightarrow> dependency list \<Rightarrow> byte_string list \<Rightarrow> (byte_string, nat) hash_map
    \<Rightarrow> byte_string list \<Rightarrow> bool" where
  "kahn_inv V E queue indegree order \<longleftrightarrow>
     distinct (order @ queue) \<and> set (order @ queue) \<subseteq> V \<and>
     (\<forall>v. hm_get indegree v = (if v \<in> V then Some (pending_degree E (set order) v) else None)) \<and>
     (\<forall>v\<in>V. v \<in> set (order @ queue) \<longleftrightarrow> pending_degree E (set order) v = 0) \<and>
     topo_from E {} (order @ queue)"

text \<open>The adjacency the loop reads is the graph's, and the graph has known endpoints.\<close>

definition kahn_graph ::
  "byte_string set \<Rightarrow> dependency list \<Rightarrow> (byte_string, byte_string list) hash_map \<Rightarrow> bool" where
  "kahn_graph V E outgoing \<longleftrightarrow>
     finite V \<and> list_all (edge_known V) E \<and> (\<forall>u. hm_get_list outgoing u = children_of E u)"

lemma kahn_round:
  assumes g: "kahn_graph V E outgoing" and inv: "kahn_inv V E (u # rest) indegree order"
  shows "\<exists>indegree' newly.
    kahn_loop outgoing (u # rest) indegree order =
      kahn_loop outgoing (rest @ sort newly) indegree' (order @ [u]) \<and>
    distinct newly \<and>
    set newly = {c \<in> set (children_of E u). pending_degree E (set (order @ [u])) c = 0} \<and>
    kahn_inv V E (rest @ sort newly) indegree' (order @ [u])"
proof -
  let ?d = "pending_degree E (set order)" and ?d' = "pending_degree E (set (order @ [u]))"
  let ?cs = "children_of E u"
  from inv have u: "u \<notin> set order" and
    get: "\<And>v. hm_get indegree v = (if v \<in> V then Some (?d v) else None)" and
    dist: "distinct (order @ u # rest)" and sub: "set (order @ u # rest) \<subseteq> V" and
    zero: "\<And>v. v \<in> V \<Longrightarrow> v \<in> set (order @ u # rest) \<longleftrightarrow> ?d v = 0" and
    topo: "topo_from E {} (order @ u # rest)"
    by (auto simp: kahn_inv_def)
  have deg: "?d v = ?d' v + count_list ?cs v" for v
    using pending_degree_insert [OF u] by simp
  have cs: "set ?cs \<subseteq> V"
    using g by (auto simp: kahn_graph_def children_of_def list_all_iff edge_known_def)
  have "\<forall>c\<in>set ?cs. \<exists>n. hm_get indegree c = Some n \<and> count_list ?cs c \<le> n"
    using cs deg by (auto simp: get)
  from release_children_spec [OF this, of "[]"] obtain ind' rel where
    r: "release_children indegree [] ?cs = (ind', rel)"
      "\<And>v. hm_get ind' v = map_option (\<lambda>n. n - count_list ?cs v) (hm_get indegree v)"
      "distinct rel" "set rel = {c \<in> set ?cs. hm_get indegree c = Some (count_list ?cs c)}"
    by auto
  have rel: "c \<in> set rel \<longleftrightarrow> c \<in> set ?cs \<and> ?d' c = 0" for c
    using cs deg [of c] by (auto simp: r(4) get)
  have fresh: "set rel \<inter> set (order @ u # rest) = {}"
  proof -
    have "c \<notin> set (order @ u # rest)" if "c \<in> set rel" for c
      using that rel [of c] deg [of c] cs zero [of c] by (auto simp: count_list_0_iff)
    then show ?thesis by blast
  qed
  have step: "kahn_loop outgoing (u # rest) indegree order =
      kahn_loop outgoing (rest @ sort rel) ind' (order @ [u])"
  proof (cases "hm_get outgoing u")
    case None
    with g have "?cs = []" by (metis hm_get_list_def kahn_graph_def option.simps(4))
    with r(1) None show ?thesis by (subst kahn_loop.simps) simp
  next
    case (Some xs)
    with g have "?cs = xs" by (metis hm_get_list_def kahn_graph_def option.simps(5))
    with r(1) Some show ?thesis by (subst kahn_loop.simps) simp
  qed
  have zero': "v \<in> set ((order @ [u]) @ rest @ sort rel) \<longleftrightarrow> ?d' v = 0" if "v \<in> V" for v
    using zero [OF that] rel [of v] deg [of v] by (auto simp: count_list_0_iff)
  have "kahn_inv V E (rest @ sort rel) ind' (order @ [u])"
    unfolding kahn_inv_def
  proof (intro conjI)
    show "distinct ((order @ [u]) @ rest @ sort rel)" using dist fresh r(3) by auto
    show "set ((order @ [u]) @ rest @ sort rel) \<subseteq> V" using sub rel cs by auto
    show "\<forall>v. hm_get ind' v = (if v \<in> V then Some (?d' v) else None)"
      using deg by (auto simp: r(2) get)
    show "\<forall>v\<in>V. v \<in> set ((order @ [u]) @ rest @ sort rel) \<longleftrightarrow> ?d' v = 0" using zero' by blast
    have "topo_from E (set (order @ u # rest)) (sort rel)"
      using rel by (intro topo_from_all_in) (auto simp: pending_degree_0_iff)
    then show "topo_from E {} ((order @ [u]) @ rest @ sort rel)"
      using topo topo_from_append [of E "{}" "order @ u # rest" "sort rel"] by simp
  qed
  moreover from rel have "set rel = {c \<in> set ?cs. ?d' c = 0}" by blast
  ultimately show ?thesis using step r(3) by blast
qed

text \<open>Every round outputs one more job, so the loop ends within \<open>card V\<close> rounds.\<close>

lemma kahn_loop_total:
  assumes "kahn_graph V E outgoing" "kahn_inv V E queue indegree order"
  shows "\<exists>order' indegree'. kahn_loop outgoing queue indegree order = Some order' \<and>
     kahn_inv V E [] indegree' order'"
  using assms(2)
proof (induction "card V - length order" arbitrary: queue indegree order rule: less_induct)
  case less
  show ?case
  proof (cases queue)
    case Nil
    with less.prems show ?thesis by (subst kahn_loop.simps) auto
  next
    case (Cons u rest)
    with kahn_round [OF assms(1)] less.prems obtain ind' newly where
      eq: "kahn_loop outgoing queue indegree order =
        kahn_loop outgoing (rest @ sort newly) ind' (order @ [u])" and
      inv: "kahn_inv V E (rest @ sort newly) ind' (order @ [u])" by blast
    have "length (order @ queue) \<le> card V"
      using less.prems assms(1)
      by (metis card_mono distinct_card kahn_graph_def kahn_inv_def)
    with Cons have "card V - length (order @ [u]) < card V - length order" by simp
    from less.hyps [OF this inv] eq show ?thesis by simp
  qed
qed

lemma kahn_complete_if_acyclic:
  assumes g: "kahn_graph V E outgoing" and inv: "kahn_inv V E [] indegree order"
    and ac: "acyclic ((\<lambda>e. (dep_from e, dep_to e)) ` set E)" (is "acyclic ?r")
  shows "set order = V"
proof (rule ccontr)
  assume "set order \<noteq> V"
  moreover from inv have "set order \<subseteq> V" by (simp add: kahn_inv_def)
  ultimately obtain w where w: "w \<in> V - set order" by auto
  have "wf ?r" using ac by (intro finite_acyclic_wf) auto
  from this w obtain z where z: "z \<in> V - set order"
    and min: "\<And>y. (y, z) \<in> ?r \<Longrightarrow> y \<notin> V - set order"
    by (rule wfE_min) blast
  from z inv have "pending_degree E (set order) z \<noteq> 0" by (auto simp: kahn_inv_def)
  then obtain e where e: "e \<in> set E" "dep_to e = z" "dep_from e \<notin> set order"
    by (auto simp: pending_degree_0_iff)
  with g have "dep_from e \<in> V" by (auto simp: kahn_graph_def list_all_iff edge_known_def)
  with e(3) have "dep_from e \<in> V - set order" by simp
  moreover from e(1,2) have "(dep_from e, z) \<in> ?r" by auto
  ultimately show False using min [of "dep_from e"] by blast
qed

text \<open>The loop's output depends on the graph only, not on the order of its edges.\<close>

lemma pending_degree_cong: "mset E = mset E' \<Longrightarrow> pending_degree E P v = pending_degree E' P v"
  unfolding pending_degree_def size_mset [symmetric] mset_filter by simp

lemma set_children_of_cong: "mset E = mset E' \<Longrightarrow> set (children_of E u) = set (children_of E' u)"
  by (auto simp: children_of_def dest: mset_eq_setD)

lemma kahn_loop_cong:
  assumes "kahn_graph V E outgoing" "kahn_graph V E' outgoing'" "mset E = mset E'"
    and "kahn_inv V E queue indegree order" "kahn_inv V E' queue indegree' order"
  shows "kahn_loop outgoing queue indegree order = kahn_loop outgoing' queue indegree' order"
  using assms(4,5)
proof (induction "card V - length order" arbitrary: queue indegree indegree' order rule: less_induct)
  case less
  show ?case
  proof (cases queue)
    case Nil
    then show ?thesis by (simp add: kahn_loop.simps)
  next
    case (Cons u rest)
    let ?new = "{c \<in> set (children_of E u). pending_degree E (set (order @ [u])) c = 0}"
    from kahn_round [OF assms(1)] less.prems(1) Cons obtain ind1 newly1 where
      r1: "kahn_loop outgoing queue indegree order =
          kahn_loop outgoing (rest @ sort newly1) ind1 (order @ [u])"
        "distinct newly1" "set newly1 = ?new" "kahn_inv V E (rest @ sort newly1) ind1 (order @ [u])"
      by blast
    from kahn_round [OF assms(2)] less.prems(2) Cons obtain ind2 newly2 where
      r2: "kahn_loop outgoing' queue indegree' order =
          kahn_loop outgoing' (rest @ sort newly2) ind2 (order @ [u])"
        "distinct newly2"
        "set newly2 = {c \<in> set (children_of E' u). pending_degree E' (set (order @ [u])) c = 0}"
        "kahn_inv V E' (rest @ sort newly2) ind2 (order @ [u])"
      by blast
    have "set newly2 = ?new"
      using r2(3) pending_degree_cong [OF assms(3)] set_children_of_cong [OF assms(3)] by simp
    with r1 r2 have same: "sort newly1 = sort newly2"
      by (intro sort_mset_cong distinct_set_eq_imp_mset_eq) simp_all
    have "length (order @ queue) \<le> card V"
      using less.prems(1) assms(1) by (metis card_mono distinct_card kahn_graph_def kahn_inv_def)
    with Cons have "card V - length (order @ [u]) < card V - length order" by simp
    from less.hyps [OF this r1(4)] r2(4) same r1(1) r2(1) show ?thesis by simp
  qed
qed

section \<open>The whole validation\<close>

lemma initial_queue_spec:
  assumes "hm_wf indegree"
  shows "distinct (initial_queue indegree)"
    "set (initial_queue indegree) = {v. hm_get indegree v = Some 0}"
  using assms
  by (auto simp: initial_queue_def hm_iter_def hm_wf_def distinct_map_filter hm_get_def
      image_iff Bex_def)

lemma collected_jobs:
  assumes "collect_jobs hm_new jobs = Inr indegree0"
  shows "hm_wf indegree0"
    and "hm_get indegree0 v = (if v \<in> set (map js_id jobs) then Some 0 else None)"
    and "{v. hm_get indegree0 v \<noteq> None} = set (map js_id jobs)"
proof -
  from assms have i0: "indegree0 = fold (\<lambda>job. hm_insert (js_id job) 0) jobs hm_new"
    by (simp add: collect_jobs_Inr_iff)
  show "hm_wf indegree0"
    unfolding i0 using hm.wf_insert_all [of hm_new js_id "\<lambda>_. 0 :: nat" jobs] by simp
  have get: "hm_get indegree0 v = (if v \<in> set (map js_id jobs) then Some 0 else None)" for v
    unfolding i0 using hm.get_insert_all [of js_id "0 :: nat" jobs hm_new v] by simp
  show "hm_get indegree0 v = (if v \<in> set (map js_id jobs) then Some 0 else None)" by (rule get)
  show "{v. hm_get indegree0 v \<noteq> None} = set (map js_id jobs)" by (auto simp: get)
qed

lemma kahn_start:
  assumes "collect_jobs hm_new (ds_jobs spec) = Inr indegree0"
    and "collect_edges indegree0 hm_new (ds_dependencies spec) = Inr (indegree, outgoing)"
  shows "kahn_graph (set (job_ids spec)) (ds_dependencies spec) outgoing"
    and "kahn_inv (set (job_ids spec)) (ds_dependencies spec) (initial_queue indegree) indegree []"
proof -
  let ?V = "set (job_ids spec)" and ?E = "ds_dependencies spec"
  note jobs = collected_jobs [OF assms(1)]
  from assms(2) have known: "list_all (edge_known ?V) ?E"
    and ind: "indegree = fold (\<lambda>e. hm_modify (dep_to e) Suc) ?E indegree0"
    and out: "outgoing = fold (\<lambda>e. hm_entry_push (dep_from e) (dep_to e)) ?E hm_new"
    by (simp_all only: collect_edges_Inr_iff jobs(3))
  show "kahn_graph ?V ?E outgoing"
    using known hm_get_group_loop [of dep_from dep_to ?E hm_new]
    by (simp add: kahn_graph_def out children_of_def hm_get_list_def)
  have get: "hm_get indegree v = (if v \<in> ?V then Some (pending_degree ?E {} v) else None)" for v
    unfolding ind using hm_get_count_loop [of dep_to ?E indegree0 v]
    by (simp add: jobs(2) pending_degree_def)
  have wf: "hm_wf indegree" unfolding ind using jobs(1) by (rule hm_wf_count_loop)
  show "kahn_inv ?V ?E (initial_queue indegree) indegree []"
    unfolding kahn_inv_def using initial_queue_spec [OF wf]
    by (auto simp: get pending_degree_0_iff split: if_splits intro!: topo_from_all_in)
qed

lemma collect_edges_self_loop:
  assumes "list_all (edge_known {v. hm_get indegree v \<noteq> None}) edges"
    and "\<exists>e\<in>set edges. dep_from e = dep_to e"
  shows "collect_edges indegree outgoing edges = Inl Cycle"
  using assms
proof (induction edges arbitrary: indegree outgoing)
  case (Cons e edges)
  show ?case
  proof (cases "dep_from e = dep_to e")
    case False
    with Cons.prems have "collect_edges (hm_modify (dep_to e) Suc indegree)
        (hm_entry_push (dep_from e) (dep_to e) outgoing) edges = Inl Cycle"
      by (intro Cons.IH) (simp_all only: hm_dom_modify, auto)
    with False Cons.prems show ?thesis by (simp add: edge_known_def hm_contains_key_def)
  qed simp
qed simp

text \<open>What \<open>validate\<close> computes once every policy holds: it runs Kahn's loop on the graph.\<close>

lemma validate_self_loop:
  assumes "dag_well_formed spec" "\<exists>e\<in>set (ds_dependencies spec). dep_from e = dep_to e"
  shows "validate spec = Some (Inl Cycle)"
proof -
  obtain ind0 where c: "collect_jobs hm_new (ds_jobs spec) = Inr ind0"
    using assms(1) by (simp add: collect_jobs_Inr_iff dag_well_formed_def)
  note keys = collected_jobs(3) [OF c]
  from assms have "collect_edges ind0 hm_new (ds_dependencies spec) = Inl Cycle"
    by (intro collect_edges_self_loop) (simp_all only: keys dag_well_formed_def)
  with assms(1) c show ?thesis by (auto simp: validate_def dag_well_formed_def)
qed

lemma validate_runs_kahn:
  assumes "dag_well_formed spec" "\<forall>e\<in>set (ds_dependencies spec). dep_from e \<noteq> dep_to e"
  obtains indegree outgoing indegree' order where
    "kahn_graph (set (job_ids spec)) (ds_dependencies spec) outgoing"
    "kahn_inv (set (job_ids spec)) (ds_dependencies spec) (initial_queue indegree) indegree []"
    "kahn_loop outgoing (initial_queue indegree) indegree [] = Some order"
    "kahn_inv (set (job_ids spec)) (ds_dependencies spec) [] indegree' order"
    "validate spec = Some (if length order \<noteq> length (ds_jobs spec) then Inl Cycle else Inr order)"
proof -
  obtain ind0 where c: "collect_jobs hm_new (ds_jobs spec) = Inr ind0"
    using assms(1) by (simp add: collect_jobs_Inr_iff dag_well_formed_def)
  note keys = collected_jobs(3) [OF c]
  from assms obtain ind out where e: "collect_edges ind0 hm_new (ds_dependencies spec) = Inr (ind, out)"
    by (simp only: collect_edges_Inr_iff keys dag_well_formed_def)
  note start = kahn_start [OF c e]
  from kahn_loop_total [OF start] obtain order ind' where
    k: "kahn_loop out (initial_queue ind) ind [] = Some order"
      "kahn_inv (set (job_ids spec)) (ds_dependencies spec) [] ind' order" by blast
  have "validate spec = Some (if length order \<noteq> length (ds_jobs spec) then Inl Cycle else Inr order)"
    using assms(1) c e k(1) by (auto simp: validate_def dag_well_formed_def)
  with start k show thesis by (rule that)
qed

lemma validate_Inr_well_formed: "validate spec = Some (Inr order) \<Longrightarrow> dag_well_formed spec"
proof -
  assume v: "validate spec = Some (Inr order)"
  then obtain ind0 where c: "collect_jobs hm_new (ds_jobs spec) = Inr ind0"
    by (auto simp: validate_def split: sum.splits if_splits)
  with v obtain p where e: "collect_edges ind0 hm_new (ds_dependencies spec) = Inr p"
    by (auto simp: validate_def split: sum.splits if_splits)
  note keys = collected_jobs(3) [OF c]
  from e have "list_all (edge_known (set (job_ids spec))) (ds_dependencies spec)"
    by (cases p) (simp only: collect_edges_Inr_iff keys)
  with v c show ?thesis
    by (auto simp: validate_def dag_well_formed_def collect_jobs_Inr_iff Suc_le_eq not_less
        split: sum.splits if_splits)
qed

lemma validate_Inr_no_self_loop:
  "validate spec = Some (Inr order) \<Longrightarrow> e \<in> set (ds_dependencies spec) \<Longrightarrow> dep_from e \<noteq> dep_to e"
  using validate_self_loop validate_Inr_well_formed by fastforce

lemma validate_order:
  assumes "validate spec = Some (Inr order)"
  shows "distinct order" "set order = set (job_ids spec)"
    "topo_from (ds_dependencies spec) {} order"
proof -
  note wf = validate_Inr_well_formed [OF assms]
  have loopfree: "\<forall>e\<in>set (ds_dependencies spec). dep_from e \<noteq> dep_to e"
    using validate_Inr_no_self_loop [OF assms] by blast
  obtain ind' ord' where
    inv: "kahn_inv (set (job_ids spec)) (ds_dependencies spec) [] ind' ord'" and
    v: "validate spec = Some (if length ord' \<noteq> length (ds_jobs spec) then Inl Cycle else Inr ord')"
    by (rule validate_runs_kahn [OF wf loopfree]) blast
  from v assms have ord: "order = ord'" "length order = length (ds_jobs spec)"
    by (auto split: if_splits)
  with inv show "distinct order" "topo_from (ds_dependencies spec) {} order"
    by (auto simp: kahn_inv_def)
  from inv ord have "distinct order" "set order \<subseteq> set (job_ids spec)" by (auto simp: kahn_inv_def)
  then show "set order = set (job_ids spec)"
    using ord(2) by (intro set_eq_if_distinct_subset_length) simp_all
qed

lemma edge_known_in:
  "dag_well_formed spec \<Longrightarrow> e \<in> set (ds_dependencies spec) \<Longrightarrow>
    dep_from e \<in> set (job_ids spec) \<and> dep_to e \<in> set (job_ids spec)"
  by (auto simp: dag_well_formed_def list_all_iff edge_known_def)

lemma validate_precedes:
  assumes "validate spec = Some (Inr order)" "e \<in> set (ds_dependencies spec)"
  shows "precedes order (dep_from e) (dep_to e)"
proof (rule topo_from_precedes)
  show "topo_from (ds_dependencies spec) {} order" by (rule validate_order(3) [OF assms(1)])
  show "dep_to e \<in> set order"
    using edge_known_in [OF validate_Inr_well_formed [OF assms(1)] assms(2)]
      validate_order(2) [OF assms(1)] by simp
qed (rule assms(2))

lemma validate_acyclic:
  assumes "validate spec = Some (Inr order)"
  shows "acyclic (edge_rel spec)"
proof (rule acyclic_if_precedes [OF validate_order(1) [OF assms]])
  show "precedes order a b" if "(a, b) \<in> edge_rel spec" for a b
    using that validate_precedes [OF assms] by (auto simp: edge_rel_def)
qed

lemma validate_complete:
  assumes wf: "dag_well_formed spec" and ac: "acyclic (edge_rel spec)"
  shows "\<exists>order. validate spec = Some (Inr order)"
proof -
  have loopfree: "\<forall>e\<in>set (ds_dependencies spec). dep_from e \<noteq> dep_to e"
  proof
    fix e assume "e \<in> set (ds_dependencies spec)"
    then have "(dep_from e, dep_to e) \<in> (edge_rel spec)\<^sup>+" by (auto simp: edge_rel_def)
    with ac show "dep_from e \<noteq> dep_to e" by (auto simp: acyclic_def)
  qed
  obtain out ind' ord where
    g: "kahn_graph (set (job_ids spec)) (ds_dependencies spec) out" and
    inv: "kahn_inv (set (job_ids spec)) (ds_dependencies spec) [] ind' ord" and
    v: "validate spec = Some (if length ord \<noteq> length (ds_jobs spec) then Inl Cycle else Inr ord)"
    by (rule validate_runs_kahn [OF wf loopfree]) blast
  have "set ord = set (job_ids spec)"
    using kahn_complete_if_acyclic [OF g inv] ac by (simp add: edge_rel_def)
  moreover have "distinct ord" "distinct (job_ids spec)"
    using inv wf by (auto simp: kahn_inv_def dag_well_formed_def)
  ultimately have "length ord = length (ds_jobs spec)"
    by (metis distinct_card length_map)
  with v show ?thesis by simp
qed

lemma validate_total: "\<exists>r. validate spec = Some r"
proof (cases "validate spec")
  case None
  then obtain ind0 where c: "collect_jobs hm_new (ds_jobs spec) = Inr ind0"
    by (auto simp: validate_def split: sum.splits if_splits)
  with None obtain ind out where e: "collect_edges ind0 hm_new (ds_dependencies spec) = Inr (ind, out)"
    by (auto simp: validate_def split: sum.splits if_splits)
  from kahn_loop_total [OF kahn_start [OF c e]] c e None show ?thesis
    by (auto simp: validate_def split: sum.splits if_splits)
qed simp

text \<open>What each error reports about the submitted graph.\<close>

fun error_justified :: "dag_spec \<Rightarrow> validation_error \<Rightarrow> bool" where
  "error_justified spec (InvalidIdentifier v) \<longleftrightarrow>
     v \<in> set (ds_id spec # job_ids spec) \<and>
     (v = [] \<or> 64 < length v \<or> (\<exists>c\<in>set v. \<not> identifier_byte c))"
| "error_justified spec InvalidJobCount \<longleftrightarrow> length (ds_jobs spec) = 0 \<or> 1000 < length (ds_jobs spec)"
| "error_justified spec InvalidDependencyCount \<longleftrightarrow> 10000 < length (ds_dependencies spec)"
| "error_justified spec (DuplicateJob v) \<longleftrightarrow> v \<in> set (job_ids spec) \<and> \<not> distinct (job_ids spec)"
| "error_justified spec (UnknownJob v) \<longleftrightarrow>
     v \<notin> set (job_ids spec) \<and> (\<exists>e\<in>set (ds_dependencies spec). v = dep_from e \<or> v = dep_to e)"
| "error_justified spec Cycle \<longleftrightarrow> \<not> acyclic (edge_rel spec)"
| "error_justified spec PayloadTooLarge \<longleftrightarrow> (\<exists>j\<in>set (ds_jobs spec). 4096 < length (js_payload j))"
| "error_justified spec InvalidDelay \<longleftrightarrow>
     (\<exists>j\<in>set (ds_jobs spec). js_kind j = Delay \<and>
        (\<forall>n. parse_u64 (js_payload j) = Some n \<longrightarrow> 5000 < n))"
| "error_justified spec InvalidPolicy \<longleftrightarrow>
     (\<exists>j\<in>set (ds_jobs spec). js_max_attempts j \<notin> {1..20} \<or> js_priority j \<notin> {-100..100})"

lemma validate_identifier_Inl:
  "validate_identifier v n = Inl e \<Longrightarrow>
     e = InvalidIdentifier v \<and> (v = [] \<or> n < length v \<or> (\<exists>c\<in>set v. \<not> identifier_byte c))"
  by (auto simp: validate_identifier_def list_all_iff split: if_splits)

lemma validate_payload_Inl:
  "validate_payload k p = Inl e \<Longrightarrow>
     e = PayloadTooLarge \<and> 4096 < length p \<or>
     e = InvalidDelay \<and> k = Delay \<and> (\<forall>n. parse_u64 p = Some n \<longrightarrow> 5000 < n)"
  by (auto simp: validate_payload_def policy_defs split: if_splits option.splits)

lemma collect_jobs_Cons_InlD:
  "collect_jobs indegree (job # jobs) = Inl e \<Longrightarrow>
     validate_identifier (js_id job) MAX_JOB_ID_BYTES = Inl e \<or>
     validate_payload (js_kind job) (js_payload job) = Inl e \<or>
     e = InvalidPolicy \<and> (js_max_attempts job \<notin> {1..20} \<or> js_priority job \<notin> {-100..100}) \<or>
     e = DuplicateJob (js_id job) \<and> hm_get indegree (js_id job) \<noteq> None \<or>
     collect_jobs (hm_insert (js_id job) 0 indegree) jobs = Inl e"
  by (cases "validate_identifier (js_id job) MAX_JOB_ID_BYTES";
      cases "validate_payload (js_kind job) (js_payload job)")
    (auto simp: hm_contains_key_def split: if_split_asm)

lemma collect_edges_Cons_InlD:
  "collect_edges indegree outgoing (edge # edges) = Inl e \<Longrightarrow>
     e = Cycle \<and> dep_from edge = dep_to edge \<or>
     (\<exists>v\<in>{dep_from edge, dep_to edge}. e = UnknownJob v \<and> hm_get indegree v = None) \<or>
     collect_edges (hm_modify (dep_to edge) Suc indegree)
        (hm_entry_push (dep_from edge) (dep_to edge) outgoing) edges = Inl e"
  by (auto simp: hm_contains_key_def split: if_split_asm)

lemma collect_jobs_justified:
  assumes "collect_jobs indegree jobs = Inl e"
    and "ds_jobs spec = before @ jobs" "\<forall>v. hm_get indegree v \<noteq> None \<longrightarrow> v \<in> set (map js_id before)"
  shows "error_justified spec e"
  using assms
proof (induction jobs arbitrary: indegree before)
  case (Cons job jobs)
  from collect_jobs_Cons_InlD [OF Cons.prems(1)]
  consider (ident) "validate_identifier (js_id job) MAX_JOB_ID_BYTES = Inl e"
    | (payload) "validate_payload (js_kind job) (js_payload job) = Inl e"
    | (policy) "e = InvalidPolicy" "js_max_attempts job \<notin> {1..20} \<or> js_priority job \<notin> {-100..100}"
    | (dup) "e = DuplicateJob (js_id job)" "hm_get indegree (js_id job) \<noteq> None"
    | (later) "collect_jobs (hm_insert (js_id job) 0 indegree) jobs = Inl e"
    by blast
  then show ?case
  proof cases
    case ident
    with Cons.prems(2) show ?thesis
      by (auto simp: policy_defs dest!: validate_identifier_Inl)
  next
    case payload
    with Cons.prems(2) show ?thesis by (auto dest!: validate_payload_Inl)
  next
    case policy
    with Cons.prems(2) show ?thesis by auto
  next
    case dup
    with Cons.prems(2,3) show ?thesis by auto
  next
    case later
    then show ?thesis
      using Cons.prems(2,3) by (intro Cons.IH [of "hm_insert (js_id job) 0 indegree" "before @ [job]"]) auto
  qed
qed simp

lemma collect_edges_justified:
  assumes "collect_edges indegree outgoing edges = Inl e"
    and "set edges \<subseteq> set (ds_dependencies spec)"
    and "{v. hm_get indegree v \<noteq> None} = set (job_ids spec)"
  shows "error_justified spec e"
  using assms
proof (induction edges arbitrary: indegree outgoing)
  case (Cons edge edges)
  have keys: "{v. hm_get (hm_modify (dep_to edge) Suc indegree) v \<noteq> None} = set (job_ids spec)"
    using Cons.prems(3) by (simp only: hm_dom_modify)
  from collect_edges_Cons_InlD [OF Cons.prems(1)]
  consider (cyc) "e = Cycle" "dep_from edge = dep_to edge"
    | (unknown) v where "v \<in> {dep_from edge, dep_to edge}" "e = UnknownJob v" "hm_get indegree v = None"
    | (later) "collect_edges (hm_modify (dep_to edge) Suc indegree)
        (hm_entry_push (dep_from edge) (dep_to edge) outgoing) edges = Inl e"
    by blast
  then show ?case
  proof cases
    case cyc
    from Cons.prems(2) have "(dep_from edge, dep_to edge) \<in> edge_rel spec"
      by (simp add: edge_rel_def)
    with cyc have "(dep_to edge, dep_to edge) \<in> (edge_rel spec)\<^sup>+" by auto
    with cyc(1) show ?thesis by (auto simp: acyclic_def)
  next
    case unknown
    then have "v \<notin> set (job_ids spec)" using Cons.prems(3) by blast
    with unknown(1,2) Cons.prems(2) show ?thesis by auto
  next
    case later
    moreover have "set edges \<subseteq> set (ds_dependencies spec)" using Cons.prems(2) by simp
    ultimately show ?thesis using keys by (rule Cons.IH)
  qed
qed simp

lemma validate_Inl_cases:
  assumes "validate spec = Some (Inl e)"
  obtains (ident) "validate_identifier (ds_id spec) MAX_DAG_ID_BYTES = Inl e"
    | (jobs) "e = InvalidJobCount" "ds_jobs spec = [] \<or> 1000 < length (ds_jobs spec)"
    | (deps) "e = InvalidDependencyCount" "10000 < length (ds_dependencies spec)"
    | (collect) "collect_jobs hm_new (ds_jobs spec) = Inl e"
    | (edges) ind0 where "collect_jobs hm_new (ds_jobs spec) = Inr ind0"
        "collect_edges ind0 hm_new (ds_dependencies spec) = Inl e"
    | (kahn) "e = Cycle" "dag_well_formed spec"
proof -
  consider (i) "validate_identifier (ds_id spec) MAX_DAG_ID_BYTES = Inl e"
    | (j) "e = InvalidJobCount" "ds_jobs spec = [] \<or> 1000 < length (ds_jobs spec)"
    | (d) "e = InvalidDependencyCount" "10000 < length (ds_dependencies spec)"
    | (c) "collect_jobs hm_new (ds_jobs spec) = Inl e"
    | (r) ind0 where "collect_jobs hm_new (ds_jobs spec) = Inr ind0"
        "validate_identifier (ds_id spec) MAX_DAG_ID_BYTES = Inr ()"
        "ds_jobs spec \<noteq> []" "length (ds_jobs spec) \<le> MAX_JOBS_PER_DAG"
        "length (ds_dependencies spec) \<le> MAX_DEPENDENCIES_PER_DAG"
    using assms
    by (cases "validate_identifier (ds_id spec) MAX_DAG_ID_BYTES";
        cases "collect_jobs hm_new (ds_jobs spec)")
      (auto simp: validate_def policy_defs not_less split: if_split_asm)
  then show thesis
  proof cases
    case r
    then have wf: "list_all (edge_known (set (job_ids spec))) (ds_dependencies spec) \<Longrightarrow>
        dag_well_formed spec"
      by (simp add: dag_well_formed_def collect_jobs_Inr_iff Suc_le_eq)
    show thesis
    proof (cases "collect_edges ind0 hm_new (ds_dependencies spec)")
      case (Inl e')
      with assms r have "e' = e" by (simp add: validate_def not_less [symmetric])
      with Inl r(1) edges show thesis by blast
    next
      case (Inr p)
      then have "list_all (edge_known (set (job_ids spec))) (ds_dependencies spec)"
        by (cases p) (simp only: collect_edges_Inr_iff collected_jobs(3) [OF r(1)])
      moreover from assms r Inr have "e = Cycle"
        by (cases p) (auto simp: validate_def split: option.splits if_splits)
      ultimately show thesis using wf kahn by blast
    qed
  qed (use that in blast)+
qed

lemma kahn_inv_queue_cong:
  assumes "kahn_inv V E (initial_queue ind) ind []" "kahn_inv V E' (initial_queue ind') ind' []"
    and "mset E = mset E'"
  shows "initial_queue ind = initial_queue ind'"
proof (rule sorted_distinct_set_unique)
  have "set (initial_queue ind) = {v \<in> V. pending_degree E {} v = 0}"
    using assms(1) by (auto simp: kahn_inv_def)
  moreover have "set (initial_queue ind') = {v \<in> V. pending_degree E' {} v = 0}"
    using assms(2) by (auto simp: kahn_inv_def)
  ultimately show "set (initial_queue ind) = set (initial_queue ind')"
    using pending_degree_cong [OF assms(3)] by simp
qed (use assms in \<open>auto simp: kahn_inv_def initial_queue_def\<close>)

lemma validate_permuted:
  assumes v: "validate spec = Some (Inr order)"
    and same: "ds_id spec' = ds_id spec" "mset (ds_jobs spec') = mset (ds_jobs spec)"
      "mset (ds_dependencies spec') = mset (ds_dependencies spec)"
  shows "validate spec' = Some (Inr order)"
proof -
  have len: "length (ds_jobs spec') = length (ds_jobs spec)"
      "length (ds_dependencies spec') = length (ds_dependencies spec)"
    using same by (auto dest: mset_eq_length)
  have sets: "set (ds_jobs spec') = set (ds_jobs spec)"
      "set (ds_dependencies spec') = set (ds_dependencies spec)"
    using same by (auto dest: mset_eq_setD)
  have ids: "mset (job_ids spec') = mset (job_ids spec)" using same by simp
  then have dist: "distinct (job_ids spec') = distinct (job_ids spec)"
    by (rule mset_eq_imp_distinct_iff)
  note wf = validate_Inr_well_formed [OF v]
  have wf': "dag_well_formed spec'"
    using wf same(1) len dist by (simp add: dag_well_formed_def list_all_iff sets)
  have free: "\<forall>e\<in>set (ds_dependencies spec). dep_from e \<noteq> dep_to e"
    using validate_Inr_no_self_loop [OF v] by blast
  then have free': "\<forall>e\<in>set (ds_dependencies spec'). dep_from e \<noteq> dep_to e" by (simp add: sets)
  have ids_set: "set (job_ids spec') = set (job_ids spec)" by (simp add: sets)
  obtain ind out ord where
    r: "kahn_graph (set (job_ids spec)) (ds_dependencies spec) out"
      "kahn_inv (set (job_ids spec)) (ds_dependencies spec) (initial_queue ind) ind []"
      "kahn_loop out (initial_queue ind) ind [] = Some ord"
      "validate spec = Some (if length ord \<noteq> length (ds_jobs spec) then Inl Cycle else Inr ord)"
    by (rule validate_runs_kahn [OF wf free]) blast
  obtain ind' out' ord' where
    r': "kahn_graph (set (job_ids spec)) (ds_dependencies spec') out'"
      "kahn_inv (set (job_ids spec)) (ds_dependencies spec') (initial_queue ind') ind' []"
      "kahn_loop out' (initial_queue ind') ind' [] = Some ord'"
      "validate spec' = Some (if length ord' \<noteq> length (ds_jobs spec') then Inl Cycle else Inr ord')"
    using validate_runs_kahn [OF wf' free'] unfolding ids_set by metis
  note E = same(3) [symmetric]
  have "initial_queue ind = initial_queue ind'" by (rule kahn_inv_queue_cong [OF r(2) r'(2) E])
  with kahn_loop_cong [OF r(1) r'(1) E r(2)] r'(2) r(3) r'(3) have "ord' = ord" by simp
  with r(4) r'(4) v len show ?thesis by (auto split: if_splits)
qed

end
