(* ===== verification/Examples.thy ===== *)
theory Examples
  imports Domain
begin

text \<open>
  Concrete graphs on which the properties are evaluated: the release graph of
  \<open>examples/release-dag.json\<close>, a diamond, and a two-job cycle.
\<close>

definition example_job :: "byte_string \<Rightarrow> int \<Rightarrow> nat \<Rightarrow> job_spec" where
  "example_job jid priority attempts =
     \<lparr>js_id = jid, js_kind = Uppercase, js_payload = ''safe'', js_max_attempts = attempts,
      js_priority = priority\<rparr>"

definition example_edge :: "byte_string \<Rightarrow> byte_string \<Rightarrow> dependency" where
  "example_edge a b = \<lparr>dep_from = a, dep_to = b\<rparr>"

definition release_demo :: dag_spec where
  "release_demo =
     \<lparr>ds_id = ''release_demo'',
      ds_jobs =
        [\<lparr>js_id = ''prepare'', js_kind = Uppercase, js_payload = ''release candidate'',
          js_max_attempts = 3, js_priority = 10\<rparr>,
         \<lparr>js_id = ''digest'', js_kind = Checksum, js_payload = ''artifact-v1'',
          js_max_attempts = 3, js_priority = 5\<rparr>,
         \<lparr>js_id = ''cooldown'', js_kind = Delay, js_payload = ''25'',
          js_max_attempts = 2, js_priority = 0\<rparr>],
      ds_dependencies = [example_edge ''prepare'' ''digest'', example_edge ''digest'' ''cooldown'']\<rparr>"

definition diamond :: dag_spec where
  "diamond =
     \<lparr>ds_id = ''diamond'',
      ds_jobs = [example_job ''d'' 0 3, example_job ''c'' 0 3, example_job ''b'' 0 3, example_job ''a'' 0 3],
      ds_dependencies =
        [example_edge ''a'' ''c'', example_edge ''a'' ''b'', example_edge ''b'' ''d'', example_edge ''c'' ''d'']\<rparr>"

definition diamond_reordered :: dag_spec where
  "diamond_reordered =
     \<lparr>ds_id = ''diamond'',
      ds_jobs = [example_job ''a'' 0 3, example_job ''b'' 0 3, example_job ''c'' 0 3, example_job ''d'' 0 3],
      ds_dependencies =
        [example_edge ''c'' ''d'', example_edge ''b'' ''d'', example_edge ''a'' ''b'', example_edge ''a'' ''c'']\<rparr>"

definition two_cycle :: dag_spec where
  "two_cycle =
     \<lparr>ds_id = ''cycle'', ds_jobs = [example_job ''a'' 0 3, example_job ''b'' 0 3],
      ds_dependencies = [example_edge ''a'' ''b'', example_edge ''b'' ''a'']\<rparr>"

lemmas example_defs = release_demo_def diamond_def diamond_reordered_def two_cycle_def
  example_job_def example_edge_def

declare kahn_loop.simps [code]

lemma validate_release_demo:
  "validate release_demo = Some (Inr [''prepare'', ''digest'', ''cooldown''])"
  by code_simp

lemma validate_diamond: "validate diamond = Some (Inr [''a'', ''b'', ''c'', ''d''])"
  by code_simp

lemma validate_diamond_reordered:
  "validate diamond_reordered = Some (Inr [''a'', ''b'', ''c'', ''d''])"
  by code_simp

lemma validate_two_cycle: "validate two_cycle = Some (Inl Cycle)"
  by code_simp

end
