(* ===== verification/DomainProperties.thy ===== *)
theory DomainProperties
  imports Kahn Examples
begin

text \<open>The properties of graph validation, each with its evaluation on a concrete graph.\<close>

text \<open>
  C19. \<open>DagSpec::validate\<close> accepts a graph exactly when it satisfies every admission policy
  (identifiers, payloads, attempt and priority ranges, distinct job identifiers, known edge
  endpoints, the two count limits) and its dependency relation is acyclic. Both directions:
  no bad graph is admitted and no good graph is refused.
\<close>

theorem validate_accepts_iff:
  "(\<exists>order. validate spec = Some (Inr order)) \<longleftrightarrow> dag_well_formed spec \<and> acyclic (edge_rel spec)"
  using validate_Inr_well_formed validate_acyclic validate_complete by blast

text \<open>
  C20. The order an accepted graph comes back with contains every job exactly once and puts
  both ends of every dependency in the right order: it is a topological order.
\<close>

theorem validate_order_topological:
  assumes "validate spec = Some (Inr order)"
  shows "mset order = mset (job_ids spec) \<and> distinct order \<and>
    (\<forall>e\<in>set (ds_dependencies spec). precedes order (dep_from e) (dep_to e))"
proof -
  have "distinct (job_ids spec)"
    using validate_Inr_well_formed [OF assms] by (simp add: dag_well_formed_def)
  with validate_order(1,2) [OF assms] have "mset order = mset (job_ids spec)"
    by (intro distinct_set_eq_imp_mset_eq)
  then show ?thesis
    using validate_order(1) [OF assms] validate_precedes [OF assms] by blast
qed

theorem validate_order_topological_witness:
  "precedes [''a'', ''b'', ''c'', ''d''] ''a'' (''c'' :: string)"
proof -
  have "precedes [''a'', ''b'', ''c'', ''d''] (dep_from (example_edge ''a'' ''c''))
      (dep_to (example_edge ''a'' ''c''))"
    using validate_order_topological [OF validate_diamond] by (simp add: diamond_def)
  then show ?thesis by (simp add: example_edge_def)
qed

text \<open>
  C36. Validation always returns, on every input: Kahn's \<open>while let\<close> loop ends even on a
  cyclic graph, since every round outputs a job that was not output before.
\<close>

theorem validate_returns: "\<exists>r. validate spec = Some r"
  by (rule validate_total)

text \<open>
  C32. An error tells the truth about the graph: each variant, with the value it carries, names
  a defect the submitted graph really has. In particular \<open>Cycle\<close> is only reported for a
  relation with a cycle, and \<open>UnknownJob\<close> only for an endpoint that is no job.
\<close>

theorem validate_error_justified:
  assumes "validate spec = Some (Inl e)"
  shows "error_justified spec e"
proof -
  consider (ident) "validate_identifier (ds_id spec) MAX_DAG_ID_BYTES = Inl e"
    | (jobs) "e = InvalidJobCount" "ds_jobs spec = [] \<or> 1000 < length (ds_jobs spec)"
    | (deps) "e = InvalidDependencyCount" "10000 < length (ds_dependencies spec)"
    | (collect) "collect_jobs hm_new (ds_jobs spec) = Inl e"
    | (edges) ind0 where "collect_jobs hm_new (ds_jobs spec) = Inr ind0"
        "collect_edges ind0 hm_new (ds_dependencies spec) = Inl e"
    | (kahn) "e = Cycle" "dag_well_formed spec"
    using assms validate_Inl_cases by metis
  then show ?thesis
  proof cases
    case ident
    then show ?thesis by (auto simp: policy_defs dest!: validate_identifier_Inl)
  next
    case collect
    then show ?thesis by (rule collect_jobs_justified [where before = "[]"]) simp_all
  next
    case edges
    then show ?thesis using collect_edges_justified collected_jobs(3) by blast
  next
    case kahn
    with assms have "\<not> acyclic (edge_rel spec)" using validate_complete by fastforce
    with kahn(1) show ?thesis by simp
  qed auto
qed

theorem validate_error_justified_witness: "\<not> acyclic (edge_rel two_cycle)"
  using validate_error_justified [OF validate_two_cycle] by simp

text \<open>
  C35. The order is deterministic: it depends on the set of jobs and the multiset of edges
  only, not on the order in which a client lists them (nor on the iteration order of the hash
  maps, which follows the list order in the model).
\<close>

theorem validate_order_stable:
  assumes "validate spec = Some (Inr order)"
    and "ds_id spec' = ds_id spec" "mset (ds_jobs spec') = mset (ds_jobs spec)"
    and "mset (ds_dependencies spec') = mset (ds_dependencies spec)"
  shows "validate spec' = Some (Inr order)"
  using assms by (rule validate_permuted)

theorem validate_order_stable_witness:
  "validate diamond_reordered = Some (Inr [''a'', ''b'', ''c'', ''d''])"
  by (rule validate_order_stable [OF validate_diamond]) (simp_all add: example_defs)

end
