(* ===== verification/ReadyHeap.thy ===== *)
theory ReadyHeap
  imports Prelude
begin

text \<open>
  The scheduler's \<open>BinaryHeap<Reverse<ReadyKey>>\<close>. A \<open>ready_key\<close> is ordered by availability
  time, priority rank, DAG identifier and job identifier, the derived \<open>Ord\<close> of the struct. The
  order is total and equal keys are identical, so the sequence of pops of the binary heap is
  determined by the keys it holds: the model keeps them as a sorted list. The locale states
  what the scheduler relies on.
\<close>

section \<open>Keys and their order\<close>

datatype ready_key = ReadyKey
  (rk_available_at_ms: millis) (rk_priority_rank: int) (rk_dag_id: byte_string) (rk_job_id: byte_string)

instantiation ready_key :: linorder
begin

definition less_eq_ready_key :: "ready_key \<Rightarrow> ready_key \<Rightarrow> bool" where
  "less_eq_ready_key a b \<longleftrightarrow>
     rk_available_at_ms a < rk_available_at_ms b \<or>
     rk_available_at_ms a = rk_available_at_ms b \<and>
       (rk_priority_rank a < rk_priority_rank b \<or>
        rk_priority_rank a = rk_priority_rank b \<and>
          (rk_dag_id a < rk_dag_id b \<or> rk_dag_id a = rk_dag_id b \<and> rk_job_id a \<le> rk_job_id b))"

definition less_ready_key :: "ready_key \<Rightarrow> ready_key \<Rightarrow> bool" where
  "less_ready_key a b \<longleftrightarrow> a \<le> b \<and> \<not> b \<le> (a :: ready_key)"

instance
proof
  fix x y z :: ready_key
  show "x < y \<longleftrightarrow> x \<le> y \<and> \<not> y \<le> x"
    by (simp add: less_ready_key_def)
  show "x \<le> x"
    by (simp add: less_eq_ready_key_def)
  show "x \<le> y \<Longrightarrow> y \<le> z \<Longrightarrow> x \<le> z"
    by (auto simp: less_eq_ready_key_def)
  show "x \<le> y \<Longrightarrow> y \<le> x \<Longrightarrow> x = y"
    by (auto simp: less_eq_ready_key_def ready_key.expand)
  show "x \<le> y \<or> y \<le> x"
    by (auto simp: less_eq_ready_key_def)
qed

end

lemma ready_key_le_available: "a \<le> b \<Longrightarrow> rk_available_at_ms a \<le> rk_available_at_ms b"
  by (auto simp: less_eq_ready_key_def)

section \<open>Operations\<close>

type_synonym ready_heap = "ready_key list"

definition rh_new :: ready_heap where
  "rh_new = []"

definition rh_push :: "ready_key \<Rightarrow> ready_heap \<Rightarrow> ready_heap" where
  "rh_push k h = insort k h"

definition rh_peek :: "ready_heap \<Rightarrow> ready_key option" where
  "rh_peek h = (case h of [] \<Rightarrow> None | k # _ \<Rightarrow> Some k)"

definition rh_pop :: "ready_heap \<Rightarrow> (ready_key \<times> ready_heap) option" where
  "rh_pop h = (case h of [] \<Rightarrow> None | k # h' \<Rightarrow> Some (k, h'))"

definition rh_len :: "ready_heap \<Rightarrow> nat" where
  "rh_len h = length h"

definition rh_wf :: "ready_heap \<Rightarrow> bool" where
  "rh_wf h \<longleftrightarrow> sorted h"

section \<open>Laws\<close>

locale min_heap_laws =
  fixes new :: "'h"
    and push :: "'a::linorder \<Rightarrow> 'h \<Rightarrow> 'h"
    and peek :: "'h \<Rightarrow> 'a option"
    and pop :: "'h \<Rightarrow> ('a \<times> 'h) option"
    and len :: "'h \<Rightarrow> nat"
    and elems :: "'h \<Rightarrow> 'a multiset"
    and wf :: "'h \<Rightarrow> bool"
  assumes wf_new: "wf new"
    and elems_new: "elems new = {#}"
    and wf_push: "wf h \<Longrightarrow> wf (push k h)"
    and elems_push: "elems (push k h) = add_mset k (elems h)"
    and push_commute: "push a (push b h) = push b (push a h)"
    and peek_None: "peek h = None \<longleftrightarrow> elems h = {#}"
    and peek_pop: "peek h = map_option fst (pop h)"
    and wf_pop: "wf h \<Longrightarrow> pop h = Some (k, h') \<Longrightarrow> wf h'"
    and elems_pop: "pop h = Some (k, h') \<Longrightarrow> elems h = add_mset k (elems h')"
    and pop_min: "wf h \<Longrightarrow> pop h = Some (k, h') \<Longrightarrow> x \<in># elems h \<Longrightarrow> k \<le> x"
    and len_elems: "len h = size (elems h)"
begin

lemma pop_None: "pop h = None \<longleftrightarrow> elems h = {#}"
  using peek_None [of h] peek_pop [of h] by auto

lemma pop_len: "pop h = Some (k, h') \<Longrightarrow> len h = Suc (len h')"
  by (simp add: len_elems elems_pop)

lemma peek_min: "wf h \<Longrightarrow> peek h = Some k \<Longrightarrow> k \<in># elems h \<and> (\<forall>x \<in># elems h. k \<le> x)"
  using elems_pop pop_min by (fastforce simp: peek_pop)

lemma wf_push_all: "wf h \<Longrightarrow> wf (fold push ks h)"
  by (induction ks arbitrary: h) (auto simp: wf_push)

lemma elems_push_all: "elems (fold push ks h) = mset ks + elems h"
  by (induction ks arbitrary: h) (auto simp: elems_push)

lemma push_all_permuted: "mset ks = mset ks' \<Longrightarrow> fold push ks h = fold push ks' h"
  by (rule fun_cong [OF fold_multiset_equiv]) (auto simp: push_commute fun_eq_iff)

end

interpretation rh: min_heap_laws rh_new rh_push rh_peek rh_pop rh_len mset rh_wf
  by unfold_locales
    (auto simp: rh_new_def rh_push_def rh_peek_def rh_pop_def rh_len_def rh_wf_def sorted_insort
      insort_left_comm split: list.splits)

lemma set_rh_push [simp]: "set (rh_push k h) = insert k (set h)"
  by (simp add: rh_push_def set_insort_key)

lemma distinct_rh_push [simp]: "distinct (rh_push k h) \<longleftrightarrow> k \<notin> set h \<and> distinct h"
  by (simp add: rh_push_def distinct_insort)

lemma rh_len_push [simp]: "rh_len (rh_push k h) = Suc (rh_len h)"
  by (simp add: rh_push_def rh_len_def)

lemma rh_wf_push [simp]: "rh_wf h \<Longrightarrow> rh_wf (rh_push k h)"
  by (rule rh.wf_push)

lemma rh_wf_new [simp]: "rh_wf rh_new"
  by (rule rh.wf_new)

end
