(* ===== verification/Scheduler.thy ===== *)
theory Scheduler
  imports Domain ReadyHeap
begin

text \<open>
  \<open>src/scheduler.rs\<close>: the deterministic in-memory scheduler. One record per struct, one
  definition per method. A method that takes \<open>&mut self\<close> returns the new scheduler beside its
  result, on the error branches too, so that a partial update before an error is visible.
  Times are the caller's \<open>i64\<close> milliseconds.
\<close>

section \<open>State\<close>

record scheduler_config =
  max_dags :: nat
  max_ready_jobs :: nat
  max_lease_ms :: millis
  base_retry_ms :: millis
  max_retry_ms :: millis

definition default_config :: scheduler_config where
  "default_config =
     \<lparr>max_dags = 100, max_ready_jobs = 10000, max_lease_ms = 60000, base_retry_ms = 1000,
      max_retry_ms = 60000\<rparr>"

record claimed_job =
  cj_dag_id :: byte_string
  cj_job_id :: byte_string
  cj_kind :: job_kind
  cj_payload :: byte_string
  cj_attempt :: nat
  cj_lease_token :: byte_string
  cj_lease_expires_at_ms :: millis

record lease =
  ls_owner :: byte_string
  ls_token :: byte_string
  ls_expires_at_ms :: millis

record job_record =
  jr_spec :: job_spec
  jr_state :: job_state
  jr_attempts :: nat
  jr_available_at_ms :: millis
  jr_remaining_dependencies :: nat
  jr_lease :: "lease option"
  jr_result :: "byte_string option"

record dag_record =
  dr_jobs :: "(byte_string, job_record) hash_map"
  dr_dependents :: "(byte_string, byte_string list) hash_map"

record scheduler =
  sc_config :: scheduler_config
  sc_dags :: "(byte_string, dag_record) hash_map"
  sc_ready :: ready_heap
  sc_sequence :: nat

datatype scheduler_error =
    Validation validation_error
  | DagAlreadyExists
  | DagNotFound
  | JobNotFound
  | Overloaded
  | InvalidLease
  | LeaseConflict
  | ResultTooLarge

definition new_scheduler :: "scheduler_config \<Rightarrow> scheduler" where
  "new_scheduler config = \<lparr>sc_config = config, sc_dags = hm_new, sc_ready = rh_new, sc_sequence = 0\<rparr>"

section \<open>Shared helpers\<close>

text \<open>\<open>job_mut\<close>: the two lookups, read part and write part.\<close>

definition job_ref :: "scheduler \<Rightarrow> byte_string \<Rightarrow> byte_string \<Rightarrow> scheduler_error + job_record" where
  "job_ref s dag_id job_id =
     (case hm_get (sc_dags s) dag_id of
        None \<Rightarrow> Inl DagNotFound
      | Some dag \<Rightarrow> (case hm_get (dr_jobs dag) job_id of None \<Rightarrow> Inl JobNotFound | Some job \<Rightarrow> Inr job))"

definition job_write ::
  "byte_string \<Rightarrow> byte_string \<Rightarrow> (job_record \<Rightarrow> job_record) \<Rightarrow> scheduler \<Rightarrow> scheduler" where
  "job_write dag_id job_id f s =
     s\<lparr>sc_dags := hm_modify dag_id (\<lambda>dag. dag\<lparr>dr_jobs := hm_modify job_id f (dr_jobs dag)\<rparr>) (sc_dags s)\<rparr>"

definition push_ready :: "byte_string \<Rightarrow> job_spec \<Rightarrow> millis \<Rightarrow> scheduler \<Rightarrow> scheduler" where
  "push_ready dag_id job available_at_ms s =
     s\<lparr>sc_ready := rh_push (ReadyKey available_at_ms (i16_saturating_sub 100 (js_priority job))
                      dag_id (js_id job)) (sc_ready s)\<rparr>"

definition deterministic_jitter :: "byte_string \<Rightarrow> millis \<Rightarrow> millis" where
  "deterministic_jitter job_id ceiling =
     (if ceiling \<le> 0 then 0
      else
        let hash = foldl (\<lambda>value byte. value * 31 + of_char byte) (0 :: 64 word) job_id;
            jitter = uint hash mod ceiling
        in if jitter \<le> I64_MAX then jitter else 0)"

definition assert_lease ::
  "scheduler \<Rightarrow> byte_string \<Rightarrow> byte_string \<Rightarrow> byte_string \<Rightarrow> byte_string \<Rightarrow> millis
    \<Rightarrow> scheduler_error + unit" where
  "assert_lease s dag_id job_id owner token now_ms =
     (case job_ref s dag_id job_id of
        Inl e \<Rightarrow> Inl e
      | Inr job \<Rightarrow>
        (case jr_lease job of
           None \<Rightarrow> Inl LeaseConflict
         | Some lease \<Rightarrow>
           if jr_state job = Leased \<and> ls_owner lease = owner \<and> ls_token lease = token
              \<and> now_ms < ls_expires_at_ms lease
           then Inr () else Inl LeaseConflict))"

definition retry_delay :: "scheduler_config \<Rightarrow> nat \<Rightarrow> millis" where
  "retry_delay config attempts =
     (let exponent = min (attempts - 1) 16;
          base = i64_saturating_mul (base_retry_ms config) (2 ^ exponent)
      in min base (max_retry_ms config))"

definition retry_at :: "scheduler_config \<Rightarrow> byte_string \<Rightarrow> nat \<Rightarrow> millis \<Rightarrow> millis" where
  "retry_at config job_id attempts now_ms =
     (let bounded = retry_delay config attempts;
          jitter = deterministic_jitter job_id (bounded sdiv 5)
      in i64_saturating_add (i64_saturating_add now_ms bounded) jitter)"

definition retry_or_dead_letter ::
  "byte_string \<Rightarrow> byte_string \<Rightarrow> millis \<Rightarrow> scheduler \<Rightarrow> scheduler \<times> (scheduler_error + job_state)" where
  "retry_or_dead_letter dag_id job_id now_ms s =
     (case job_ref s dag_id job_id of
        Inl e \<Rightarrow> (s, Inl e)
      | Inr job \<Rightarrow>
        if js_max_attempts (jr_spec job) \<le> jr_attempts job then
          (job_write dag_id job_id (\<lambda>j. j\<lparr>jr_lease := None, jr_state := DeadLettered\<rparr>) s,
           Inr DeadLettered)
        else
          let available_at_ms = retry_at (sc_config s) job_id (jr_attempts job) now_ms;
              s' = job_write dag_id job_id
                (\<lambda>j. j\<lparr>jr_lease := None, jr_available_at_ms := available_at_ms, jr_state := RetryWait\<rparr>) s
          in (push_ready dag_id (jr_spec job) available_at_ms s', Inr RetryWait))"

section \<open>Submission\<close>

definition dependency_counts :: "dag_spec \<Rightarrow> (byte_string, nat) hash_map" where
  "dependency_counts spec =
     fold (\<lambda>edge. hm_modify (dep_to edge) Suc) (ds_dependencies spec)
       (fold (\<lambda>job. hm_insert (js_id job) 0) (ds_jobs spec) hm_new)"

definition dependents_of :: "dag_spec \<Rightarrow> (byte_string, byte_string list) hash_map" where
  "dependents_of spec =
     hm_map_values sort
       (fold (\<lambda>edge. hm_entry_push (dep_from edge) (dep_to edge)) (ds_dependencies spec) hm_new)"

text \<open>The loop \<open>for job in spec.jobs\<close>: pushes ready jobs while it fills the job map.\<close>

fun admit_jobs ::
  "byte_string \<Rightarrow> (byte_string, nat) hash_map \<Rightarrow> millis \<Rightarrow> job_spec list
    \<Rightarrow> scheduler \<Rightarrow> (byte_string, job_record) hash_map
    \<Rightarrow> scheduler \<times> (byte_string, job_record) hash_map" where
  "admit_jobs dag_id counts now_ms [] s jobs = (s, jobs)"
| "admit_jobs dag_id counts now_ms (job # rest) s jobs =
     (let remaining = (case hm_get counts (js_id job) of None \<Rightarrow> 0 | Some n \<Rightarrow> n);
          state = (if remaining = 0 then Ready else Pending);
          s' = (if state = Ready then push_ready dag_id job now_ms s else s);
          record = \<lparr>jr_spec = job, jr_state = state, jr_attempts = 0, jr_available_at_ms = now_ms,
                    jr_remaining_dependencies = remaining, jr_lease = None, jr_result = None\<rparr>
      in admit_jobs dag_id counts now_ms rest s' (hm_insert (js_id job) record jobs))"

definition submit ::
  "dag_spec \<Rightarrow> millis \<Rightarrow> scheduler \<Rightarrow> (scheduler \<times> (scheduler_error + unit)) option" where
  "submit spec now_ms s =
     (case validate spec of
        None \<Rightarrow> None
      | Some (Inl e) \<Rightarrow> Some (s, Inl (Validation e))
      | Some (Inr _) \<Rightarrow>
        if hm_contains_key (sc_dags s) (ds_id spec) then Some (s, Inl DagAlreadyExists)
        else if max_dags (sc_config s) \<le> hm_len (sc_dags s) then Some (s, Inl Overloaded)
        else
          let counts = dependency_counts spec;
              ready_count = length (filter (\<lambda>n. n = 0) (hm_values counts))
          in if max_ready_jobs (sc_config s) < usize_saturating_add (rh_len (sc_ready s)) ready_count
             then Some (s, Inl Overloaded)
             else
               (case admit_jobs (ds_id spec) counts now_ms (ds_jobs spec) s hm_new of
                  (s', jobs) \<Rightarrow>
                    Some (s'\<lparr>sc_dags := hm_insert (ds_id spec)
                              \<lparr>dr_jobs = jobs, dr_dependents = dependents_of spec\<rparr> (sc_dags s')\<rparr>, Inr ())))"

section \<open>Reaping\<close>

definition lease_expired :: "millis \<Rightarrow> job_record \<Rightarrow> bool" where
  "lease_expired now_ms job =
     (case jr_lease job of
        None \<Rightarrow> False
      | Some lease \<Rightarrow> jr_state job = Leased \<and> ls_expires_at_ms lease \<le> now_ms)"

definition expired_jobs :: "scheduler \<Rightarrow> millis \<Rightarrow> (byte_string \<times> byte_string) list" where
  "expired_jobs s now_ms =
     concat (map (\<lambda>(dag_id, dag).
       map (\<lambda>(job_id, _). (dag_id, job_id))
         (filter (\<lambda>(_, job). lease_expired now_ms job) (hm_iter (dr_jobs dag)))) (hm_iter (sc_dags s)))"

definition reap :: "millis \<Rightarrow> scheduler \<Rightarrow> scheduler \<times> nat" where
  "reap now_ms s =
     (let expired = expired_jobs s now_ms
      in (fold (\<lambda>(dag_id, job_id) s. fst (retry_or_dead_letter dag_id job_id now_ms s)) expired s,
          length expired))"

section \<open>Claiming\<close>

definition lease_token :: "byte_string \<Rightarrow> byte_string \<Rightarrow> nat \<Rightarrow> byte_string" where
  "lease_token dag_id job_id sequence =
     ''lease-'' @ dag_id @ ''-'' @ job_id @ ''-'' @ show_nat sequence"

function claim_loop ::
  "byte_string \<Rightarrow> millis \<Rightarrow> millis \<Rightarrow> scheduler \<Rightarrow> scheduler \<times> claimed_job option" where
  "claim_loop owner now_ms lease_ms s =
     (case rh_peek (sc_ready s) of
        None \<Rightarrow> (s, None)
      | Some head \<Rightarrow>
        if now_ms < rk_available_at_ms head then (s, None)
        else
          (case rh_pop (sc_ready s) of
             None \<Rightarrow> (s, None)
           | Some (key, heap) \<Rightarrow>
             let s1 = s\<lparr>sc_ready := heap\<rparr> in
             (case hm_get (sc_dags s1) (rk_dag_id key) of
                None \<Rightarrow> claim_loop owner now_ms lease_ms s1
              | Some dag \<Rightarrow>
                (case hm_get (dr_jobs dag) (rk_job_id key) of
                   None \<Rightarrow> claim_loop owner now_ms lease_ms s1
                 | Some job \<Rightarrow>
                   if \<not> (jr_state job = Ready \<or> jr_state job = RetryWait)
                      \<or> jr_available_at_ms job \<noteq> rk_available_at_ms key
                   then claim_loop owner now_ms lease_ms s1
                   else
                     let sequence = u64_saturating_add (sc_sequence s1) 1;
                         token = lease_token (rk_dag_id key) (rk_job_id key) sequence;
                         expires_at_ms = i64_saturating_add now_ms lease_ms;
                         attempt = u16_saturating_add (jr_attempts job) 1;
                         s2 = job_write (rk_dag_id key) (rk_job_id key)
                           (\<lambda>j. j\<lparr>jr_attempts := attempt, jr_state := Leased,
                             jr_lease := Some \<lparr>ls_owner = owner, ls_token = token,
                                               ls_expires_at_ms = expires_at_ms\<rparr>\<rparr>)
                           (s1\<lparr>sc_sequence := sequence\<rparr>)
                     in (s2, Some \<lparr>cj_dag_id = rk_dag_id key, cj_job_id = rk_job_id key,
                           cj_kind = js_kind (jr_spec job), cj_payload = js_payload (jr_spec job),
                           cj_attempt = attempt, cj_lease_token = token,
                           cj_lease_expires_at_ms = expires_at_ms\<rparr>)))))"
  by pat_completeness auto
termination
  by (relation "measure (\<lambda>(_, _, _, s). rh_len (sc_ready s))") (auto dest: rh.pop_len)

declare claim_loop.simps [simp del]

definition claim ::
  "byte_string \<Rightarrow> millis \<Rightarrow> millis \<Rightarrow> scheduler
    \<Rightarrow> scheduler \<times> (scheduler_error + claimed_job option)" where
  "claim owner now_ms lease_ms s =
     (if owner = [] \<or> 64 < length owner \<or> lease_ms \<le> 0 \<or> max_lease_ms (sc_config s) < lease_ms
      then (s, Inl InvalidLease)
      else
        let s1 = fst (reap now_ms s)
        in (case claim_loop owner now_ms lease_ms s1 of (s2, claimed) \<Rightarrow> (s2, Inr claimed)))"

section \<open>Heartbeat, completion, failure\<close>

definition heartbeat ::
  "byte_string \<Rightarrow> byte_string \<Rightarrow> byte_string \<Rightarrow> byte_string \<Rightarrow> millis \<Rightarrow> millis \<Rightarrow> scheduler
    \<Rightarrow> scheduler \<times> (scheduler_error + millis)" where
  "heartbeat dag_id job_id owner token now_ms lease_ms s =
     (if lease_ms \<le> 0 \<or> max_lease_ms (sc_config s) < lease_ms then (s, Inl InvalidLease)
      else
        (case job_ref s dag_id job_id of
           Inl e \<Rightarrow> (s, Inl e)
         | Inr job \<Rightarrow>
           (case jr_lease job of
              None \<Rightarrow> (s, Inl LeaseConflict)
            | Some lease \<Rightarrow>
              if jr_state job \<noteq> Leased \<or> ls_owner lease \<noteq> owner \<or> ls_token lease \<noteq> token
                 \<or> ls_expires_at_ms lease \<le> now_ms
              then (s, Inl LeaseConflict)
              else
                let expires_at_ms = i64_saturating_add now_ms lease_ms
                in (job_write dag_id job_id
                      (\<lambda>j. j\<lparr>jr_lease := Some (lease\<lparr>ls_expires_at_ms := expires_at_ms\<rparr>)\<rparr>) s,
                    Inr expires_at_ms))))"

text \<open>The loop \<open>for dependent in dependents\<close> of \<open>complete\<close>.\<close>

fun release_dependents ::
  "byte_string \<Rightarrow> millis \<Rightarrow> byte_string list \<Rightarrow> scheduler \<Rightarrow> scheduler \<times> (scheduler_error + unit)" where
  "release_dependents dag_id now_ms [] s = (s, Inr ())"
| "release_dependents dag_id now_ms (dependent # rest) s =
     (case job_ref s dag_id dependent of
        Inl e \<Rightarrow> (s, Inl e)
      | Inr job \<Rightarrow>
        let remaining = jr_remaining_dependencies job - 1 in
        if remaining = 0 \<and> jr_state job = Pending then
          let s1 = job_write dag_id dependent
                (\<lambda>j. j\<lparr>jr_remaining_dependencies := remaining, jr_state := Ready,
                       jr_available_at_ms := now_ms\<rparr>) s
          in release_dependents dag_id now_ms rest (push_ready dag_id (jr_spec job) now_ms s1)
        else
          release_dependents dag_id now_ms rest
            (job_write dag_id dependent (\<lambda>j. j\<lparr>jr_remaining_dependencies := remaining\<rparr>) s))"

definition complete ::
  "byte_string \<Rightarrow> byte_string \<Rightarrow> byte_string \<Rightarrow> byte_string \<Rightarrow> byte_string \<Rightarrow> millis \<Rightarrow> scheduler
    \<Rightarrow> scheduler \<times> (scheduler_error + unit)" where
  "complete dag_id job_id owner token result now_ms s =
     (if MAX_PAYLOAD_BYTES < length result then (s, Inl ResultTooLarge)
      else
        (case assert_lease s dag_id job_id owner token now_ms of
           Inl e \<Rightarrow> (s, Inl e)
         | Inr _ \<Rightarrow>
           (case hm_get (sc_dags s) dag_id of
              None \<Rightarrow> (s, Inl DagNotFound)
            | Some dag \<Rightarrow>
              (case hm_get (dr_jobs dag) job_id of
                 None \<Rightarrow> (s, Inl JobNotFound)
               | Some _ \<Rightarrow>
                 let s1 = job_write dag_id job_id
                       (\<lambda>j. j\<lparr>jr_state := Succeeded, jr_lease := None, jr_result := Some result\<rparr>) s
                 in release_dependents dag_id now_ms (hm_get_list (dr_dependents dag) job_id) s1))))"

definition fail ::
  "byte_string \<Rightarrow> byte_string \<Rightarrow> byte_string \<Rightarrow> byte_string \<Rightarrow> millis \<Rightarrow> scheduler
    \<Rightarrow> scheduler \<times> (scheduler_error + job_state)" where
  "fail dag_id job_id owner token now_ms s =
     (case assert_lease s dag_id job_id owner token now_ms of
        Inl e \<Rightarrow> (s, Inl e)
      | Inr _ \<Rightarrow> retry_or_dead_letter dag_id job_id now_ms s)"

section \<open>Cancellation and snapshot\<close>

definition is_terminal :: "job_state \<Rightarrow> bool" where
  "is_terminal st \<longleftrightarrow> st = Succeeded \<or> st = DeadLettered \<or> st = Cancelled"

definition cancel_job :: "job_record \<Rightarrow> job_record" where
  "cancel_job job = (if is_terminal (jr_state job) then job
     else job\<lparr>jr_state := Cancelled, jr_lease := None\<rparr>)"

definition cancel :: "byte_string \<Rightarrow> scheduler \<Rightarrow> scheduler \<times> (scheduler_error + nat)" where
  "cancel dag_id s =
     (case hm_get (sc_dags s) dag_id of
        None \<Rightarrow> (s, Inl DagNotFound)
      | Some dag \<Rightarrow>
        (s\<lparr>sc_dags := hm_insert dag_id (dag\<lparr>dr_jobs := hm_map_values cancel_job (dr_jobs dag)\<rparr>) (sc_dags s)\<rparr>,
         Inr (length (filter (\<lambda>job. \<not> is_terminal (jr_state job)) (hm_values (dr_jobs dag))))))"

definition job_snapshot_of :: "job_record \<Rightarrow> job_snapshot" where
  "job_snapshot_of job =
     \<lparr>sn_id = js_id (jr_spec job), sn_state = jr_state job, sn_attempts = jr_attempts job,
      sn_max_attempts = js_max_attempts (jr_spec job), sn_available_at_ms = jr_available_at_ms job,
      sn_lease_owner = map_option ls_owner (jr_lease job),
      sn_lease_expires_at_ms = map_option ls_expires_at_ms (jr_lease job),
      sn_result = jr_result job\<rparr>"

definition snapshot :: "scheduler \<Rightarrow> byte_string \<Rightarrow> scheduler_error + dag_snapshot" where
  "snapshot s dag_id =
     (case hm_get (sc_dags s) dag_id of
        None \<Rightarrow> Inl DagNotFound
      | Some dag \<Rightarrow>
        Inr \<lparr>dsn_id = dag_id,
             dsn_jobs = sort_key sn_id (map job_snapshot_of (hm_values (dr_jobs dag)))\<rparr>)"

end
