(* ===== verification/SchedulerState.thy ===== *)
theory SchedulerState
  imports Scheduler
begin

text \<open>
  The scheduler seen as a map from (DAG, job) to job records (\<open>job_at\<close>), and its invariant
  \<open>sched_inv\<close>. The clauses: the maps have distinct keys and every dependency names jobs of the
  DAG; per job, \<open>job_inv\<close> ties state, attempts, lease, result and the dependency counter
  together; the counter is the number of edges from parents that have not succeeded; a live
  lease carries a token issued for this very job; and the ready heap holds exactly one entry,
  with the right key, for every claimable job, besides entries of cancelled jobs
  (\<open>ready_inv\<close>). While \<open>complete\<close> walks over the dependents the counters lag behind, so the
  invariant is stated with the units still owed to each job.
\<close>

section \<open>Views\<close>

definition job_at :: "scheduler \<Rightarrow> byte_string \<Rightarrow> byte_string \<Rightarrow> job_record option" where
  "job_at s d j = (case hm_get (sc_dags s) d of None \<Rightarrow> None | Some dag \<Rightarrow> hm_get (dr_jobs dag) j)"

definition dependents_map :: "scheduler \<Rightarrow> byte_string \<Rightarrow> (byte_string, byte_string list) hash_map" where
  "dependents_map s d = (case hm_get (sc_dags s) d of None \<Rightarrow> hm_new | Some dag \<Rightarrow> dr_dependents dag)"

definition dependents_at :: "scheduler \<Rightarrow> byte_string \<Rightarrow> byte_string \<Rightarrow> byte_string list" where
  "dependents_at s d p = hm_get_list (dependents_map s d) p"

definition succeeded :: "scheduler \<Rightarrow> byte_string \<Rightarrow> byte_string \<Rightarrow> bool" where
  "succeeded s d p = (case job_at s d p of None \<Rightarrow> False | Some job \<Rightarrow> jr_state job = Succeeded)"

text \<open>The number of edges into \<open>j\<close> from parents that have not succeeded.\<close>

definition unmet_in :: "(byte_string \<Rightarrow> bool) \<Rightarrow> (byte_string \<times> byte_string list) list \<Rightarrow> byte_string \<Rightarrow> nat" where
  "unmet_in done deps j = sum_list (map (\<lambda>(p, ds). if done p then 0 else count_list ds j) deps)"

definition unmet :: "scheduler \<Rightarrow> byte_string \<Rightarrow> byte_string \<Rightarrow> nat" where
  "unmet s d j = unmet_in (succeeded s d) (hm_iter (dependents_map s d)) j"

definition claimable_state :: "job_state \<Rightarrow> bool" where
  "claimable_state st \<longleftrightarrow> st = Ready \<or> st = RetryWait"

definition ready_key_of :: "byte_string \<Rightarrow> job_record \<Rightarrow> ready_key" where
  "ready_key_of d job =
     ReadyKey (jr_available_at_ms job) (i16_saturating_sub 100 (js_priority (jr_spec job))) d
       (js_id (jr_spec job))"

section \<open>Effect of the primitive updates on the views\<close>

lemma job_ref_eq:
  "job_ref s d j = Inr job \<longleftrightarrow> job_at s d j = Some job"
  "(\<exists>e. job_ref s d j = Inl e) \<longleftrightarrow> job_at s d j = None"
  by (auto simp: job_ref_def job_at_def split: option.splits)

lemma job_ref_Some [simp]: "job_at s d j = Some job \<Longrightarrow> job_ref s d j = Inr job"
  by (simp add: job_ref_eq)

lemma job_at_job_write [simp]:
  "job_at (job_write d j f s) d' j' =
     (if d' = d \<and> j' = j then map_option f (job_at s d j) else job_at s d' j')"
  by (auto simp: job_at_def job_write_def split: option.splits)

lemma job_at_push_ready [simp]: "job_at (push_ready d spec t s) = job_at s"
  by (simp add: job_at_def push_ready_def fun_eq_iff)

lemma dependents_map_job_write [simp]: "dependents_map (job_write d j f s) = dependents_map s"
  by (auto simp: dependents_map_def job_write_def fun_eq_iff split: option.splits)

lemma dependents_map_push_ready [simp]: "dependents_map (push_ready d spec t s) = dependents_map s"
  by (simp add: dependents_map_def push_ready_def fun_eq_iff)

lemma fields_job_write [simp]:
  "sc_config (job_write d j f s) = sc_config s"
  "sc_ready (job_write d j f s) = sc_ready s"
  "sc_sequence (job_write d j f s) = sc_sequence s"
  by (simp_all add: job_write_def)

lemma fields_push_ready [simp]:
  "sc_config (push_ready d spec t s) = sc_config s"
  "sc_dags (push_ready d spec t s) = sc_dags s"
  "sc_sequence (push_ready d spec t s) = sc_sequence s"
  "sc_ready (push_ready d spec t s) =
     rh_push (ReadyKey t (i16_saturating_sub 100 (js_priority spec)) d (js_id spec)) (sc_ready s)"
  by (simp_all add: push_ready_def)

lemma views_ready_update [simp]:
  "job_at (s\<lparr>sc_ready := h\<rparr>) = job_at s" "job_at (s\<lparr>sc_sequence := n\<rparr>) = job_at s"
  "dependents_map (s\<lparr>sc_ready := h\<rparr>) = dependents_map s"
  "dependents_map (s\<lparr>sc_sequence := n\<rparr>) = dependents_map s"
  by (simp_all add: job_at_def dependents_map_def fun_eq_iff)

lemma succeeded_ready_update [simp]: "succeeded (s\<lparr>sc_ready := h\<rparr>) = succeeded s"
  by (simp add: succeeded_def fun_eq_iff)

lemma unmet_ready_update [simp]: "unmet (s\<lparr>sc_ready := h\<rparr>) = unmet s"
  by (simp add: unmet_def fun_eq_iff)

lemma job_write_fields_update:
  "job_write d j f (s\<lparr>sc_ready := h\<rparr>) = (job_write d j f s)\<lparr>sc_ready := h\<rparr>"
  "job_write d j f (s\<lparr>sc_ready := h, sc_sequence := n\<rparr>) =
     (job_write d j f s)\<lparr>sc_ready := h, sc_sequence := n\<rparr>"
  by (simp_all add: job_write_def)

lemma job_write_ready_self [simp]: "(job_write d j f s)\<lparr>sc_ready := sc_ready s\<rparr> = job_write d j f s"
  by (simp add: job_write_def)

section \<open>The invariant\<close>

definition job_inv :: "job_record \<Rightarrow> bool" where
  "job_inv job \<longleftrightarrow>
     (let st = jr_state job; m = js_max_attempts (jr_spec job); a = jr_attempts job in
     (st = Leased \<longleftrightarrow> jr_lease job \<noteq> None) \<and>
     (st = Succeeded \<longleftrightarrow> jr_result job \<noteq> None) \<and>
     1 \<le> m \<and> m \<le> 20 \<and> a \<le> m \<and>
     (st = Pending \<or> st = Ready \<longrightarrow> a = 0) \<and>
     (st = RetryWait \<longrightarrow> 1 \<le> a \<and> a < m) \<and>
     (st = Leased \<or> st = Succeeded \<longrightarrow> 1 \<le> a) \<and>
     (st = DeadLettered \<longrightarrow> a = m) \<and>
     (st = Pending \<longrightarrow> 0 < jr_remaining_dependencies job) \<and>
     (st \<noteq> Pending \<and> st \<noteq> Cancelled \<longrightarrow> jr_remaining_dependencies job = 0) \<and>
     - 100 \<le> js_priority (jr_spec job) \<and> js_priority (jr_spec job) \<le> 100)"

definition lease_inv :: "nat \<Rightarrow> byte_string \<Rightarrow> byte_string \<Rightarrow> job_record \<Rightarrow> bool" where
  "lease_inv sequence d j job \<longleftrightarrow>
     (\<forall>l. jr_lease job = Some l \<longrightarrow> (\<exists>n. 1 \<le> n \<and> n \<le> sequence \<and> ls_token l = lease_token d j n))"

definition ready_inv :: "(byte_string \<Rightarrow> byte_string \<Rightarrow> job_record option) \<Rightarrow> ready_heap \<Rightarrow> bool" where
  "ready_inv J h \<longleftrightarrow>
     rh_wf h \<and> distinct h \<and>
     (\<forall>k\<in>set h. \<exists>job. J (rk_dag_id k) (rk_job_id k) = Some job \<and> k = ready_key_of (rk_dag_id k) job \<and>
        (claimable_state (jr_state job) \<or> jr_state job = Cancelled)) \<and>
     (\<forall>d j job. J d j = Some job \<longrightarrow> claimable_state (jr_state job) \<longrightarrow> ready_key_of d job \<in> set h)"

definition dependency_graph :: "(byte_string, byte_string list) hash_map \<Rightarrow> (byte_string \<times> byte_string) set" where
  "dependency_graph deps = {(p, c). c \<in> set (hm_get_list deps p)}"

definition dag_inv :: "dag_record \<Rightarrow> bool" where
  "dag_inv dag \<longleftrightarrow>
     hm_wf (dr_jobs dag) \<and> hm_wf (dr_dependents dag) \<and>
     (\<forall>(p, c)\<in>dependency_graph (dr_dependents dag).
        hm_get (dr_jobs dag) p \<noteq> None \<and> hm_get (dr_jobs dag) c \<noteq> None) \<and>
     acyclic (dependency_graph (dr_dependents dag))"

definition struct_inv :: "scheduler \<Rightarrow> bool" where
  "struct_inv s \<longleftrightarrow>
     hm_wf (sc_dags s) \<and> hm_len (sc_dags s) \<le> max_dags (sc_config s) \<and> sc_sequence s \<le> U64_MAX \<and>
     (\<forall>d dag. hm_get (sc_dags s) d = Some dag \<longrightarrow> dag_inv dag) \<and>
     (\<forall>d j job. job_at s d j = Some job \<longrightarrow> js_id (jr_spec job) = j)"

definition sched_inv_owing :: "(byte_string \<Rightarrow> byte_string \<Rightarrow> nat) \<Rightarrow> scheduler \<Rightarrow> bool" where
  "sched_inv_owing owed s \<longleftrightarrow>
     struct_inv s \<and>
     (\<forall>d j job. job_at s d j = Some job \<longrightarrow>
        job_inv job \<and> lease_inv (sc_sequence s) d j job \<and>
        jr_remaining_dependencies job = unmet s d j + owed d j) \<and>
     ready_inv (job_at s) (sc_ready s)"

definition sched_inv :: "scheduler \<Rightarrow> bool" where
  "sched_inv s \<longleftrightarrow> sched_inv_owing (\<lambda>_ _. 0) s"

lemma sched_inv_job:
  assumes "sched_inv s" "job_at s d j = Some job"
  shows "job_inv job" "lease_inv (sc_sequence s) d j job"
    "jr_remaining_dependencies job = unmet s d j" "js_id (jr_spec job) = j"
  using assms by (auto simp: sched_inv_def sched_inv_owing_def struct_inv_def)

lemma sched_inv_ready: "sched_inv s \<Longrightarrow> ready_inv (job_at s) (sc_ready s)"
  by (simp add: sched_inv_def sched_inv_owing_def)

lemma sched_inv_struct: "sched_inv s \<Longrightarrow> struct_inv s"
  by (simp add: sched_inv_def sched_inv_owing_def)

section \<open>Dependency counting\<close>

lemma unmet_cong:
  "(\<And>p. succeeded s' d p = succeeded s d p) \<Longrightarrow> dependents_map s' d = dependents_map s d \<Longrightarrow>
     unmet s' d j = unmet s d j"
proof -
  assume "\<And>p. succeeded s' d p = succeeded s d p" "dependents_map s' d = dependents_map s d"
  moreover from this(1) have "succeeded s' d = succeeded s d" by (rule ext)
  ultimately show ?thesis by (simp add: unmet_def)
qed

lemma unmet_in_cong: "(\<And>p. done p = done' p) \<Longrightarrow> unmet_in done deps j = unmet_in done' deps j"
  by (simp add: unmet_in_def)

lemma unmet_in_mark:
  assumes "distinct (map fst deps)" "\<not> done p"
  shows "unmet_in done deps j = unmet_in (done(p := True)) deps j + count_list (hm_get_list deps p) j"
  using assms(1)
proof (induction deps)
  case Nil
  then show ?case by (simp add: unmet_in_def hm_get_list_def hm_get_def)
next
  case (Cons q deps)
  obtain a ds where q: "q = (a, ds)" by fastforce
  have rest: "unmet_in (done(p := True)) deps j = unmet_in done deps j" if "p \<notin> fst ` set deps"
    using that by (force simp: unmet_in_def intro!: arg_cong [where f = sum_list] map_cong)
  show ?case
  proof (cases "a = p")
    case True
    with Cons.prems q have "p \<notin> fst ` set deps" by simp
    with rest assms(2) True q show ?thesis
      by (simp add: unmet_in_def hm_get_list_def hm_get_def)
  next
    case False
    with Cons q show ?thesis by (simp add: unmet_in_def hm_get_list_def hm_get_def)
  qed
qed

lemma unmet_in_0_iff:
  "unmet_in done deps j = 0 \<longleftrightarrow> (\<forall>(p, ds)\<in>set deps. j \<in> set ds \<longrightarrow> done p)"
  by (auto simp: unmet_in_def count_list_0_iff split: if_splits)

text \<open>A counter of zero means that every parent has succeeded.\<close>

lemma hm_get_list_mem: "hm_wf m \<Longrightarrow> x \<in> set (hm_get_list m p) \<longleftrightarrow> (\<exists>xs. (p, xs) \<in> set m \<and> x \<in> set xs)"
  by (cases "hm_get m p") (auto simp: hm_get_list_def hm_in_iff_get)

lemma unmet_0_iff:
  assumes "hm_wf (dependents_map s d)"
  shows "unmet s d j = 0 \<longleftrightarrow> (\<forall>p. j \<in> set (dependents_at s d p) \<longrightarrow> succeeded s d p)"
  using assms by (force simp: unmet_def unmet_in_0_iff dependents_at_def hm_get_list_mem hm_iter_def)

lemma struct_inv_dependents_wf: "struct_inv s \<Longrightarrow> hm_wf (dependents_map s d)"
  by (auto simp: struct_inv_def dependents_map_def dag_inv_def split: option.split)

section \<open>The ready heap\<close>

lemma ready_key_of_sel [simp]:
  "rk_available_at_ms (ready_key_of d job) = jr_available_at_ms job"
  "rk_dag_id (ready_key_of d job) = d"
  "rk_job_id (ready_key_of d job) = js_id (jr_spec job)"
  by (simp_all add: ready_key_of_def)

definition ids_ok :: "(byte_string \<Rightarrow> byte_string \<Rightarrow> job_record option) \<Rightarrow> bool" where
  "ids_ok J \<longleftrightarrow> (\<forall>d j job. J d j = Some job \<longrightarrow> js_id (jr_spec job) = j)"

lemma struct_inv_ids: "struct_inv s \<Longrightarrow> ids_ok (job_at s)"
  by (simp add: struct_inv_def ids_ok_def)

lemma ready_invD:
  assumes "ready_inv J h" "k \<in> set h"
  obtains job where "J (rk_dag_id k) (rk_job_id k) = Some job" "k = ready_key_of (rk_dag_id k) job"
    "claimable_state (jr_state job) \<or> jr_state job = Cancelled"
  using assms by (auto simp: ready_inv_def)

lemma ready_inv_claimable:
  "ready_inv J h \<Longrightarrow> J d j = Some job \<Longrightarrow> claimable_state (jr_state job) \<Longrightarrow> ready_key_of d job \<in> set h"
  by (auto simp: ready_inv_def)

text \<open>An update that touches neither the key nor the state of the job.\<close>

lemma ready_inv_same_key:
  assumes "ready_inv J h" "J d j = Some job" "ready_key_of d job' = ready_key_of d job"
    "jr_state job' = jr_state job"
    "\<And>d' j'. J' d' j' = (if d' = d \<and> j' = j then Some job' else J d' j')"
  shows "ready_inv J' h"
  using assms unfolding ready_inv_def by (auto split: if_splits)

text \<open>A job that has no entry before and needs none after.\<close>

lemma ready_inv_unqueued:
  assumes "ready_inv J h" "J d j = Some job" "ids_ok J"
    "\<not> claimable_state (jr_state job)" "jr_state job \<noteq> Cancelled" "\<not> claimable_state (jr_state job')"
    "\<And>d' j'. J' d' j' = (if d' = d \<and> j' = j then Some job' else J d' j')"
  shows "ready_inv J' h"
proof -
  have "rk_dag_id k \<noteq> d \<or> rk_job_id k \<noteq> j" if "k \<in> set h" for k
    using ready_invD [OF assms(1) that] assms(2,4,5) by fastforce
  with assms(1,6,7) show ?thesis unfolding ready_inv_def by (auto split: if_splits)
qed

text \<open>A job that becomes claimable is pushed.\<close>

lemma ready_inv_push:
  assumes "ready_inv J h" "J d j = Some job" "ids_ok J"
    "\<not> claimable_state (jr_state job)" "jr_state job \<noteq> Cancelled" "claimable_state (jr_state job')"
    "js_id (jr_spec job') = j"
    "\<And>d' j'. J' d' j' = (if d' = d \<and> j' = j then Some job' else J d' j')"
  shows "ready_inv J' (rh_push (ready_key_of d job') h)"
proof -
  have other: "rk_dag_id k \<noteq> d \<or> rk_job_id k \<noteq> j" if "k \<in> set h" for k
    using ready_invD [OF assms(1) that] assms(2,4,5) by fastforce
  then have "ready_key_of d job' \<notin> set h" using assms(7) by fastforce
  with other assms(1,6,7,8) show ?thesis unfolding ready_inv_def by (auto split: if_splits)
qed

text \<open>Taking the minimum away, when its job is leased or was cancelled.\<close>

lemma ready_inv_pop_lease:
  assumes "ready_inv J h" "rh_pop h = Some (k, h')" "ids_ok J" "J d j = Some job"
    "rk_dag_id k = d" "rk_job_id k = j" "\<not> claimable_state (jr_state job')" 
    "\<And>d' j'. J' d' j' = (if d' = d \<and> j' = j then Some job' else J d' j')"
  shows "ready_inv J' h'"
proof -
  from assms(2) have h: "h = k # h'" by (auto simp: rh_pop_def split: list.splits)
  have k: "k = ready_key_of d job" using assms(1,4,5,6) unfolding h by (auto simp: ready_inv_def)
  have other: "rk_dag_id k' \<noteq> d \<or> rk_job_id k' \<noteq> j" if "k' \<in> set h'" for k'
  proof (rule ccontr)
    assume "\<not> ?thesis"
    with that assms(1,4) have "k' = ready_key_of d job" unfolding h by (auto simp: ready_inv_def)
    with k that assms(1) show False unfolding h by (auto simp: ready_inv_def)
  qed
  have "ready_key_of d' job'' \<in> set h'"
    if "J d' j' = Some job''" "claimable_state (jr_state job'')" "d' \<noteq> d \<or> j' \<noteq> j" for d' j' job''
  proof -
    from ready_inv_claimable [OF assms(1) that(1,2)] have "ready_key_of d' job'' \<in> set (k # h')"
      by (simp add: h)
    moreover have "ready_key_of d' job'' \<noteq> k"
      using that(1,3) assms(3,5,6) k by (metis ids_ok_def ready_key_of_sel(2,3))
    ultimately show ?thesis by simp
  qed
  with other assms(1,7,8) show ?thesis
    unfolding ready_inv_def h rh_wf_def by (auto split: if_splits)
qed

lemma ready_inv_pop_stale:
  assumes "ready_inv J h" "rh_pop h = Some (k, h')" "ids_ok J"
    "J (rk_dag_id k) (rk_job_id k) = Some job" "\<not> claimable_state (jr_state job)"
  shows "ready_inv J h'"
  by (rule ready_inv_pop_lease [OF assms(1-4) refl refl assms(5)]) (use assms(4) in auto)

end
