(* ===== verification/SchedulerInv.thy ===== *)
theory SchedulerInv
  imports SchedulerState Kahn
begin

text \<open>
  Every operation of the scheduler preserves \<open>sched_inv\<close>. One lemma for an update of a single
  job (\<open>sched_inv_update\<close>) carries them: an operation is a sequence of such updates, each with
  its effect on the ready heap.
\<close>

section \<open>Updating one job\<close>

lemma struct_inv_job_write:
  assumes "struct_inv s" "\<And>job. js_id (jr_spec (f job)) = js_id (jr_spec job)"
    "sc_sequence s \<le> n" "n \<le> U64_MAX"
  shows "struct_inv ((job_write d j f s)\<lparr>sc_ready := h, sc_sequence := n\<rparr>)"
proof -
  let ?g = "\<lambda>dag. dag\<lparr>dr_jobs := hm_modify j f (dr_jobs dag)\<rparr>"
  have dag: "dag_inv (?g dag)" if "dag_inv dag" for dag
    using that by (auto simp: dag_inv_def)
  have *: "hm_wf (sc_dags s)" "hm_len (sc_dags s) \<le> max_dags (sc_config s)"
    "\<And>d dag. hm_get (sc_dags s) d = Some dag \<Longrightarrow> dag_inv dag"
    "\<And>d j job. job_at s d j = Some job \<Longrightarrow> js_id (jr_spec job) = j"
    using assms(1) by (auto simp: struct_inv_def)
  have "js_id (jr_spec job') = j'" if "job_at (job_write d j f s) d' j' = Some job'" for d' j' job'
    using that *(4) assms(2) by (auto split: if_splits)
  moreover have "dag_inv dag'" if "hm_get (sc_dags (job_write d j f s)) d' = Some dag'" for d' dag'
    using that *(3) dag by (auto simp: job_write_def split: if_splits)
  ultimately show ?thesis
    using *(1,2) assms(3,4) by (auto simp: struct_inv_def job_write_def)
qed

lemma succeeded_update:
  assumes "\<And>d' j'. job_at s' d' j' = (if d' = d \<and> j' = j then Some job' else job_at s d' j')"
    "job_at s d j = Some job" "jr_state job' = Succeeded \<longleftrightarrow> jr_state job = Succeeded"
  shows "succeeded s' d' p = succeeded s d' p"
  using assms by (auto simp: succeeded_def)

lemma sched_inv_update:
  assumes inv: "sched_inv_owing owed s" and job: "job_at s d j = Some job"
    and spec: "\<And>job. jr_spec (f job) = jr_spec job"
    and succ: "jr_state (f job) = Succeeded \<longleftrightarrow> jr_state job = Succeeded"
    and jinv: "job_inv (f job)" and linv: "lease_inv n d j (f job)"
    and seq: "sc_sequence s \<le> n" "n \<le> U64_MAX"
    and rem: "jr_remaining_dependencies (f job) = unmet s d j + owed' d j"
    and owed: "\<And>d' j'. (d', j') \<noteq> (d, j) \<Longrightarrow> owed' d' j' = owed d' j'"
    and ready: "ready_inv (job_at (job_write d j f s)) h"
  shows "sched_inv_owing owed' ((job_write d j f s)\<lparr>sc_ready := h, sc_sequence := n\<rparr>)"
proof -
  let ?s' = "(job_write d j f s)\<lparr>sc_ready := h, sc_sequence := n\<rparr>"
  have at: "job_at ?s' d' j' = (if d' = d \<and> j' = j then Some (f job) else job_at s d' j')" for d' j'
    using job by simp
  have "unmet ?s' d' j' = unmet s d' j'" for d' j'
    by (rule unmet_cong) (simp_all add: succeeded_update [OF at job succ])
  moreover have "lease_inv n d' j' job'" if "lease_inv (sc_sequence s) d' j' job'" for d' j' job'
    using that seq(1) unfolding lease_inv_def by (meson order_trans)
  moreover have "struct_inv ?s'"
    using inv seq spec by (intro struct_inv_job_write) (auto simp: sched_inv_owing_def)
  ultimately show ?thesis
    using inv jinv linv rem owed ready job
    unfolding sched_inv_owing_def by (auto simp: at split: if_splits)
qed

lemma sched_inv_update_simple:
  assumes "sched_inv s" "job_at s d j = Some job"
    and "\<And>job. jr_spec (f job) = jr_spec job"
    and "jr_state (f job) = Succeeded \<longleftrightarrow> jr_state job = Succeeded"
    and "job_inv (f job)" "lease_inv n d j (f job)" "sc_sequence s \<le> n" "n \<le> U64_MAX"
    and "jr_remaining_dependencies (f job) = jr_remaining_dependencies job"
    and "ready_inv (job_at (job_write d j f s)) h"
  shows "sched_inv ((job_write d j f s)\<lparr>sc_ready := h, sc_sequence := n\<rparr>)"
  unfolding sched_inv_def
  by (rule sched_inv_update [OF _ assms(2-8) _ _ assms(10)])
    (use assms(1,9) sched_inv_job(3) [OF assms(1,2)] in \<open>auto simp: sched_inv_def\<close>)

lemma sched_inv_update_ready:
  assumes "sched_inv s" "job_at s d j = Some job"
    and "\<And>job. jr_spec (f job) = jr_spec job"
    and "jr_state (f job) = Succeeded \<longleftrightarrow> jr_state job = Succeeded"
    and "job_inv (f job)" "lease_inv (sc_sequence s) d j (f job)"
    and "jr_remaining_dependencies (f job) = jr_remaining_dependencies job"
    and "ready_inv (job_at (job_write d j f s)) h"
  shows "sched_inv ((job_write d j f s)\<lparr>sc_ready := h\<rparr>)"
proof -
  have "sc_sequence s \<le> U64_MAX"
    using assms(1) by (simp add: sched_inv_def sched_inv_owing_def struct_inv_def)
  from sched_inv_update_simple [OF assms(1-6) order_refl this assms(7,8)]
  show ?thesis by (simp add: job_write_def)
qed

lemma sched_inv_seq: "sched_inv s \<Longrightarrow> sc_sequence s \<le> U64_MAX"
  by (simp add: sched_inv_def sched_inv_owing_def struct_inv_def)

lemma lease_inv_None [simp]: "jr_lease job = None \<Longrightarrow> lease_inv n d j job"
  by (simp add: lease_inv_def)

section \<open>Retry, dead-letter, reap\<close>

text \<open>The job record after a failure or an expiry.\<close>

definition requeued :: "scheduler_config \<Rightarrow> byte_string \<Rightarrow> millis \<Rightarrow> job_record \<Rightarrow> job_record" where
  "requeued config job_id now_ms job =
     (if js_max_attempts (jr_spec job) \<le> jr_attempts job
      then job\<lparr>jr_lease := None, jr_state := DeadLettered\<rparr>
      else job\<lparr>jr_lease := None,
               jr_available_at_ms := retry_at config job_id (jr_attempts job) now_ms,
               jr_state := RetryWait\<rparr>)"

lemma jr_spec_requeued [simp]: "jr_spec (requeued c j t job) = jr_spec job"
  by (simp add: requeued_def)

lemma jr_remaining_requeued [simp]:
  "jr_remaining_dependencies (requeued c j t job) = jr_remaining_dependencies job"
  by (simp add: requeued_def)

lemma jr_attempts_requeued [simp]: "jr_attempts (requeued c j t job) = jr_attempts job"
  by (simp add: requeued_def)

lemma jr_lease_requeued [simp]: "jr_lease (requeued c j t job) = None"
  by (simp add: requeued_def)

lemma jr_result_requeued [simp]: "jr_result (requeued c j t job) = jr_result job"
  by (simp add: requeued_def)

definition requeued_heap :: "scheduler_config \<Rightarrow> byte_string \<Rightarrow> byte_string \<Rightarrow> millis \<Rightarrow> job_record \<Rightarrow> ready_heap \<Rightarrow> ready_heap" where
  "requeued_heap config dag_id job_id now_ms job h =
     (if js_max_attempts (jr_spec job) \<le> jr_attempts job then h
      else rh_push (ready_key_of dag_id (requeued config job_id now_ms job)) h)"

lemma job_write_cong:
  "job_at s d j = Some job \<Longrightarrow> f job = g job \<Longrightarrow> job_write d j f s = job_write d j g s"
  by (auto simp: job_write_def job_at_def hm_modify_def split: option.splits
      intro!: arg_cong [where f = "\<lambda>x. s\<lparr>sc_dags := x\<rparr>"])

lemma retry_or_dead_letter_eq:
  assumes "job_at s d j = Some job"
  shows "retry_or_dead_letter d j now s =
     ((job_write d j (requeued (sc_config s) j now) s)
        \<lparr>sc_ready := requeued_heap (sc_config s) d j now job (sc_ready s)\<rparr>,
      Inr (jr_state (requeued (sc_config s) j now job)))"
proof (cases "js_max_attempts (jr_spec job) \<le> jr_attempts job")
  case True
  then show ?thesis
    using assms job_write_cong [OF assms, of "requeued (sc_config s) j now"
        "\<lambda>j. j\<lparr>jr_lease := None, jr_state := DeadLettered\<rparr>"]
    by (simp add: retry_or_dead_letter_def requeued_def requeued_heap_def job_write_def)
next
  case False
  then show ?thesis
    using assms job_write_cong [OF assms, of "requeued (sc_config s) j now"
        "\<lambda>r. r\<lparr>jr_lease := None, jr_available_at_ms := retry_at (sc_config s) j (jr_attempts job) now,
             jr_state := RetryWait\<rparr>"]
    by (simp add: retry_or_dead_letter_def requeued_def requeued_heap_def Let_def push_ready_def
        ready_key_of_def job_write_def)
qed

lemma job_inv_requeued: "job_inv job \<Longrightarrow> jr_state job = Leased \<Longrightarrow> job_inv (requeued c j t job)"
  by (auto simp: job_inv_def requeued_def Let_def)

lemma ready_inv_requeued:
  assumes "ready_inv (job_at s) h" "job_at s d j = Some job" "ids_ok (job_at s)" "jr_state job = Leased"
  shows "ready_inv (job_at (job_write d j (requeued c j t) s)) (requeued_heap c d j t job h)"
proof (cases "js_max_attempts (jr_spec job) \<le> jr_attempts job")
  case True
  then show ?thesis
    using assms ready_inv_unqueued [OF assms(1-3), of "requeued c j t job"]
    by (simp add: requeued_heap_def requeued_def claimable_state_def)
next
  case False
  with assms show ?thesis
    using ready_inv_push [OF assms(1-3), of "requeued c j t job"]
    by (simp add: requeued_heap_def requeued_def claimable_state_def ids_ok_def)
qed

lemma sched_inv_ids: "sched_inv s \<Longrightarrow> ids_ok (job_at s)"
  using sched_inv_struct struct_inv_ids by blast

lemma sched_inv_retry:
  assumes inv: "sched_inv s" and job: "job_at s d j = Some job" "jr_state job = Leased"
  shows "sched_inv (fst (retry_or_dead_letter d j now s))"
proof -
  let ?f = "requeued (sc_config s) j now"
  have "sched_inv ((job_write d j ?f s)\<lparr>sc_ready := requeued_heap (sc_config s) d j now job (sc_ready s)\<rparr>)"
  proof (rule sched_inv_update_ready [OF inv job(1)])
    show "job_inv (?f job)" by (rule job_inv_requeued [OF sched_inv_job(1) [OF inv job(1)] job(2)])
    show "ready_inv (job_at (job_write d j ?f s)) (requeued_heap (sc_config s) d j now job (sc_ready s))"
      by (rule ready_inv_requeued [OF sched_inv_ready [OF inv] job(1) sched_inv_ids [OF inv] job(2)])
  qed (use job in \<open>auto simp: requeued_def\<close>)
  then show ?thesis by (simp add: retry_or_dead_letter_eq [OF job(1)])
qed

end
