(* ===== verification/SchedulerLease.thy ===== *)
theory SchedulerLease
  imports SchedulerInv
begin

text \<open>
  Reaping, claiming and heartbeats: what each operation does to the job map, and that each
  preserves the invariant.
\<close>

section \<open>Reaping\<close>

lemma fields_retry [simp]:
  "sc_config (fst (retry_or_dead_letter d j now s)) = sc_config s"
  "sc_sequence (fst (retry_or_dead_letter d j now s)) = sc_sequence s"
  "dependents_map (fst (retry_or_dead_letter d j now s)) = dependents_map s"
  by (auto simp: retry_or_dead_letter_def Let_def split: sum.split)

lemma job_at_retry:
  "job_at (fst (retry_or_dead_letter d j now s)) d' j' =
     (if d' = d \<and> j' = j then map_option (requeued (sc_config s) j now) (job_at s d j) else job_at s d' j')"
proof (cases "job_at s d j")
  case None
  then obtain e where "job_ref s d j = Inl e" using job_ref_eq(2) by blast
  with None show ?thesis by (simp add: retry_or_dead_letter_def)
next
  case (Some job)
  then show ?thesis by (simp add: retry_or_dead_letter_eq)
qed

abbreviation reap_one :: "millis \<Rightarrow> byte_string \<times> byte_string \<Rightarrow> scheduler \<Rightarrow> scheduler" where
  "reap_one now \<equiv> \<lambda>(d, j) s. fst (retry_or_dead_letter d j now s)"

lemma reap_fold_frame:
  "sc_config (fold (reap_one now) xs s) = sc_config s \<and>
   sc_sequence (fold (reap_one now) xs s) = sc_sequence s \<and>
   dependents_map (fold (reap_one now) xs s) = dependents_map s"
  by (induction xs arbitrary: s) auto

lemma reap_fold_job_at:
  "distinct xs \<Longrightarrow>
   job_at (fold (reap_one now) xs s) d j =
     (if (d, j) \<in> set xs then map_option (requeued (sc_config s) j now) (job_at s d j) else job_at s d j)"
proof (induction xs arbitrary: s)
  case (Cons x xs)
  then show ?case by (cases x) (auto simp: job_at_retry)
qed simp

lemma reap_fold_inv:
  assumes "sched_inv s" "distinct xs"
    "\<And>d j. (d, j) \<in> set xs \<Longrightarrow> \<exists>job. job_at s d j = Some job \<and> jr_state job = Leased"
  shows "sched_inv (fold (reap_one now) xs s)"
  using assms
proof (induction xs arbitrary: s)
  case (Cons x xs)
  obtain d j where x: "x = (d, j)" by fastforce
  obtain job where job: "job_at s d j = Some job" "jr_state job = Leased"
    using Cons.prems(3) x by auto
  let ?s1 = "fst (retry_or_dead_letter d j now s)"
  have "\<exists>job. job_at ?s1 d' j' = Some job \<and> jr_state job = Leased" if "(d', j') \<in> set xs" for d' j'
    using that Cons.prems(2,3) x by (auto simp: job_at_retry)
  with sched_inv_retry [OF Cons.prems(1) job] Cons.prems(2) show ?case
    by (simp add: x Cons.IH)
qed simp

lemma set_expired_jobs:
  assumes "struct_inv s"
  shows "(d, j) \<in> set (expired_jobs s now) \<longleftrightarrow> (\<exists>job. job_at s d j = Some job \<and> lease_expired now job)"
proof -
  have wf: "hm_wf (sc_dags s)" and wfj: "\<And>d dag. hm_get (sc_dags s) d = Some dag \<Longrightarrow> hm_wf (dr_jobs dag)"
    using assms by (auto simp: struct_inv_def dag_inv_def)
  show ?thesis
    using wfj hm_in_iff_get [OF wf] hm_in_iff_get [OF wfj]
    by (fastforce simp: expired_jobs_def hm_iter_def job_at_def split: option.splits)
qed

lemma distinct_concat_pairs:
  "distinct (map fst xs) \<Longrightarrow> (\<And>k v. (k, v) \<in> set xs \<Longrightarrow> distinct (f v)) \<Longrightarrow>
     distinct (concat (map (\<lambda>(k, v). map (Pair k) (f v)) xs))"
proof (induction xs)
  case (Cons x xs)
  obtain k v where x: "x = (k, v)" by fastforce
  have "distinct (f v)" by (rule Cons.prems(2) [of k]) (simp add: x)
  then have "distinct (map (Pair k) (f v))" by (simp add: distinct_map inj_on_def)
  moreover have "distinct (concat (map (\<lambda>(k, v). map (Pair k) (f v)) xs))"
    using Cons.prems by (intro Cons.IH) auto
  moreover have "k \<notin> fst ` set xs" using Cons.prems(1) x by auto
  ultimately show ?case using x by (force simp: distinct_append)
qed simp

lemma distinct_expired_jobs:
  assumes "struct_inv s"
  shows "distinct (expired_jobs s now)"
proof -
  have "expired_jobs s now = concat (map (\<lambda>(d, dag). map (Pair d)
      (map fst (filter (\<lambda>(_, job). lease_expired now job) (dr_jobs dag)))) (sc_dags s))"
    by (auto simp: expired_jobs_def hm_iter_def intro!: arg_cong [where f = concat] map_cong)
  moreover have "distinct \<dots>"
    using assms hm_in_iff_get [of "sc_dags s"]
    by (intro distinct_concat_pairs)
      (auto simp: struct_inv_def dag_inv_def hm_wf_def intro!: distinct_map_filter)
  ultimately show ?thesis by simp
qed

lemma lease_expired_leased: "lease_expired now job \<Longrightarrow> jr_state job = Leased"
  by (auto simp: lease_expired_def split: option.splits)

lemma reap_frame [simp]:
  "sc_config (fst (reap now s)) = sc_config s"
  "sc_sequence (fst (reap now s)) = sc_sequence s"
  "dependents_map (fst (reap now s)) = dependents_map s"
  using reap_fold_frame [of now "expired_jobs s now" s] by (simp_all add: reap_def Let_def)

lemma job_at_reap:
  assumes "struct_inv s"
  shows "job_at (fst (reap now s)) d j =
    map_option (\<lambda>job. if lease_expired now job then requeued (sc_config s) j now job else job) (job_at s d j)"
  using set_expired_jobs [OF assms, of d j now] distinct_expired_jobs [OF assms, of now]
  by (cases "job_at s d j") (auto simp: reap_def Let_def reap_fold_job_at)

lemma sched_inv_reap: "sched_inv s \<Longrightarrow> sched_inv (fst (reap now s))"
  using distinct_expired_jobs set_expired_jobs lease_expired_leased
  by (fastforce simp: reap_def Let_def dest: sched_inv_struct intro!: reap_fold_inv)

text \<open>The iteration order of the two hash maps does not matter.\<close>

lemma job_write_commute:
  assumes "(d, j) \<noteq> (d', j')"
  shows "job_write d j f (job_write d' j' g s) = job_write d' j' g (job_write d j f s)"
proof (cases "d = d'")
  case True
  with assms show ?thesis
    by (auto simp: job_write_def hm_modify_compose hm_modify_commute intro!: hm_modify_cong)
next
  case False
  then show ?thesis by (simp add: job_write_def hm_modify_commute)
qed

lemma requeued_heap_commute:
  "requeued_heap c d j t job (requeued_heap c d' j' t job' h) =
     requeued_heap c d' j' t job' (requeued_heap c d j t job h)"
  by (simp add: requeued_heap_def rh.push_commute)

lemma retry_None: "job_at s d j = None \<Longrightarrow> fst (retry_or_dead_letter d j now s) = s"
  using job_ref_eq(2) [of s d j] by (auto simp: retry_or_dead_letter_def)

lemma retry_commute_distinct:
  assumes ne: "(d, j) \<noteq> (d', j')"
  shows "fst (retry_or_dead_letter d j now (fst (retry_or_dead_letter d' j' now s))) =
    fst (retry_or_dead_letter d' j' now (fst (retry_or_dead_letter d j now s)))"
proof (cases "job_at s d j")
  case None
  moreover from this ne have "job_at (fst (retry_or_dead_letter d' j' now s)) d j = None"
    by (auto simp: job_at_retry)
  ultimately show ?thesis by (simp add: retry_None)
next
  case J: (Some job)
  show ?thesis
  proof (cases "job_at s d' j'")
    case None
    moreover from this ne have "job_at (fst (retry_or_dead_letter d j now s)) d' j' = None"
      by (auto simp: job_at_retry)
    ultimately show ?thesis by (simp add: retry_None)
  next
    case J': (Some job')
    from J J' ne have at: "job_at (fst (retry_or_dead_letter d' j' now s)) d j = Some job"
      "job_at (fst (retry_or_dead_letter d j now s)) d' j' = Some job'"
      by (auto simp: job_at_retry)
    show ?thesis
      unfolding retry_or_dead_letter_eq [OF at(1)] retry_or_dead_letter_eq [OF at(2)]
      unfolding retry_or_dead_letter_eq [OF J] retry_or_dead_letter_eq [OF J']
      by (simp add: job_write_fields_update requeued_heap_commute [of _ d] job_write_commute [OF ne])
  qed
qed

lemma retry_commute: "reap_one now x (reap_one now y s) = reap_one now y (reap_one now x s)"
  using retry_commute_distinct [of "fst x" "snd x" "fst y" "snd y" now s]
  by (cases "x = y") (auto simp: case_prod_beta prod_eq_iff)

lemma reap_fold_permuted:
  assumes "mset xs = mset ys"
  shows "fold (reap_one now) xs s = fold (reap_one now) ys s"
  by (rule fun_cong [OF fold_multiset_equiv [OF _ assms]]) (use retry_commute in \<open>auto simp: fun_eq_iff\<close>)

section \<open>Claiming\<close>

definition leased_job :: "byte_string \<Rightarrow> byte_string \<Rightarrow> millis \<Rightarrow> job_record \<Rightarrow> job_record" where
  "leased_job owner token expires_at_ms job =
     job\<lparr>jr_attempts := u16_saturating_add (jr_attempts job) 1, jr_state := Leased,
         jr_lease := Some \<lparr>ls_owner = owner, ls_token = token, ls_expires_at_ms = expires_at_ms\<rparr>\<rparr>"

text \<open>The answer of a granted claim, from the record the job had before.\<close>

definition grant :: "byte_string \<Rightarrow> byte_string \<Rightarrow> byte_string \<Rightarrow> millis \<Rightarrow> job_record \<Rightarrow> claimed_job" where
  "grant d j token expires_at_ms job =
     \<lparr>cj_dag_id = d, cj_job_id = j, cj_kind = js_kind (jr_spec job), cj_payload = js_payload (jr_spec job),
      cj_attempt = u16_saturating_add (jr_attempts job) 1, cj_lease_token = token,
      cj_lease_expires_at_ms = expires_at_ms\<rparr>"

definition claimable_at :: "scheduler \<Rightarrow> byte_string \<Rightarrow> byte_string \<Rightarrow> job_record \<Rightarrow> bool" where
  "claimable_at s d j job \<longleftrightarrow> job_at s d j = Some job \<and> claimable_state (jr_state job)"

definition claim_granted ::
  "byte_string \<Rightarrow> millis \<Rightarrow> millis \<Rightarrow> scheduler \<Rightarrow> scheduler \<Rightarrow> claimed_job \<Rightarrow> bool" where
  "claim_granted owner now_ms lease_ms s s' cj \<longleftrightarrow>
     (\<exists>d j job h.
        let n = u64_saturating_add (sc_sequence s) 1;
            token = lease_token d j n;
            expires = i64_saturating_add now_ms lease_ms
        in claimable_at s d j job \<and> jr_available_at_ms job \<le> now_ms \<and>
           (\<forall>d' j' job'. claimable_at s d' j' job' \<longrightarrow> ready_key_of d job \<le> ready_key_of d' job') \<and>
           s' = (job_write d j (leased_job owner token expires) s)\<lparr>sc_ready := h, sc_sequence := n\<rparr> \<and>
           cj = grant d j token expires job \<and> sched_inv s')"

lemma claim_grantedI:
  assumes "claimable_at s d j job" "jr_available_at_ms job \<le> now"
    "\<And>d' j' job'. claimable_at s d' j' job' \<Longrightarrow> ready_key_of d job \<le> ready_key_of d' job'"
    "n = u64_saturating_add (sc_sequence s) 1" "token = lease_token d j n"
    "expires = i64_saturating_add now lease_ms"
    "s' = (job_write d j (leased_job owner token expires) s)\<lparr>sc_ready := h, sc_sequence := n\<rparr>"
    "cj = grant d j token expires job" "sched_inv s'"
  shows "claim_granted owner now lease_ms s s' cj"
  unfolding claim_granted_def Let_def using assms by blast

lemma claim_loop_step:
  assumes "rh_pop (sc_ready s) = Some (k, h)" "\<not> now < rk_available_at_ms k"
    "job_at s (rk_dag_id k) (rk_job_id k) = Some job"
  shows "claim_loop owner now lease_ms s =
    (if \<not> claimable_state (jr_state job) \<or> jr_available_at_ms job \<noteq> rk_available_at_ms k
     then claim_loop owner now lease_ms (s\<lparr>sc_ready := h\<rparr>)
     else let n = u64_saturating_add (sc_sequence s) 1;
              token = lease_token (rk_dag_id k) (rk_job_id k) n;
              expires = i64_saturating_add now lease_ms
          in ((job_write (rk_dag_id k) (rk_job_id k) (leased_job owner token expires) s)
                 \<lparr>sc_ready := h, sc_sequence := n\<rparr>,
              Some (grant (rk_dag_id k) (rk_job_id k) token expires job)))"
proof -
  have "rh_peek (sc_ready s) = Some k" using rh.peek_pop [of "sc_ready s"] assms(1) by simp
  moreover have "job_write (rk_dag_id k) (rk_job_id k)
        (\<lambda>j. j\<lparr>jr_attempts := u16_saturating_add (jr_attempts job) 1, jr_state := Leased,
           jr_lease := Some \<lparr>ls_owner = owner, ls_token = token, ls_expires_at_ms = expires\<rparr>\<rparr>) s =
      job_write (rk_dag_id k) (rk_job_id k) (leased_job owner token expires) s" for token expires
    by (rule job_write_cong [OF assms(3)]) (simp add: leased_job_def)
  moreover obtain dag where "hm_get (sc_dags s) (rk_dag_id k) = Some dag"
    "hm_get (dr_jobs dag) (rk_job_id k) = Some job"
    using assms(3) by (auto simp: job_at_def split: option.splits)
  ultimately show ?thesis
    using assms(1,2)
    by (subst claim_loop.simps)
      (simp add: claimable_state_def Let_def grant_def job_write_fields_update)
qed

lemma sched_inv_drop_stale:
  assumes "sched_inv s" "rh_pop (sc_ready s) = Some (k, h)"
    "job_at s (rk_dag_id k) (rk_job_id k) = Some job" "\<not> claimable_state (jr_state job)"
  shows "sched_inv (s\<lparr>sc_ready := h\<rparr>)"
proof -
  have "ready_inv (job_at s) h"
    by (rule ready_inv_pop_stale [OF sched_inv_ready [OF assms(1)] assms(2) sched_inv_ids [OF assms(1)] assms(3,4)])
  then show ?thesis
    using assms(1) by (simp add: sched_inv_def sched_inv_owing_def struct_inv_def)
qed

lemma job_inv_leased: "job_inv job \<Longrightarrow> claimable_state (jr_state job) \<Longrightarrow> job_inv (leased_job o' t e job)"
  by (cases "jr_state job")
    (simp_all add: job_inv_def leased_job_def claimable_state_def Let_def
      u16_saturating_add_def U16_MAX_def)

lemma sched_inv_lease:
  assumes inv: "sched_inv s" and pop: "rh_pop (sc_ready s) = Some (k, h)"
    and job: "job_at s d j = Some job" "claimable_state (jr_state job)"
    and k: "rk_dag_id k = d" "rk_job_id k = j"
    and n: "n = u64_saturating_add (sc_sequence s) 1" and token: "token = lease_token d j n"
  shows "sched_inv ((job_write d j (leased_job owner token e) s)\<lparr>sc_ready := h, sc_sequence := n\<rparr>)"
proof (rule sched_inv_update_simple [OF inv job(1)])
  show "job_inv (leased_job owner token e job)"
    by (rule job_inv_leased [OF sched_inv_job(1) [OF inv job(1)] job(2)])
  show "lease_inv n d j (leased_job owner token e job)"
    using sched_inv_seq [OF inv]
    by (auto simp: lease_inv_def leased_job_def token n u64_saturating_add_def U64_MAX_def intro!: exI [of _ n])
  show "ready_inv (job_at (job_write d j (leased_job owner token e) s)) h"
    by (rule ready_inv_pop_lease [OF sched_inv_ready [OF inv] pop sched_inv_ids [OF inv] job(1) k])
      (use job(1) in \<open>auto simp: leased_job_def claimable_state_def\<close>)
qed (use job(2) sched_inv_seq [OF inv] in
    \<open>auto simp: leased_job_def claimable_state_def n u64_saturating_add_def\<close>)

lemma claim_granted_ready_irrelevant:
  "claim_granted owner now lease_ms (s\<lparr>sc_ready := h\<rparr>) s' cj \<longleftrightarrow> claim_granted owner now lease_ms s s' cj"
  by (simp add: claim_granted_def claimable_at_def Let_def job_write_def)

lemma claim_loop_spec:
  assumes "sched_inv s"
  shows "case claim_loop owner now lease_ms s of
      (s', None) \<Rightarrow> sched_inv s' \<and> (\<exists>h. s' = s\<lparr>sc_ready := h\<rparr>) \<and>
        (\<forall>d j job. claimable_at s d j job \<longrightarrow> now < jr_available_at_ms job)
    | (s', Some cj) \<Rightarrow> claim_granted owner now lease_ms s s' cj"
  using assms
proof (induction "rh_len (sc_ready s)" arbitrary: s rule: less_induct)
  case less
  note inv = less.prems
  note ready = sched_inv_ready [OF inv]
  have wf: "rh_wf (sc_ready s)" using ready by (simp add: ready_inv_def)
  have self: "\<exists>h. s = s\<lparr>sc_ready := h\<rparr>" by (rule exI [of _ "sc_ready s"]) simp
  show ?case
  proof (cases "rh_pop (sc_ready s)")
    case None
    then have "sc_ready s = []" using rh.pop_None [of "sc_ready s"] by simp
    moreover have "rh_peek (sc_ready s) = None" using rh.peek_pop [of "sc_ready s"] None by simp
    ultimately show ?thesis
      using inv self ready_inv_claimable [OF ready]
      by (subst claim_loop.simps) (auto simp: claimable_at_def)
  next
    case (Some p)
    then obtain k h where pop: "rh_pop (sc_ready s) = Some (k, h)" by (cases p) auto
    then have peek: "rh_peek (sc_ready s) = Some k" using rh.peek_pop [of "sc_ready s"] by simp
    have min: "k \<le> ready_key_of d j" if "claimable_at s d i j" for d i j
    proof (rule rh.pop_min [OF wf pop])
      show "ready_key_of d j \<in># mset (sc_ready s)"
        using that ready_inv_claimable [OF ready] by (auto simp: claimable_at_def)
    qed
    show ?thesis
    proof (cases "now < rk_available_at_ms k")
      case True
      then have "now < jr_available_at_ms job" if "claimable_at s d j job" for d j job
        using ready_key_le_available [OF min [OF that]] by simp
      with True inv self peek show ?thesis by (subst claim_loop.simps) auto
    next
      case False
      have "k \<in> set (sc_ready s)" using rh.elems_pop [OF pop] by (metis set_mset_mset union_single_eq_member)
      then obtain job where job: "job_at s (rk_dag_id k) (rk_job_id k) = Some job"
        "k = ready_key_of (rk_dag_id k) job" "claimable_state (jr_state job) \<or> jr_state job = Cancelled"
        by (rule ready_invD [OF ready])
      then have avail: "jr_available_at_ms job = rk_available_at_ms k"
        by (metis ready_key_of_sel(1))
      note step = claim_loop_step [OF pop False job(1), of owner lease_ms]
      show ?thesis
      proof (cases "claimable_state (jr_state job)")
        case True
        let ?n = "u64_saturating_add (sc_sequence s) 1"
        note inv' = sched_inv_lease [OF inv pop job(1) True refl refl refl refl]
        have at: "claimable_at s (rk_dag_id k) (rk_job_id k) job"
          using job(1) True by (simp add: claimable_at_def)
        have least: "ready_key_of (rk_dag_id k) job \<le> ready_key_of d' job'"
          if "claimable_at s d' j' job'" for d' j' job'
          using min [OF that] job(2) by simp
        have due: "jr_available_at_ms job \<le> now" using avail False by simp
        note granted = claim_grantedI [OF at due least refl refl refl refl refl inv']
        show ?thesis
          unfolding step Let_def using True avail granted by (simp del: One_nat_def)
      next
        case stale: False
        let ?s1 = "s\<lparr>sc_ready := h\<rparr>"
        have inv1: "sched_inv ?s1" by (rule sched_inv_drop_stale [OF inv pop job(1) stale])
        have "rh_len (sc_ready ?s1) < rh_len (sc_ready s)" using rh.pop_len [OF pop] by simp
        from less.hyps [OF this inv1] step stale show ?thesis
          by (auto simp: claim_granted_ready_irrelevant claimable_at_def split: prod.splits option.splits)
      qed
    qed
  qed
qed

section \<open>The claim operation\<close>

definition claim_request_ok :: "scheduler_config \<Rightarrow> byte_string \<Rightarrow> millis \<Rightarrow> bool" where
  "claim_request_ok config owner lease_ms \<longleftrightarrow>
     owner \<noteq> [] \<and> length owner \<le> 64 \<and> 0 < lease_ms \<and> lease_ms \<le> max_lease_ms config"

lemma claim_rejected:
  "\<not> claim_request_ok (sc_config s) owner lease_ms \<Longrightarrow> claim owner now lease_ms s = (s, Inl InvalidLease)"
  by (auto simp: claim_def claim_request_ok_def)

lemma claim_accepted:
  "claim_request_ok (sc_config s) owner lease_ms \<Longrightarrow> claim owner now lease_ms s =
     map_prod id Inr (claim_loop owner now lease_ms (fst (reap now s)))"
  by (auto simp: claim_def claim_request_ok_def Let_def split: prod.split)

text \<open>The three outcomes of a claim.\<close>

lemma claim_cases [consumes 2, case_names rejected nothing granted]:
  assumes inv: "sched_inv s" and c: "claim owner now lease_ms s = (s', r)"
  obtains "\<not> claim_request_ok (sc_config s) owner lease_ms" "s' = s" "r = Inl InvalidLease"
  | h where "claim_request_ok (sc_config s) owner lease_ms" "r = Inr None" "sched_inv s'"
      "s' = (fst (reap now s))\<lparr>sc_ready := h\<rparr>"
      "\<And>d j job. claimable_at (fst (reap now s)) d j job \<Longrightarrow> now < jr_available_at_ms job"
  | cj where "claim_request_ok (sc_config s) owner lease_ms" "r = Inr (Some cj)" "sched_inv s'"
      "claim_granted owner now lease_ms (fst (reap now s)) s' cj"
proof (cases "claim_request_ok (sc_config s) owner lease_ms")
  case False
  with c claim_rejected show ?thesis by (intro that(1)) auto
next
  case True
  obtain s1 r1 where l: "claim_loop owner now lease_ms (fst (reap now s)) = (s1, r1)" by fastforce
  with c claim_accepted [OF True] have eq: "s' = s1" "r = Inr r1" by auto
  note spec = claim_loop_spec [OF sched_inv_reap [OF inv, of now], where owner = owner and
      now = now and lease_ms = lease_ms, unfolded l]
  show ?thesis
  proof (cases r1)
    case None
    with spec obtain h where "s1 = (fst (reap now s))\<lparr>sc_ready := h\<rparr>" "sched_inv s1"
      "\<And>d j job. claimable_at (fst (reap now s)) d j job \<Longrightarrow> now < jr_available_at_ms job" by auto
    with None eq True show ?thesis by (intro that(2)) auto
  next
    case (Some cj)
    with spec have g: "claim_granted owner now lease_ms (fst (reap now s)) s1 cj" by simp
    then have "sched_inv s1" by (auto simp: claim_granted_def Let_def)
    with Some eq True g show ?thesis by (intro that(3)) auto
  qed
qed

lemma sched_inv_claim:
  assumes "sched_inv s"
  shows "sched_inv (fst (claim owner now lease_ms s))"
proof -
  obtain s' r where c: "claim owner now lease_ms s = (s', r)" by fastforce
  from assms c show ?thesis by (cases rule: claim_cases) (use assms c in auto)
qed

section \<open>The lease check\<close>

definition lease_matches ::
  "scheduler \<Rightarrow> byte_string \<Rightarrow> byte_string \<Rightarrow> byte_string \<Rightarrow> byte_string \<Rightarrow> millis \<Rightarrow> bool" where
  "lease_matches s d j owner token now_ms \<longleftrightarrow>
     (case job_at s d j of
        None \<Rightarrow> False
      | Some job \<Rightarrow>
        jr_state job = Leased \<and>
        (case jr_lease job of
           None \<Rightarrow> False
         | Some l \<Rightarrow> ls_owner l = owner \<and> ls_token l = token \<and> now_ms < ls_expires_at_ms l))"

definition lease_error :: "scheduler \<Rightarrow> byte_string \<Rightarrow> byte_string \<Rightarrow> scheduler_error" where
  "lease_error s d j =
     (if hm_get (sc_dags s) d = None then DagNotFound
      else if job_at s d j = None then JobNotFound else LeaseConflict)"

lemma job_ref_Inl: "job_at s d j = None \<Longrightarrow> job_ref s d j = Inl (lease_error s d j)"
  by (auto simp: job_ref_def job_at_def lease_error_def split: option.splits)

lemma lease_error_Some [simp]: "job_at s d j = Some job \<Longrightarrow> lease_error s d j = LeaseConflict"
  by (auto simp: lease_error_def job_at_def split: option.splits)

lemma assert_lease_eq:
  "assert_lease s d j owner token now =
     (if lease_matches s d j owner token now then Inr () else Inl (lease_error s d j))"
  by (cases "job_at s d j")
    (auto simp: assert_lease_def lease_matches_def job_ref_Inl split: option.split)

lemma lease_matchesE:
  assumes "lease_matches s d j owner token now"
  obtains job l where "job_at s d j = Some job" "jr_state job = Leased" "jr_lease job = Some l"
    "ls_owner l = owner" "ls_token l = token" "now < ls_expires_at_ms l"
  using assms by (auto simp: lease_matches_def split: option.splits)

lemma lease_matchesI:
  "job_at s d j = Some job \<Longrightarrow> jr_state job = Leased \<Longrightarrow> jr_lease job = Some l \<Longrightarrow>
   ls_owner l = owner \<Longrightarrow> ls_token l = token \<Longrightarrow> now < ls_expires_at_ms l \<Longrightarrow>
   lease_matches s d j owner token now"
  by (simp add: lease_matches_def)

section \<open>Heartbeat\<close>

definition renewed :: "millis \<Rightarrow> job_record \<Rightarrow> job_record" where
  "renewed expires_at_ms job =
     job\<lparr>jr_lease := map_option (\<lambda>l. l\<lparr>ls_expires_at_ms := expires_at_ms\<rparr>) (jr_lease job)\<rparr>"

lemma heartbeat_eq:
  "heartbeat d j owner token now lease_ms s =
     (if \<not> (0 < lease_ms \<and> lease_ms \<le> max_lease_ms (sc_config s)) then (s, Inl InvalidLease)
      else if \<not> lease_matches s d j owner token now then (s, Inl (lease_error s d j))
      else (job_write d j (renewed (i64_saturating_add now lease_ms)) s,
            Inr (i64_saturating_add now lease_ms)))"
proof (cases "lease_matches s d j owner token now")
  case False
  then show ?thesis
    by (cases "job_at s d j")
      (auto simp: heartbeat_def lease_matches_def job_ref_Inl split: option.split)
next
  case True
  then obtain job l where at: "job_at s d j = Some job" "jr_state job = Leased" "jr_lease job = Some l"
    "ls_owner l = owner" "ls_token l = token" "now < ls_expires_at_ms l" by (rule lease_matchesE)
  have "job_write d j (\<lambda>r. r\<lparr>jr_lease := Some (l\<lparr>ls_expires_at_ms := e\<rparr>)\<rparr>) s = job_write d j (renewed e) s" for e
    by (rule job_write_cong [OF at(1)]) (simp add: renewed_def at)
  with True at show ?thesis by (simp add: heartbeat_def Let_def)
qed

lemma sched_inv_heartbeat:
  assumes inv: "sched_inv s"
  shows "sched_inv (fst (heartbeat d j owner token now lease_ms s))"
proof (cases "lease_matches s d j owner token now")
  case True
  then obtain job l where at: "job_at s d j = Some job" "jr_state job = Leased" "jr_lease job = Some l"
    by (rule lease_matchesE)
  let ?f = "renewed (i64_saturating_add now lease_ms)"
  have "sched_inv ((job_write d j ?f s)\<lparr>sc_ready := sc_ready s\<rparr>)"
  proof (rule sched_inv_update_ready [OF inv at(1)])
    show "job_inv (?f job)" using sched_inv_job(1) [OF inv at(1)] at by (simp add: job_inv_def renewed_def)
    show "lease_inv (sc_sequence s) d j (?f job)"
      using sched_inv_job(2) [OF inv at(1)] at by (simp add: lease_inv_def renewed_def)
    show "ready_inv (job_at (job_write d j ?f s)) (sc_ready s)"
      by (rule ready_inv_unqueued [OF sched_inv_ready [OF inv] at(1) sched_inv_ids [OF inv], of "?f job"])
        (use at in \<open>auto simp: claimable_state_def renewed_def\<close>)
  qed (simp_all add: renewed_def)
  then show ?thesis using inv by (simp add: heartbeat_eq)
qed (simp add: heartbeat_eq inv)

lemma fail_eq:
  "fail d j owner token now s =
     (if lease_matches s d j owner token now then retry_or_dead_letter d j now s
      else (s, Inl (lease_error s d j)))"
  by (simp add: fail_def assert_lease_eq)

lemma sched_inv_fail: "sched_inv s \<Longrightarrow> sched_inv (fst (fail d j owner token now s))"
  by (auto simp: fail_eq intro: sched_inv_retry elim!: lease_matchesE)

end
