(* ===== verification/SchedulerComplete.thy ===== *)
theory SchedulerComplete
  imports SchedulerLease
begin

text \<open>
  Completion: the job becomes \<open>Succeeded\<close> and every edge to a dependent is discharged. Between
  the two the dependents' counters are ahead of the graph by the edges not yet walked
  (\<open>owed\<close>). The loop never hits its error branches.
\<close>

section \<open>One walk over the dependents\<close>

definition released_by :: "millis \<Rightarrow> nat \<Rightarrow> job_record \<Rightarrow> job_record" where
  "released_by now_ms n job =
     (if jr_remaining_dependencies job - n = 0 \<and> jr_state job = Pending
      then job\<lparr>jr_remaining_dependencies := 0, jr_state := Ready, jr_available_at_ms := now_ms\<rparr>
      else job\<lparr>jr_remaining_dependencies := jr_remaining_dependencies job - n\<rparr>)"

lemma jr_spec_released [simp]: "jr_spec (released_by t n job) = jr_spec job"
  by (simp add: released_by_def Let_def)

lemma jr_lease_released [simp]: "jr_lease (released_by t n job) = jr_lease job"
  by (simp add: released_by_def Let_def)

lemma jr_remaining_released [simp]:
  "jr_remaining_dependencies (released_by t n job) = jr_remaining_dependencies job - n"
  by (simp add: released_by_def Let_def)

lemma released_by_Suc: "released_by t n (released_by t 1 job) = released_by t (Suc n) job"
  by (cases job; cases "jr_state job = Pending"; cases "jr_remaining_dependencies job - 1 = 0")
    (simp_all add: released_by_def)

lemma released_by_0:
  assumes "job_inv job"
  shows "released_by t 0 job = job"
proof -
  have "jr_state job = Pending \<Longrightarrow> 0 < jr_remaining_dependencies job"
    using assms by (simp add: job_inv_def Let_def)
  then show ?thesis by (cases job) (auto simp: released_by_def)
qed

lemma released_Succeeded [simp]: "jr_state (released_by t n job) = Succeeded \<longleftrightarrow> jr_state job = Succeeded"
  by (auto simp: released_by_def Let_def)

lemma job_inv_released:
  assumes "job_inv job" "1 \<le> jr_remaining_dependencies job"
  shows "job_inv (released_by t 1 job)"
proof (cases "jr_state job = Pending \<and> jr_remaining_dependencies job = 1")
  case True
  then have "released_by t 1 job =
      job\<lparr>jr_remaining_dependencies := 0, jr_state := Ready, jr_available_at_ms := t\<rparr>"
    by (simp add: released_by_def)
  with True assms show ?thesis by (simp add: job_inv_def Let_def)
next
  case False
  with assms(2) have "released_by t 1 job =
      job\<lparr>jr_remaining_dependencies := jr_remaining_dependencies job - 1\<rparr>"
    by (auto simp: released_by_def Let_def)
  moreover have "jr_state job = Pending \<longrightarrow> 1 < jr_remaining_dependencies job" using False assms(2) by auto
  moreover have "jr_state job = Pending \<or> jr_state job = Cancelled"
    using assms by (auto simp: job_inv_def Let_def)
  ultimately show ?thesis using assms(1) by (elim disjE) (simp_all add: job_inv_def Let_def)
qed

text \<open>The loop body as one write and, when the job becomes ready, one push.\<close>

definition released_heap :: "millis \<Rightarrow> byte_string \<Rightarrow> job_record \<Rightarrow> ready_heap \<Rightarrow> ready_heap" where
  "released_heap t d job h =
     (if jr_remaining_dependencies job - 1 = 0 \<and> jr_state job = Pending
      then rh_push (ready_key_of d (released_by t 1 job)) h else h)"

lemma release_dependents_step:
  assumes "job_at s d x = Some job"
  shows "release_dependents d t (x # xs) s =
    release_dependents d t xs
      ((job_write d x (released_by t 1) s)\<lparr>sc_ready := released_heap t d job (sc_ready s)\<rparr>)"
proof (cases "jr_remaining_dependencies job - 1 = 0 \<and> jr_state job = Pending")
  case True
  then have "job_write d x (\<lambda>j. j\<lparr>jr_remaining_dependencies := jr_remaining_dependencies job - 1,
      jr_state := Ready, jr_available_at_ms := t\<rparr>) s = job_write d x (released_by t 1) s"
    by (intro job_write_cong [OF assms]) (simp add: released_by_def)
  with True assms show ?thesis
    by (simp add: Let_def push_ready_def released_heap_def ready_key_of_def released_by_def)
next
  case False
  then have "job_write d x (\<lambda>j. j\<lparr>jr_remaining_dependencies := jr_remaining_dependencies job - 1\<rparr>) s =
      job_write d x (released_by t 1) s"
    by (intro job_write_cong [OF assms]) (auto simp: released_by_def Let_def)
  then show ?thesis
    using False assms by (auto simp: Let_def released_heap_def)
qed

definition owed_to :: "byte_string \<Rightarrow> byte_string list \<Rightarrow> byte_string \<Rightarrow> byte_string \<Rightarrow> nat" where
  "owed_to d xs d' j = (if d' = d then count_list xs j else 0)"

lemma owed_to_Nil [simp]: "owed_to d [] = (\<lambda>_ _. 0)"
  by (simp add: owed_to_def fun_eq_iff)

lemma ready_inv_released:
  assumes "ready_inv (job_at s) h" "job_at s d x = Some job" "ids_ok (job_at s)"
  shows "ready_inv (job_at (job_write d x (released_by t 1) s)) (released_heap t d job h)"
proof (cases "jr_remaining_dependencies job - 1 = 0 \<and> jr_state job = Pending")
  case True
  then show ?thesis
    using assms ready_inv_push [OF assms, of "released_by t 1 job"]
    by (simp add: released_heap_def released_by_def claimable_state_def ids_ok_def)
next
  case False
  then have "ready_key_of d (released_by t 1 job) = ready_key_of d job"
    "jr_state (released_by t 1 job) = jr_state job"
    by (auto simp: ready_key_of_def released_by_def Let_def)
  from ready_inv_same_key [OF assms(1,2) this] False assms(2) show ?thesis
    by (auto simp: released_heap_def)
qed

lemma sched_inv_released:
  assumes inv: "sched_inv_owing (owed_to d (x # xs)) s" and job: "job_at s d x = Some job"
  shows "sched_inv_owing (owed_to d xs)
    ((job_write d x (released_by t 1) s)\<lparr>sc_ready := released_heap t d job (sc_ready s)\<rparr>)"
proof -
  have jinv: "job_inv job" and linv: "lease_inv (sc_sequence s) d x job"
    and rem: "jr_remaining_dependencies job = unmet s d x + owed_to d (x # xs) d x"
    and ready: "ready_inv (job_at s) (sc_ready s)" and struct: "struct_inv s"
    using inv job by (auto simp: sched_inv_owing_def)
  have seq: "sc_sequence s \<le> U64_MAX" using struct by (simp add: struct_inv_def)
  have "sched_inv_owing (owed_to d xs) ((job_write d x (released_by t 1) s)
      \<lparr>sc_ready := released_heap t d job (sc_ready s), sc_sequence := sc_sequence s\<rparr>)"
  proof (rule sched_inv_update [OF inv job _ _ _ _ order_refl seq])
    show "job_inv (released_by t 1 job)" using jinv rem by (intro job_inv_released) (simp_all add: owed_to_def)
    show "lease_inv (sc_sequence s) d x (released_by t 1 job)" using linv by (simp add: lease_inv_def)
    show "jr_remaining_dependencies (released_by t 1 job) = unmet s d x + owed_to d xs d x"
      using rem by (simp add: owed_to_def)
    show "ready_inv (job_at (job_write d x (released_by t 1) s)) (released_heap t d job (sc_ready s))"
      by (rule ready_inv_released [OF ready job struct_inv_ids [OF struct]])
  qed (auto simp: owed_to_def)
  then show ?thesis by (simp add: job_write_def)
qed

lemma release_dependents_spec:
  assumes "sched_inv_owing (owed_to d xs) s" "\<And>x. x \<in> set xs \<Longrightarrow> job_at s d x \<noteq> None"
  shows "\<exists>s'. release_dependents d t xs s = (s', Inr ()) \<and> sched_inv s' \<and>
    sc_config s' = sc_config s \<and> sc_sequence s' = sc_sequence s \<and>
    dependents_map s' = dependents_map s \<and>
    (\<forall>d' j. job_at s' d' j =
       (if d' = d then map_option (released_by t (count_list xs j)) (job_at s d j) else job_at s d' j))"
  using assms
proof (induction xs arbitrary: s)
  case Nil
  have "map_option (released_by t 0) (job_at s d j) = job_at s d j" for j
    using Nil.prems(1) by (cases "job_at s d j") (auto simp: released_by_0 sched_inv_owing_def)
  with Nil show ?case by (auto simp: sched_inv_def)
next
  case (Cons x xs)
  obtain job where job: "job_at s d x = Some job" using Cons.prems(2) [of x] by auto
  let ?s1 = "(job_write d x (released_by t 1) s)\<lparr>sc_ready := released_heap t d job (sc_ready s)\<rparr>"
  have "job_at ?s1 d y \<noteq> None" if "y \<in> set xs" for y
    using Cons.prems(2) [of y] that job by auto
  from Cons.IH [OF sched_inv_released [OF Cons.prems(1) job] this] obtain s' where
    s': "release_dependents d t xs ?s1 = (s', Inr ())" "sched_inv s'" "sc_config s' = sc_config s"
      "sc_sequence s' = sc_sequence s" "dependents_map s' = dependents_map s"
      "\<And>d' j. job_at s' d' j = (if d' = d then map_option (released_by t (count_list xs j)) (job_at ?s1 d j)
         else job_at ?s1 d' j)"
    by auto
  have "job_at s' d' j = (if d' = d then map_option (released_by t (count_list (x # xs) j)) (job_at s d j)
      else job_at s d' j)" for d' j
    using s'(6) [of d' j] job by (auto simp: released_by_Suc [unfolded One_nat_def])
  with s' show ?case unfolding release_dependents_step [OF job] by blast
qed

section \<open>The completion\<close>

definition finished :: "byte_string \<Rightarrow> job_record \<Rightarrow> job_record" where
  "finished result job = job\<lparr>jr_state := Succeeded, jr_lease := None, jr_result := Some result\<rparr>"

lemma succeeded_finish:
  "job_at s d j = Some job \<Longrightarrow>
    succeeded (job_write d j (finished r) s) d = (succeeded s d)(j := True)"
  "d' \<noteq> d \<Longrightarrow> succeeded (job_write d j (finished r) s) d' = succeeded s d'"
  by (auto simp: succeeded_def finished_def fun_eq_iff)

lemma unmet_finish:
  assumes "struct_inv s" "job_at s d j = Some job" "jr_state job \<noteq> Succeeded"
  shows "unmet s d' x = unmet (job_write d j (finished r) s) d' x + owed_to d (dependents_at s d j) d' x"
proof (cases "d' = d")
  case True
  have "distinct (map fst (hm_iter (dependents_map s d)))"
    using struct_inv_dependents_wf [OF assms(1)] by (simp add: hm_wf_def hm_iter_def)
  moreover have "\<not> succeeded s d j" using assms(2,3) by (simp add: succeeded_def)
  ultimately show ?thesis
    using True unmet_in_mark [of "hm_iter (dependents_map s d)" "succeeded s d" j x] assms(2)
    by (simp add: unmet_def succeeded_finish owed_to_def dependents_at_def hm_iter_def)
next
  case False
  then show ?thesis by (simp add: unmet_def succeeded_finish owed_to_def)
qed

lemma sched_inv_finish:
  assumes inv: "sched_inv s" and job: "job_at s d j = Some job" "jr_state job = Leased"
  shows "sched_inv_owing (owed_to d (dependents_at s d j)) (job_write d j (finished r) s)"
proof -
  let ?s1 = "job_write d j (finished r) s"
  note struct = sched_inv_struct [OF inv]
  have unmet: "unmet s d' x = unmet ?s1 d' x + owed_to d (dependents_at s d j) d' x" for d' x
    by (rule unmet_finish [OF struct job(1)]) (simp add: job)
  have "struct_inv ((job_write d j (finished r) s)\<lparr>sc_ready := sc_ready s, sc_sequence := sc_sequence s\<rparr>)"
    using struct sched_inv_seq [OF inv] by (intro struct_inv_job_write) (auto simp: finished_def)
  then have "struct_inv ?s1" by (simp add: job_write_def)
  moreover have "ready_inv (job_at ?s1) (sc_ready s)"
    by (rule ready_inv_unqueued [OF sched_inv_ready [OF inv] job(1) sched_inv_ids [OF inv], of "finished r job"])
      (use job in \<open>auto simp: claimable_state_def finished_def\<close>)
  moreover have "job_inv (finished r job)"
    using sched_inv_job(1) [OF inv job(1)] job(2) by (auto simp: job_inv_def finished_def Let_def)
  moreover have "lease_inv n d j (finished r job)" for n by (simp add: finished_def)
  moreover have "jr_remaining_dependencies (finished r job) = unmet s d j"
    using sched_inv_job(3) [OF inv job(1)] by (simp add: finished_def)
  ultimately show ?thesis
    using sched_inv_job(1-3) [OF inv] job(1) unfolding sched_inv_owing_def
    by (auto simp: unmet [symmetric] split: if_splits)
qed

lemma dependents_known:
  assumes "struct_inv s" "x \<in> set (dependents_at s d p)"
  shows "job_at s d p \<noteq> None" "job_at s d x \<noteq> None"
proof -
  obtain dag where dag: "hm_get (sc_dags s) d = Some dag"
    using assms(2) by (auto simp: dependents_at_def dependents_map_def hm_get_list_def split: option.splits)
  with assms(1) have "dag_inv dag" by (auto simp: struct_inv_def)
  moreover have "(p, x) \<in> dependency_graph (dr_dependents dag)"
    using assms(2) dag by (simp add: dependency_graph_def dependents_at_def dependents_map_def)
  ultimately show "job_at s d p \<noteq> None" "job_at s d x \<noteq> None"
    using dag by (auto simp: dag_inv_def job_at_def)
qed

text \<open>What a completion does, on every branch.\<close>

definition completed_job :: "millis \<Rightarrow> byte_string \<Rightarrow> byte_string list \<Rightarrow> byte_string \<Rightarrow> byte_string \<Rightarrow> job_record \<Rightarrow> job_record" where
  "completed_job now_ms result deps j j' job =
     (if j' = j then finished result job else released_by now_ms (count_list deps j') job)"

lemma complete_rejected:
  "MAX_PAYLOAD_BYTES < length result \<Longrightarrow> complete d j owner token result now s = (s, Inl ResultTooLarge)"
  "length result \<le> MAX_PAYLOAD_BYTES \<Longrightarrow> \<not> lease_matches s d j owner token now \<Longrightarrow>
     complete d j owner token result now s = (s, Inl (lease_error s d j))"
  by (auto simp: complete_def assert_lease_eq)

lemma not_self_dependent:
  assumes "sched_inv s" "job_at s d j = Some job" "jr_remaining_dependencies job = 0" "jr_state job \<noteq> Succeeded"
  shows "count_list (dependents_at s d j) j = 0"
  using unmet_finish [OF sched_inv_struct [OF assms(1)] assms(2,4), of d j undefined]
    sched_inv_job(3) [OF assms(1,2)] assms(3) by (simp add: owed_to_def)

lemma complete_accepted:
  assumes inv: "sched_inv s" and len: "length result \<le> MAX_PAYLOAD_BYTES"
    and l: "lease_matches s d j owner token now"
  shows "\<exists>s'. complete d j owner token result now s = (s', Inr ()) \<and> sched_inv s' \<and>
    sc_config s' = sc_config s \<and> sc_sequence s' = sc_sequence s \<and>
    dependents_map s' = dependents_map s \<and>
    (\<forall>d' j'. job_at s' d' j' =
       (if d' = d then map_option (completed_job now result (dependents_at s d j) j j') (job_at s d j')
        else job_at s d' j'))"
proof -
  from l obtain job where job: "job_at s d j = Some job" "jr_state job = Leased" by (rule lease_matchesE)
  let ?deps = "dependents_at s d j" and ?s1 = "job_write d j (finished result) s"
  obtain dag where dag: "hm_get (sc_dags s) d = Some dag" "hm_get (dr_jobs dag) j = Some job"
    using job(1) by (auto simp: job_at_def split: option.splits)
  then have deps: "hm_get_list (dr_dependents dag) j = ?deps"
    by (simp add: dependents_at_def dependents_map_def)
  have "job_at ?s1 d x \<noteq> None" if "x \<in> set ?deps" for x
    using dependents_known(2) [OF sched_inv_struct [OF inv] that] by auto
  from release_dependents_spec [OF sched_inv_finish [OF inv job] this, of now] obtain s' where
    s': "release_dependents d now ?deps ?s1 = (s', Inr ())" "sched_inv s'"
      "sc_config s' = sc_config s" "sc_sequence s' = sc_sequence s" "dependents_map s' = dependents_map s"
      "\<And>d' j'. job_at s' d' j' = (if d' = d then map_option (released_by now (count_list ?deps j')) (job_at ?s1 d j')
         else job_at ?s1 d' j')" by auto
  have "complete d j owner token result now s = release_dependents d now ?deps ?s1"
  proof -
    have "job_write d j (\<lambda>r. r\<lparr>jr_state := Succeeded, jr_lease := None, jr_result := Some result\<rparr>) s = ?s1"
      by (rule job_write_cong [OF job(1)]) (simp add: finished_def)
    with len l dag deps show ?thesis by (simp add: complete_def assert_lease_eq Let_def)
  qed
  moreover have self: "count_list ?deps j = 0"
    by (rule not_self_dependent [OF inv job(1)])
      (use sched_inv_job(1) [OF inv job(1)] job(2) in \<open>auto simp: job_inv_def Let_def\<close>)
  moreover have "released_by now 0 (finished result job) = finished result job"
    by (simp add: released_by_def finished_def)
  then have "job_at s' d' j' = (if d' = d then map_option (completed_job now result ?deps j j') (job_at s d j')
      else job_at s d' j')" for d' j'
    using s'(6) [of d' j'] job self by (cases "job_at s d j'") (auto simp: completed_job_def)
  ultimately show ?thesis using s' by metis
qed

lemma sched_inv_complete:
  assumes "sched_inv s"
  shows "sched_inv (fst (complete d j owner token result now s))"
proof (cases "length result \<le> MAX_PAYLOAD_BYTES \<and> lease_matches s d j owner token now")
  case True
  with complete_accepted [OF assms] show ?thesis by (metis fst_conv)
next
  case False
  with assms complete_rejected show ?thesis by (metis fst_conv not_less)
qed

end
