(* ===== verification/SchedulerSubmit.thy ===== *)
theory SchedulerSubmit
  imports SchedulerComplete
begin

text \<open>
  Cancellation and submission: their effect on the job map and the preservation of the
  invariant. Submission connects the counters and the adjacency it builds to the graph that
  \<open>validate\<close> accepted.
\<close>

section \<open>Cancellation\<close>

lemma cancel_job_simps [simp]:
  "jr_spec (cancel_job job) = jr_spec job"
  "jr_available_at_ms (cancel_job job) = jr_available_at_ms job"
  "jr_remaining_dependencies (cancel_job job) = jr_remaining_dependencies job"
  "jr_attempts (cancel_job job) = jr_attempts job"
  "jr_result (cancel_job job) = jr_result job"
  "jr_state (cancel_job job) = (if is_terminal (jr_state job) then jr_state job else Cancelled)"
  by (simp_all add: cancel_job_def)

lemma job_inv_cancel: "job_inv job \<Longrightarrow> job_inv (cancel_job job)"
  by (cases "jr_state job") (simp_all add: job_inv_def cancel_job_def is_terminal_def Let_def)

lemma cancel_missing: "hm_get (sc_dags s) d = None \<Longrightarrow> cancel d s = (s, Inl DagNotFound)"
  by (simp add: cancel_def)

lemma cancel_views:
  assumes "hm_get (sc_dags s) d = Some dag"
  shows "job_at (fst (cancel d s)) d' j = (if d' = d then map_option cancel_job (job_at s d j) else job_at s d' j)"
    "dependents_map (fst (cancel d s)) = dependents_map s"
    "sc_ready (fst (cancel d s)) = sc_ready s" "sc_sequence (fst (cancel d s)) = sc_sequence s"
    "sc_config (fst (cancel d s)) = sc_config s"
  using assms by (auto simp: cancel_def job_at_def dependents_map_def fun_eq_iff)

lemma succeeded_cancel:
  assumes "hm_get (sc_dags s) d = Some dag"
  shows "succeeded (fst (cancel d s)) = succeeded s"
  by (auto simp: succeeded_def cancel_views [OF assms] is_terminal_def fun_eq_iff split: option.split)

lemma struct_inv_cancel:
  assumes "struct_inv s" "hm_get (sc_dags s) d = Some dag"
  shows "struct_inv (fst (cancel d s))"
proof -
  have "dag_inv (dag\<lparr>dr_jobs := hm_map_values cancel_job (dr_jobs dag)\<rparr>)"
    using assms by (auto simp: struct_inv_def dag_inv_def)
  then have "dag_inv dag'" if "hm_get (sc_dags (fst (cancel d s))) d' = Some dag'" for d' dag'
    using that assms by (cases "d' = d") (simp_all add: cancel_def struct_inv_def)
  moreover have "js_id (jr_spec job) = j" if "job_at (fst (cancel d s)) d' j = Some job" for d' j job
  proof -
    have ids: "job_at s d'' j = Some job \<Longrightarrow> js_id (jr_spec job) = j" for d'' job
      using assms(1) by (simp add: struct_inv_def)
    from that show ?thesis
      by (cases "d' = d"; cases "job_at s d j") (auto simp: cancel_views [OF assms(2)] dest: ids)
  qed
  moreover have "hm_len (sc_dags (fst (cancel d s))) = hm_len (sc_dags s)"
    using assms(2) by (simp add: cancel_def hm_len_insert hm_contains_key_def)
  moreover have "hm_wf (sc_dags (fst (cancel d s)))"
    using assms by (simp add: cancel_def struct_inv_def)
  moreover have "hm_len (sc_dags s) \<le> max_dags (sc_config s)" "sc_sequence s \<le> U64_MAX"
    using assms(1) by (simp_all add: struct_inv_def)
  ultimately show ?thesis
    unfolding struct_inv_def cancel_views(4,5) [OF assms(2)] by presburger
qed

lemma ready_inv_cancel:
  assumes "ready_inv J h" "\<And>d' j. J' d' j = (if d' = d then map_option cancel_job (J d j) else J d' j)"
  shows "ready_inv J' h"
proof -
  have key: "ready_key_of d' (cancel_job job) = ready_key_of d' job" for d' job
    by (simp add: ready_key_of_def)
  have "\<exists>job. J' (rk_dag_id k) (rk_job_id k) = Some job \<and> k = ready_key_of (rk_dag_id k) job \<and>
      (claimable_state (jr_state job) \<or> jr_state job = Cancelled)" if "k \<in> set h" for k
  proof -
    from assms(1) that obtain job where job: "J (rk_dag_id k) (rk_job_id k) = Some job"
      "k = ready_key_of (rk_dag_id k) job" "claimable_state (jr_state job) \<or> jr_state job = Cancelled"
      by (rule ready_invD)
    show ?thesis
    proof (cases "rk_dag_id k = d")
      case True
      with job have "J' (rk_dag_id k) (rk_job_id k) = Some (cancel_job job)" by (simp add: assms(2))
      moreover have "jr_state (cancel_job job) = Cancelled"
        using job(3) by (auto simp: is_terminal_def claimable_state_def)
      ultimately show ?thesis using job(2) key by metis
    next
      case False
      with job show ?thesis by (metis assms(2))
    qed
  qed
  moreover have "ready_key_of d' job \<in> set h" if "J' d' j = Some job" "claimable_state (jr_state job)" for d' j job
    using that assms(1) key
    by (auto simp: assms(2) ready_inv_def is_terminal_def claimable_state_def split: if_splits)
  ultimately show ?thesis using assms(1) by (simp add: ready_inv_def)
qed

lemma sched_inv_cancel:
  assumes inv: "sched_inv s"
  shows "sched_inv (fst (cancel d s))"
proof (cases "hm_get (sc_dags s) d")
  case None
  then show ?thesis using inv by (simp add: cancel_missing)
next
  case (Some dag)
  note views = cancel_views [OF Some]
  have "unmet (fst (cancel d s)) = unmet s"
    by (simp add: unmet_def succeeded_cancel [OF Some] views(2) fun_eq_iff)
  moreover have "lease_inv n d' j (cancel_job job)" if "lease_inv n d' j job" for n d' j job
    using that by (auto simp: lease_inv_def cancel_job_def)
  moreover have "ready_inv (job_at (fst (cancel d s))) (sc_ready s)"
    by (rule ready_inv_cancel [OF sched_inv_ready [OF inv] views(1)])
  ultimately show ?thesis
    using inv struct_inv_cancel [OF sched_inv_struct [OF inv] Some] job_inv_cancel
    by (auto simp: sched_inv_def sched_inv_owing_def views split: if_splits)
qed

section \<open>Admitting the jobs of a graph\<close>

definition admitted :: "(byte_string, nat) hash_map \<Rightarrow> millis \<Rightarrow> job_spec \<Rightarrow> job_record" where
  "admitted counts now_ms job =
     (let remaining = (case hm_get counts (js_id job) of None \<Rightarrow> 0 | Some n \<Rightarrow> n)
      in \<lparr>jr_spec = job, jr_state = (if remaining = 0 then Ready else Pending), jr_attempts = 0,
          jr_available_at_ms = now_ms, jr_remaining_dependencies = remaining, jr_lease = None,
          jr_result = None\<rparr>)"

lemma admitted_simps [simp]:
  "jr_spec (admitted counts t job) = job" "jr_attempts (admitted counts t job) = 0"
  "jr_available_at_ms (admitted counts t job) = t" "jr_lease (admitted counts t job) = None"
  "jr_result (admitted counts t job) = None"
  by (simp_all add: admitted_def Let_def)

lemma admit_jobs_eq:
  "admit_jobs d counts t rest s jobs =
     (s\<lparr>sc_ready := fold rh_push
          (map (\<lambda>job. ready_key_of d (admitted counts t job))
             (filter (\<lambda>job. jr_state (admitted counts t job) = Ready) rest)) (sc_ready s)\<rparr>,
      fold (\<lambda>job. hm_insert (js_id job) (admitted counts t job)) rest jobs)"
  by (induction rest arbitrary: s jobs)
    (auto simp: Let_def admitted_def push_ready_def ready_key_of_def)

lemma hm_get_insert_each:
  assumes "distinct (map f xs)"
  shows "hm_get (fold (\<lambda>x. hm_insert (f x) (g x)) xs m) k =
    (case find (\<lambda>x. f x = k) xs of None \<Rightarrow> hm_get m k | Some x \<Rightarrow> Some (g x))"
  using assms
proof (induction xs arbitrary: m)
  case (Cons x xs)
  have "find (\<lambda>y. f y = k) xs = None" if "f x = k"
    using that Cons.prems by (auto simp: find_None_iff image_iff)
  with Cons show ?case by (auto split: option.split)
qed simp

lemma hm_wf_insert_each: "hm_wf m \<Longrightarrow> hm_wf (fold (\<lambda>x. hm_insert (f x) (g x)) xs m)"
  by (induction xs arbitrary: m) auto

definition admitted_jobs :: "dag_spec \<Rightarrow> millis \<Rightarrow> (byte_string, job_record) hash_map" where
  "admitted_jobs spec t =
     fold (\<lambda>job. hm_insert (js_id job) (admitted (dependency_counts spec) t job)) (ds_jobs spec) hm_new"

lemma admitted_jobs_get:
  assumes "distinct (job_ids spec)"
  shows "hm_get (admitted_jobs spec t) j = Some rec \<longleftrightarrow>
    (\<exists>job\<in>set (ds_jobs spec). js_id job = j \<and> rec = admitted (dependency_counts spec) t job)"
proof -
  have uniq: "job = job'" if "job \<in> set (ds_jobs spec)" "job' \<in> set (ds_jobs spec)" "js_id job = js_id job'" for job job'
    using assms that by (metis distinct_map inj_onD)
  show ?thesis
  proof (cases "find (\<lambda>job. js_id job = j) (ds_jobs spec)")
    case None
    then have "js_id job \<noteq> j" if "job \<in> set (ds_jobs spec)" for job
      using that by (auto simp: find_None_iff)
    then show ?thesis using None by (auto simp: admitted_jobs_def hm_get_insert_each [OF assms])
  next
    case (Some job)
    then have "job \<in> set (ds_jobs spec)" "js_id job = j" by (auto simp: find_Some_iff)
    with Some uniq show ?thesis
      by (auto simp: admitted_jobs_def hm_get_insert_each [OF assms])
  qed
qed

section \<open>The counters and the adjacency of the accepted graph\<close>

text \<open>The number of edges into a job.\<close>

definition in_degree :: "dag_spec \<Rightarrow> byte_string \<Rightarrow> nat" where
  "in_degree spec j = length (filter (\<lambda>e. dep_to e = j) (ds_dependencies spec))"

lemma dependency_counts_get:
  "hm_get (dependency_counts spec) j = (if j \<in> set (job_ids spec) then Some (in_degree spec j) else None)"
proof -
  let ?m = "fold (\<lambda>job. hm_insert (js_id job) (0 :: nat)) (ds_jobs spec) hm_new"
  have "hm_get ?m j = (if j \<in> set (job_ids spec) then Some 0 else None)"
    using hm.get_insert_all [of js_id "0 :: nat" "ds_jobs spec" hm_new j] by simp
  then show ?thesis
    using hm_get_count_loop [of dep_to "ds_dependencies spec" ?m j]
    by (simp add: dependency_counts_def in_degree_def)
qed

lemma dependents_of_list: "hm_get_list (dependents_of spec) p = sort (children_of (ds_dependencies spec) p)"
proof -
  let ?m = "fold (\<lambda>e. hm_entry_push (dep_from e) (dep_to e)) (ds_dependencies spec) hm_new"
  have "hm_get_list ?m p = children_of (ds_dependencies spec) p"
    using hm_get_group_loop [of dep_from dep_to "ds_dependencies spec" hm_new p]
    by (simp add: children_of_def hm_get_list_def)
  then show ?thesis by (auto simp: dependents_of_def hm_get_list_def split: option.splits)
qed

lemma hm_wf_dependents_of: "hm_wf (dependents_of spec)"
  by (simp add: dependents_of_def hm_wf_group_loop)

lemma dependency_graph_eq: "dependency_graph (dependents_of spec) = edge_rel spec"
  by (auto simp: dependency_graph_def dependents_of_list children_of_def edge_rel_def)

definition total_edges :: "(byte_string \<times> byte_string list) list \<Rightarrow> byte_string \<Rightarrow> nat" where
  "total_edges m j = sum_list (map (\<lambda>(p, ds). count_list ds j) m)"

lemma total_edges_insert:
  "total_edges (hm_insert k v m) j + count_list (hm_get_list m k) j = total_edges m j + count_list v j"
  by (induction k v m rule: hm_insert.induct) (auto simp: total_edges_def hm_get_list_def hm_get_def)

lemma total_edges_push: "total_edges (hm_entry_push k x m) j = total_edges m j + (if x = j then 1 else 0)"
  using total_edges_insert [of k "hm_get_list m k @ [x]" m j]
  by (simp add: hm_entry_push_def hm_get_list_def)

lemma total_edges_group:
  "total_edges (fold (\<lambda>e. hm_entry_push (dep_from e) (dep_to e)) E m) j =
     total_edges m j + length (filter (\<lambda>e. dep_to e = j) E)"
  by (induction E arbitrary: m) (auto simp: total_edges_push)

lemma total_edges_sort: "total_edges (hm_map_values sort m) j = total_edges m j"
proof -
  have "count_list (sort ds) j = count_list ds j" for ds :: "byte_string list"
    by (metis count_mset mset_sort)
  then show ?thesis by (induction m) (auto simp: total_edges_def hm_map_values_def)
qed

lemma unmet_in_none: "(\<And>p. \<not> done p) \<Longrightarrow> unmet_in done m j = total_edges m j"
  by (simp add: unmet_in_def total_edges_def)

lemma total_edges_dependents: "total_edges (dependents_of spec) j = in_degree spec j"
  unfolding dependents_of_def total_edges_sort total_edges_group
  by (simp add: total_edges_def hm_new_def in_degree_def)

section \<open>Submission\<close>

definition submitted :: "dag_spec \<Rightarrow> millis \<Rightarrow> scheduler \<Rightarrow> scheduler" where
  "submitted spec t s =
     s\<lparr>sc_ready := fold rh_push
          (map (\<lambda>job. ready_key_of (ds_id spec) (admitted (dependency_counts spec) t job))
             (filter (\<lambda>job. jr_state (admitted (dependency_counts spec) t job) = Ready) (ds_jobs spec)))
          (sc_ready s),
       sc_dags := hm_insert (ds_id spec)
          \<lparr>dr_jobs = admitted_jobs spec t, dr_dependents = dependents_of spec\<rparr> (sc_dags s)\<rparr>"

definition root_count :: "dag_spec \<Rightarrow> nat" where
  "root_count spec = length (filter (\<lambda>n. n = 0) (hm_values (dependency_counts spec)))"

lemma submit_eq:
  assumes "validate spec = Some (Inr order)"
  shows "submit spec t s =
    (if hm_contains_key (sc_dags s) (ds_id spec) then Some (s, Inl DagAlreadyExists)
     else if max_dags (sc_config s) \<le> hm_len (sc_dags s) then Some (s, Inl Overloaded)
     else if max_ready_jobs (sc_config s) < usize_saturating_add (rh_len (sc_ready s)) (root_count spec)
     then Some (s, Inl Overloaded)
     else Some (submitted spec t s, Inr ()))"
  using assms
  by (simp add: submit_def admit_jobs_eq submitted_def root_count_def admitted_jobs_def Let_def)

lemma submit_invalid: "validate spec = Some (Inl e) \<Longrightarrow> submit spec t s = Some (s, Inl (Validation e))"
  by (simp add: submit_def)

lemma submitted_views:
  "job_at (submitted spec t s) d j =
     (if d = ds_id spec then hm_get (admitted_jobs spec t) j else job_at s d j)"
  "dependents_map (submitted spec t s) d = (if d = ds_id spec then dependents_of spec else dependents_map s d)"
  "sc_config (submitted spec t s) = sc_config s" "sc_sequence (submitted spec t s) = sc_sequence s"
  by (auto simp: submitted_def job_at_def dependents_map_def)

lemma job_inv_admitted:
  assumes "job_well_formed job"
  shows "job_inv (admitted counts t job)"
  using assms by (auto simp: job_inv_def admitted_def job_well_formed_def Let_def)

lemma dag_inv_submitted:
  assumes v: "validate spec = Some (Inr order)"
  shows "dag_inv \<lparr>dr_jobs = admitted_jobs spec t, dr_dependents = dependents_of spec\<rparr>"
proof -
  note wf = validate_Inr_well_formed [OF v]
  have dist: "distinct (job_ids spec)" using wf by (simp add: dag_well_formed_def)
  have known: "hm_get (admitted_jobs spec t) j \<noteq> None" if "j \<in> set (job_ids spec)" for j
    using that admitted_jobs_get [OF dist] by fastforce
  have "hm_wf (admitted_jobs spec t)" by (simp add: admitted_jobs_def hm_wf_insert_each)
  moreover have "hm_get (admitted_jobs spec t) p \<noteq> None \<and> hm_get (admitted_jobs spec t) c \<noteq> None"
    if "(p, c) \<in> edge_rel spec" for p c
    using that edge_known_in [OF wf] known by (auto simp: edge_rel_def)
  ultimately show ?thesis
    using hm_wf_dependents_of validate_acyclic [OF v]
    by (auto simp: dag_inv_def dependency_graph_eq)
qed

lemma ready_inv_submitted:
  assumes ready: "ready_inv (job_at s) (sc_ready s)" and fresh: "\<And>j. job_at s (ds_id spec) j = None"
    and dist: "distinct (job_ids spec)"
  shows "ready_inv (job_at (submitted spec t s)) (sc_ready (submitted spec t s))"
proof -
  let ?rec = "admitted (dependency_counts spec) t" and ?d = "ds_id spec"
  let ?roots = "filter (\<lambda>job. jr_state (?rec job) = Ready) (ds_jobs spec)"
  let ?keys = "map (\<lambda>job. ready_key_of ?d (?rec job)) ?roots"
  have heap: "sc_ready (submitted spec t s) = fold rh_push ?keys (sc_ready s)" by (simp add: submitted_def)
  have ms: "mset (fold rh_push ?keys (sc_ready s)) = mset ?keys + mset (sc_ready s)" by (rule rh.elems_push_all)
  then have st: "set (fold rh_push ?keys (sc_ready s)) = set ?keys \<union> set (sc_ready s)"
    by (metis set_mset_mset set_mset_union)
  have old: "rk_dag_id k \<noteq> ?d" if "k \<in> set (sc_ready s)" for k
    using ready_invD [OF ready that] fresh by (metis option.distinct(1))
  have "distinct ?keys"
  proof -
    have "distinct (map js_id ?roots)" using dist by (rule distinct_map_filter)
    then have "distinct (map rk_job_id ?keys)" by (simp add: comp_def)
    then show ?thesis by (simp only: distinct_map)
  qed
  moreover have "set ?keys \<inter> set (sc_ready s) = {}" using old by fastforce
  ultimately have "distinct (?keys @ sc_ready s)" using ready by (simp add: ready_inv_def)
  then have "distinct (fold rh_push ?keys (sc_ready s))"
    using mset_eq_imp_distinct_iff [of "?keys @ sc_ready s"] ms by simp
  moreover have "rh_wf (fold rh_push ?keys (sc_ready s))"
    using ready by (intro rh.wf_push_all) (simp add: ready_inv_def)
  moreover have "\<exists>job. job_at (submitted spec t s) (rk_dag_id k) (rk_job_id k) = Some job \<and>
      k = ready_key_of (rk_dag_id k) job \<and> (claimable_state (jr_state job) \<or> jr_state job = Cancelled)"
    if "k \<in> set ?keys \<union> set (sc_ready s)" for k
  proof (cases "k \<in> set (sc_ready s)")
    case True
    with old [OF True] ready show ?thesis by (auto simp: ready_inv_def submitted_views)
  next
    case False
    with that obtain job where job: "job \<in> set (ds_jobs spec)" "jr_state (?rec job) = Ready"
      "k = ready_key_of ?d (?rec job)" by auto
    then have "hm_get (admitted_jobs spec t) (js_id job) = Some (?rec job)"
      using admitted_jobs_get [OF dist] by blast
    with job show ?thesis by (simp add: submitted_views claimable_state_def)
  qed
  moreover have "ready_key_of d job \<in> set ?keys \<union> set (sc_ready s)"
    if "job_at (submitted spec t s) d j = Some job" "claimable_state (jr_state job)" for d j job
  proof (cases "d = ?d")
    case True
    with that(1) obtain spec' where "spec' \<in> set (ds_jobs spec)" "job = ?rec spec'"
      by (auto simp: submitted_views admitted_jobs_get [OF dist])
    moreover from this that(2) have "jr_state (?rec spec') = Ready"
      by (auto simp: claimable_state_def admitted_def Let_def split: if_splits)
    ultimately show ?thesis using True by auto
  next
    case False
    with that ready_inv_claimable [OF ready] show ?thesis by (auto simp: submitted_views)
  qed
  ultimately show ?thesis unfolding heap ready_inv_def st by blast
qed

lemma sched_inv_submitted:
  assumes inv: "sched_inv s" and v: "validate spec = Some (Inr order)"
    and fresh: "\<not> hm_contains_key (sc_dags s) (ds_id spec)" and room: "hm_len (sc_dags s) < max_dags (sc_config s)"
  shows "sched_inv (submitted spec t s)"
proof -
  let ?s' = "submitted spec t s" and ?d = "ds_id spec"
  note wf = validate_Inr_well_formed [OF v] and struct = sched_inv_struct [OF inv]
  have dist: "distinct (job_ids spec)" using wf by (simp add: dag_well_formed_def)
  have none: "job_at s ?d j = None" for j using fresh by (simp add: job_at_def hm_contains_key_def)
  have dags: "sc_dags ?s' = hm_insert ?d \<lparr>dr_jobs = admitted_jobs spec t, dr_dependents = dependents_of spec\<rparr> (sc_dags s)"
    by (simp add: submitted_def)
  have "dag_inv dag" if "hm_get (sc_dags ?s') d = Some dag" for d dag
    using that struct dag_inv_submitted [OF v] by (auto simp: dags struct_inv_def split: if_splits)
  moreover have "js_id (jr_spec job) = j" if "job_at ?s' d j = Some job" for d j job
    using that struct by (auto simp: submitted_views admitted_jobs_get [OF dist] struct_inv_def split: if_splits)
  ultimately have struct': "struct_inv ?s'"
    using struct room by (simp add: struct_inv_def submitted_views dags hm_len_insert)
  have fresh_succ: "\<not> succeeded ?s' ?d p" for p
    by (auto simp: succeeded_def submitted_views admitted_jobs_get [OF dist] admitted_def Let_def split: option.splits)
  have unmet_new: "unmet ?s' ?d j = in_degree spec j" for j
    using unmet_in_none [of "succeeded ?s' ?d" "dependents_of spec" j] fresh_succ
    by (simp add: unmet_def submitted_views hm_iter_def total_edges_dependents)
  have unmet_old: "unmet ?s' d j = unmet s d j" if "d \<noteq> ?d" for d j
    by (rule unmet_cong) (use that in \<open>simp_all add: succeeded_def submitted_views\<close>)
  have "job_inv job \<and> lease_inv (sc_sequence ?s') d j job \<and> jr_remaining_dependencies job = unmet ?s' d j"
    if at: "job_at ?s' d j = Some job" for d j job
  proof (cases "d = ?d")
    case True
    with at obtain js where js: "js \<in> set (ds_jobs spec)" "js_id js = j"
      "job = admitted (dependency_counts spec) t js"
      by (auto simp: submitted_views admitted_jobs_get [OF dist])
    moreover from js wf have "job_well_formed js" by (auto simp: dag_well_formed_def list_all_iff)
    moreover have "jr_remaining_dependencies job = in_degree spec j"
      using js by (auto simp: admitted_def dependency_counts_get Let_def)
    ultimately show ?thesis using True by (simp add: job_inv_admitted unmet_new)
  next
    case False
    with at sched_inv_job [OF inv] show ?thesis by (simp add: submitted_views unmet_old)
  qed
  then show ?thesis
    using struct' ready_inv_submitted [OF sched_inv_ready [OF inv] none dist]
    by (simp add: sched_inv_def sched_inv_owing_def)
qed

lemma submit_cases [consumes 1, case_names invalid exists full ready_full admitted]:
  assumes "submit spec t s = Some (s', r)"
  obtains e where "validate spec = Some (Inl e)" "s' = s" "r = Inl (Validation e)"
  | order where "validate spec = Some (Inr order)" "hm_contains_key (sc_dags s) (ds_id spec)" "s' = s" "r = Inl DagAlreadyExists"
  | order where "validate spec = Some (Inr order)" "max_dags (sc_config s) \<le> hm_len (sc_dags s)" "s' = s" "r = Inl Overloaded"
  | order where "validate spec = Some (Inr order)"
      "max_ready_jobs (sc_config s) < usize_saturating_add (rh_len (sc_ready s)) (root_count spec)" "s' = s" "r = Inl Overloaded"
  | order where "validate spec = Some (Inr order)" "\<not> hm_contains_key (sc_dags s) (ds_id spec)"
      "hm_len (sc_dags s) < max_dags (sc_config s)"
      "usize_saturating_add (rh_len (sc_ready s)) (root_count spec) \<le> max_ready_jobs (sc_config s)"
      "s' = submitted spec t s" "r = Inr ()"
proof -
  obtain r0 where v: "validate spec = Some r0" using validate_total by blast
  show ?thesis
  proof (cases r0)
    case (Inl e)
    with v assms submit_invalid [of spec e t s] that(1) show ?thesis by simp
  next
    case (Inr order)
    with v have v': "validate spec = Some (Inr order)" by simp
    note eq = assms [unfolded submit_eq [OF v']]
    consider "hm_contains_key (sc_dags s) (ds_id spec)"
      | "\<not> hm_contains_key (sc_dags s) (ds_id spec)" "max_dags (sc_config s) \<le> hm_len (sc_dags s)"
      | "\<not> hm_contains_key (sc_dags s) (ds_id spec)" "hm_len (sc_dags s) < max_dags (sc_config s)"
        "max_ready_jobs (sc_config s) < usize_saturating_add (rh_len (sc_ready s)) (root_count spec)"
      | "\<not> hm_contains_key (sc_dags s) (ds_id spec)" "hm_len (sc_dags s) < max_dags (sc_config s)"
        "usize_saturating_add (rh_len (sc_ready s)) (root_count spec) \<le> max_ready_jobs (sc_config s)"
      by (meson not_le)
    then show ?thesis
    proof cases
      case 1
      show ?thesis by (rule that(2) [OF v']) (use eq 1 in simp_all)
    next
      case 2
      show ?thesis by (rule that(3) [OF v']) (use eq 2 in simp_all)
    next
      case 3
      show ?thesis by (rule that(4) [OF v']) (use eq 3 in simp_all)
    next
      case 4
      show ?thesis by (rule that(5) [OF v']) (use eq 4 in simp_all)
    qed
  qed
qed

lemma sched_inv_submit:
  assumes "sched_inv s" "submit spec t s = Some (s', r)"
  shows "sched_inv s'"
  using assms(2)
  by (cases rule: submit_cases) (use assms(1) sched_inv_submitted in \<open>auto\<close>)

lemma submit_total: "\<exists>r. submit spec t s = Some r"
proof -
  obtain r where "validate spec = Some r" using validate_total by blast
  then show ?thesis using submit_eq submit_invalid by (cases r) (auto split: if_splits)
qed

end
