(* ===== verification/SchedulerMachine.thy ===== *)
theory SchedulerMachine
  imports SchedulerSubmit
begin

text \<open>
  The scheduler as a state machine. Every public method takes \<open>&mut self\<close>, so the calls of
  concurrent clients are a sequence of events; \<open>sched_step\<close> has one rule per method, \<open>runs\<close> is
  its closure, \<open>reachable\<close> the states a scheduler created with \<open>new\<close> can be in. Seen from one
  job a step is a short sequence of the micro-steps \<open>job_step\<close>, which is the lifecycle of a job
  with the effects on its record.
\<close>

section \<open>Events and steps\<close>

datatype event =
    Submit dag_spec millis
  | Claim byte_string millis millis
  | Heartbeat byte_string byte_string byte_string byte_string millis millis
  | Complete byte_string byte_string byte_string byte_string byte_string millis
  | Fail byte_string byte_string byte_string byte_string millis
  | Reap millis
  | Cancel byte_string

datatype reply =
    Rejected scheduler_error
  | Accepted
  | Granted "claimed_job option"
  | Renewed millis
  | Moved job_state
  | Counted nat

definition reply_of :: "('a \<Rightarrow> reply) \<Rightarrow> scheduler_error + 'a \<Rightarrow> reply" where
  "reply_of f r = (case r of Inl e \<Rightarrow> Rejected e | Inr x \<Rightarrow> f x)"

inductive sched_step :: "scheduler \<Rightarrow> event \<Rightarrow> reply \<Rightarrow> scheduler \<Rightarrow> bool" where
  step_submit: "submit spec t s = Some (s', r) \<Longrightarrow> sched_step s (Submit spec t) (reply_of (\<lambda>_. Accepted) r) s'"
| step_claim: "claim owner t lease_ms s = (s', r) \<Longrightarrow> sched_step s (Claim owner t lease_ms) (reply_of Granted r) s'"
| step_heartbeat: "heartbeat d j owner token t lease_ms s = (s', r) \<Longrightarrow>
    sched_step s (Heartbeat d j owner token t lease_ms) (reply_of Renewed r) s'"
| step_complete: "complete d j owner token result t s = (s', r) \<Longrightarrow>
    sched_step s (Complete d j owner token result t) (reply_of (\<lambda>_. Accepted) r) s'"
| step_fail: "fail d j owner token t s = (s', r) \<Longrightarrow>
    sched_step s (Fail d j owner token t) (reply_of Moved r) s'"
| step_reap: "reap t s = (s', n) \<Longrightarrow> sched_step s (Reap t) (Counted n) s'"
| step_cancel: "cancel d s = (s', r) \<Longrightarrow> sched_step s (Cancel d) (reply_of Counted r) s'"

inductive_simps sched_step_simps:
  "sched_step s (Submit spec t) r s'"
  "sched_step s (Claim owner t lease_ms) r s'"
  "sched_step s (Heartbeat d j owner token t lease_ms) r s'"
  "sched_step s (Complete d j owner token result t) r s'"
  "sched_step s (Fail d j owner token t) r s'"
  "sched_step s (Reap t) r s'"
  "sched_step s (Cancel d) r s'"

inductive runs :: "scheduler \<Rightarrow> scheduler \<Rightarrow> bool" where
  runs_refl: "runs s s"
| runs_step: "runs s s' \<Longrightarrow> sched_step s' e r s'' \<Longrightarrow> runs s s''"

definition reachable :: "scheduler_config \<Rightarrow> scheduler \<Rightarrow> bool" where
  "reachable config s \<longleftrightarrow> runs (new_scheduler config) s"

lemma runs_trans: "runs s' s'' \<Longrightarrow> runs s s' \<Longrightarrow> runs s s''"
  by (induction rule: runs.induct) (auto intro: runs.intros)

lemma sched_step_result:
  "sched_step s (Claim owner t lease_ms) (reply_of Granted (snd (claim owner t lease_ms s))) (fst (claim owner t lease_ms s))"
  "sched_step s (Heartbeat d j owner token t lease_ms)
     (reply_of Renewed (snd (heartbeat d j owner token t lease_ms s))) (fst (heartbeat d j owner token t lease_ms s))"
  "sched_step s (Complete d j owner token result t)
     (reply_of (\<lambda>_. Accepted) (snd (complete d j owner token result t s))) (fst (complete d j owner token result t s))"
  "sched_step s (Fail d j owner token t)
     (reply_of Moved (snd (fail d j owner token t s))) (fst (fail d j owner token t s))"
  "sched_step s (Reap t) (Counted (snd (reap t s))) (fst (reap t s))"
  "sched_step s (Cancel d) (reply_of Counted (snd (cancel d s))) (fst (cancel d s))"
  by (simp_all add: sched_step.intros)

text \<open>Every event has an answer: no call hangs or panics.\<close>

lemma sched_step_total: "\<exists>r s'. sched_step s e r s'"
proof (cases e)
  case (Submit spec t)
  obtain p where "submit spec t s = Some p" using submit_total by blast
  then have "submit spec t s = Some (fst p, snd p)" by simp
  with Submit step_submit show ?thesis by blast
next
  case (Claim owner t lease_ms)
  show ?thesis unfolding Claim using sched_step_result(1) by blast
next
  case (Heartbeat d j owner token t lease_ms)
  show ?thesis unfolding Heartbeat using sched_step_result(2) by blast
next
  case (Complete d j owner token result t)
  show ?thesis unfolding Complete using sched_step_result(3) by blast
next
  case (Fail d j owner token t)
  show ?thesis unfolding Fail using sched_step_result(4) by blast
next
  case (Reap t)
  show ?thesis unfolding Reap using sched_step_result(5) by blast
next
  case (Cancel d)
  show ?thesis unfolding Cancel using sched_step_result(6) by blast
qed

section \<open>The invariant holds in every reachable state\<close>

lemma sched_inv_new: "sched_inv (new_scheduler config)"
  by (auto simp: sched_inv_def sched_inv_owing_def struct_inv_def new_scheduler_def job_at_def
      ready_inv_def rh_new_def rh_wf_def hm_new_def hm_len_def hm_get_def hm_wf_def)

lemma sched_inv_step:
  assumes "sched_inv s" "sched_step s e r s'"
  shows "sched_inv s'"
  using assms(2)
proof (cases rule: sched_step.cases)
  case (step_submit spec t r)
  with assms(1) show ?thesis by (blast intro: sched_inv_submit)
next
  case (step_claim owner t lease_ms r)
  then show ?thesis using sched_inv_claim [OF assms(1)] by (metis fst_conv)
next
  case (step_heartbeat d j owner token t lease_ms r)
  then show ?thesis using sched_inv_heartbeat [OF assms(1)] by (metis fst_conv)
next
  case (step_complete d j owner token result t r)
  then show ?thesis using sched_inv_complete [OF assms(1)] by (metis fst_conv)
next
  case (step_fail d j owner token t r)
  then show ?thesis using sched_inv_fail [OF assms(1)] by (metis fst_conv)
next
  case (step_reap t n)
  then show ?thesis using sched_inv_reap [OF assms(1)] by (metis fst_conv)
next
  case (step_cancel d r)
  then show ?thesis using sched_inv_cancel [OF assms(1)] by (metis fst_conv)
qed

lemma sched_inv_runs: "runs s s' \<Longrightarrow> sched_inv s \<Longrightarrow> sched_inv s'"
  by (induction rule: runs.induct) (auto intro: sched_inv_step)

lemma sched_inv_reachable: "reachable config s \<Longrightarrow> sched_inv s"
  unfolding reachable_def by (rule sched_inv_runs [OF _ sched_inv_new])

section \<open>One job\<close>

text \<open>
  The micro-steps of a job \<open>(d, j)\<close>; a grant carries a token numbered above \<open>lo\<close>, the sequence
  number before, and at most \<open>hi\<close>, the one after, unless the counter is saturated.
\<close>

inductive job_step :: "byte_string \<Rightarrow> byte_string \<Rightarrow> nat \<Rightarrow> nat \<Rightarrow> job_record \<Rightarrow> job_record \<Rightarrow> bool"
  for d j lo hi where
  job_counted: "n \<le> jr_remaining_dependencies job \<Longrightarrow>
    job_step d j lo hi job (job\<lparr>jr_remaining_dependencies := n\<rparr>)"
| job_released: "jr_state job = Pending \<Longrightarrow>
    job_step d j lo hi job (job\<lparr>jr_remaining_dependencies := 0, jr_state := Ready, jr_available_at_ms := t\<rparr>)"
| job_granted: "claimable_state (jr_state job) \<Longrightarrow> lo < n \<or> n = U64_MAX \<Longrightarrow> n \<le> hi \<Longrightarrow>
    job_step d j lo hi job (leased_job owner (lease_token d j n) e job)"
| job_renewed: "jr_state job = Leased \<Longrightarrow> job_step d j lo hi job (renewed e job)"
| job_requeued: "jr_state job = Leased \<Longrightarrow> job_step d j lo hi job (requeued config j t job)"
| job_finished: "jr_state job = Leased \<Longrightarrow> job_step d j lo hi job (finished result job)"
| job_cancelled: "\<not> is_terminal (jr_state job) \<Longrightarrow> job_step d j lo hi job (cancel_job job)"

abbreviation job_steps where
  "job_steps d j lo hi \<equiv> (job_step d j lo hi)\<^sup>*\<^sup>*"

lemma job_step_widen:
  assumes "job_step d j lo hi job job'" "lo' \<le> lo" "hi \<le> hi'"
  shows "job_step d j lo' hi' job job'"
  using assms(1)
proof (cases rule: job_step.cases)
  case (job_granted n owner e)
  then show ?thesis using assms(2,3) job_step.job_granted [of job lo' n hi'] by auto
qed (auto intro: job_step.intros)

lemma job_steps_widen:
  assumes "job_steps d j lo hi job job'" "lo' \<le> lo" "hi \<le> hi'"
  shows "job_steps d j lo' hi' job job'"
  using assms(1)
  by (induction rule: rtranclp_induct) (auto intro: rtranclp.rtrancl_into_rtrancl job_step_widen assms(2,3))

text \<open>A freshly admitted job.\<close>

definition fresh_job :: "job_record \<Rightarrow> bool" where
  "fresh_job job \<longleftrightarrow> (jr_state job = Pending \<or> jr_state job = Ready) \<and> jr_attempts job = 0 \<and>
     jr_lease job = None \<and> jr_result job = None"

definition job_evolves :: "byte_string \<Rightarrow> byte_string \<Rightarrow> scheduler \<Rightarrow> scheduler \<Rightarrow> bool" where
  "job_evolves d j s s' \<longleftrightarrow>
     sc_sequence s \<le> sc_sequence s' \<and>
     (case job_at s d j of
        None \<Rightarrow> (\<forall>job'. job_at s' d j = Some job' \<longrightarrow> fresh_job job')
      | Some job \<Rightarrow> \<exists>job'. job_at s' d j = Some job' \<and> job_steps d j (sc_sequence s) (sc_sequence s') job job')"

lemma job_evolves_step:
  "sc_sequence s' = sc_sequence s \<Longrightarrow>
   (\<And>job. job_at s d j = Some job \<Longrightarrow> job_step d j (sc_sequence s) (sc_sequence s) job (f job) \<or> f job = job) \<Longrightarrow>
   job_at s' d j = map_option f (job_at s d j) \<Longrightarrow> job_evolves d j s s'"
  by (fastforce simp: job_evolves_def split: option.split)

lemma job_evolves_refl [simp]: "job_evolves d j s s"
  by (rule job_evolves_step [where f = "\<lambda>x. x"]) (simp_all add: option.map_ident)

lemma evolves_retry:
  assumes "job_at s d j = Some job" "jr_state job = Leased"
  shows "job_evolves d' j' s (fst (retry_or_dead_letter d j now s))"
  by (rule job_evolves_step [where f = "if d' = d \<and> j' = j then requeued (sc_config s) j now else (\<lambda>x. x)"])
    (use assms in \<open>auto simp: job_at_retry option.map_ident intro: job_step.intros\<close>)

lemma evolves_reap:
  assumes "sched_inv s"
  shows "job_evolves d j s (fst (reap now s))"
  by (rule job_evolves_step [where f = "\<lambda>job. if lease_expired now job then requeued (sc_config s) j now job else job"])
    (auto simp: job_at_reap [OF sched_inv_struct [OF assms]] intro: job_step.intros dest: lease_expired_leased)

lemma evolves_heartbeat: "job_evolves d' j' s (fst (heartbeat d j owner token now lease_ms s))"
proof (cases "lease_matches s d j owner token now \<and> 0 < lease_ms \<and> lease_ms \<le> max_lease_ms (sc_config s)")
  case True
  then obtain job where job: "job_at s d j = Some job" "jr_state job = Leased" by (auto elim: lease_matchesE)
  let ?e = "i64_saturating_add now lease_ms"
  show ?thesis
    by (rule job_evolves_step [where f = "if d' = d \<and> j' = j then renewed ?e else (\<lambda>x. x)"])
      (use True job in \<open>auto simp: heartbeat_eq option.map_ident intro: job_step.intros\<close>)
qed (auto simp: heartbeat_eq)

lemma evolves_cancel: "job_evolves d' j' s (fst (cancel d s))"
proof (cases "hm_get (sc_dags s) d")
  case (Some dag)
  have "job_step d j lo hi job (cancel_job job) \<or> cancel_job job = job" for j lo hi job
    using job_step.job_cancelled [of job d j lo hi] by (cases "is_terminal (jr_state job)") (auto simp: cancel_job_def)
  then show ?thesis
    by (intro job_evolves_step [where f = "if d' = d then cancel_job else (\<lambda>x. x)"])
      (auto simp: cancel_views [OF Some] option.map_ident)
qed (simp add: cancel_missing)

lemma released_by_step: "job_step d j lo hi job (released_by t n job)"
proof (cases "jr_remaining_dependencies job - n = 0 \<and> jr_state job = Pending")
  case True
  have "released_by t n job = job\<lparr>jr_remaining_dependencies := 0, jr_state := Ready, jr_available_at_ms := t\<rparr>"
    unfolding released_by_def if_P [OF True] ..
  then show ?thesis using True by (auto intro: job_step.intros)
next
  case False
  have "released_by t n job = job\<lparr>jr_remaining_dependencies := jr_remaining_dependencies job - n\<rparr>"
    unfolding released_by_def if_not_P [OF False] ..
  then show ?thesis by (auto intro: job_step.intros)
qed

lemma evolves_complete:
  assumes inv: "sched_inv s"
  shows "job_evolves d' j' s (fst (complete d j owner token result now s))"
proof (cases "length result \<le> MAX_PAYLOAD_BYTES \<and> lease_matches s d j owner token now")
  case True
  then obtain job where job: "job_at s d j = Some job" "jr_state job = Leased" by (auto elim: lease_matchesE)
  let ?f = "if d' = d then completed_job now result (dependents_at s d j) j j' else (\<lambda>x. x)"
  from complete_accepted [OF inv] True obtain s' where
    s': "complete d j owner token result now s = (s', Inr ())" "sc_sequence s' = sc_sequence s"
      "job_at s' d' j' = map_option ?f (job_at s d' j')"
    by (force simp: option.map_ident)
  show ?thesis unfolding s'(1) fst_conv
    by (rule job_evolves_step [OF s'(2) _ s'(3)])
      (use job in \<open>auto simp: completed_job_def released_by_step intro: job_step.intros\<close>)
next
  case False
  with complete_rejected show ?thesis by (metis fst_conv job_evolves_refl not_less)
qed

lemma evolves_claim:
  assumes inv: "sched_inv s"
  shows "job_evolves d' j' s (fst (claim owner now lease_ms s))"
proof -
  obtain s' r where c: "claim owner now lease_ms s = (s', r)" by fastforce
  note reap = evolves_reap [OF inv, of d' j' now]
  from inv c show ?thesis
  proof (cases rule: claim_cases)
    case rejected
    with c show ?thesis by simp
  next
    case (nothing h)
    with c reap show ?thesis by (auto simp: job_evolves_def split: option.splits)
  next
    case (granted cj)
    let ?s1 = "fst (reap now s)" and ?n = "u64_saturating_add (sc_sequence s) 1"
    from granted(4) obtain d j job h e where g: "claimable_at ?s1 d j job"
      "s' = (job_write d j (leased_job owner (lease_token d j ?n) e) ?s1)\<lparr>sc_ready := h, sc_sequence := ?n\<rparr>"
      by (auto simp: claim_granted_def Let_def)
    have n: "sc_sequence s \<le> ?n" "sc_sequence s < ?n \<or> ?n = U64_MAX"
      using sched_inv_seq [OF inv] by (auto simp: u64_saturating_add_def)
    have step: "job_step d j (sc_sequence s) ?n job (leased_job owner (lease_token d j ?n) e job)"
      using g(1) n by (intro job_step.job_granted) (auto simp: claimable_at_def)
    show ?thesis
    proof (cases "job_at s d' j'")
      case None
      with reap have "fresh_job job' " if "job_at ?s1 d' j' = Some job'" for job'
        using that by (simp add: job_evolves_def)
      moreover have "job_at ?s1 d' j' = None"
        using None by (simp add: job_at_reap [OF sched_inv_struct [OF inv]])
      ultimately show ?thesis
        using None g(1) n(1) by (auto simp: c g(2) job_evolves_def claimable_at_def)
    next
      case (Some job0)
      with reap obtain job1 where job1: "job_at ?s1 d' j' = Some job1"
        "job_steps d' j' (sc_sequence s) (sc_sequence s) job0 job1" by (auto simp: job_evolves_def)
      note steps = job_steps_widen [OF job1(2) order_refl n(1)]
      show ?thesis
      proof (cases "d' = d \<and> j' = j")
        case True
        with g(1) job1(1) have "job1 = job" by (simp add: claimable_at_def)
        with True steps step have "job_steps d j (sc_sequence s) ?n job0 (leased_job owner (lease_token d j ?n) e job)"
          by (metis rtranclp.rtrancl_into_rtrancl)
        with True Some job1(1) g(1) n(1) show ?thesis
          by (simp add: c g(2) job_evolves_def claimable_at_def)
      next
        case False
        with Some job1(1) steps n(1) show ?thesis by (auto simp: c g(2) job_evolves_def)
      qed
    qed
  qed
qed

lemma evolves_fail: "job_evolves d' j' s (fst (fail d j owner token now s))"
  by (auto simp: fail_eq intro: evolves_retry elim!: lease_matchesE)

lemma fresh_admitted: "fresh_job (admitted counts t job)"
  by (simp add: fresh_job_def admitted_def Let_def)

lemma evolves_submit:
  assumes "submit spec t s = Some (s', r)"
  shows "job_evolves d j s s'"
  using assms
proof (cases rule: submit_cases)
  case (admitted order)
  have dist: "distinct (job_ids spec)"
    using validate_Inr_well_formed [OF admitted(1)] by (simp add: dag_well_formed_def)
  have "job_at s (ds_id spec) j = None" using admitted(2) by (simp add: job_at_def hm_contains_key_def)
  then show ?thesis
    by (auto simp: admitted(5) job_evolves_def submitted_views admitted_jobs_get [OF dist] fresh_admitted
        split: option.split)
qed simp_all

lemma sched_step_evolves:
  assumes inv: "sched_inv s" and step: "sched_step s e r s'"
  shows "job_evolves d j s s'"
  using step
proof (cases rule: sched_step.cases)
  case (step_submit spec t r)
  then show ?thesis by (blast intro: evolves_submit)
next
  case (step_claim owner t lease_ms r)
  then show ?thesis using evolves_claim [OF inv] by (metis fst_conv)
next
  case (step_heartbeat d j owner token t lease_ms r)
  then show ?thesis using evolves_heartbeat by (metis fst_conv)
next
  case (step_complete d j owner token result t r)
  then show ?thesis using evolves_complete [OF inv] by (metis fst_conv)
next
  case (step_fail d j owner token t r)
  then show ?thesis using evolves_fail by (metis fst_conv)
next
  case (step_reap t n)
  then show ?thesis using evolves_reap [OF inv] by (metis fst_conv)
next
  case (step_cancel d r)
  then show ?thesis using evolves_cancel by (metis fst_conv)
qed

lemma runs_evolves:
  assumes "runs s s'" "sched_inv s" "job_at s d j = Some job"
  shows "sc_sequence s \<le> sc_sequence s' \<and>
    (\<exists>job'. job_at s' d j = Some job' \<and> job_steps d j (sc_sequence s) (sc_sequence s') job job')"
  using assms
proof (induction rule: runs.induct)
  case (runs_step s s' e r s'')
  then obtain job' where job': "sc_sequence s \<le> sc_sequence s'" "job_at s' d j = Some job'"
    "job_steps d j (sc_sequence s) (sc_sequence s') job job'" by auto
  from sched_step_evolves [OF sched_inv_runs [OF runs_step(1,4)] runs_step(2), of d j] job'(2)
  obtain job'' where job'': "sc_sequence s' \<le> sc_sequence s''" "job_at s'' d j = Some job''"
    "job_steps d j (sc_sequence s') (sc_sequence s'') job' job''" by (auto simp: job_evolves_def)
  have "job_steps d j (sc_sequence s) (sc_sequence s'') job job''"
    using job_steps_widen [OF job'(3) order_refl job''(1)] job_steps_widen [OF job''(3) job'(1) order_refl]
    by (rule rtranclp_trans)
  with job'(1) job'' show ?case by auto
qed auto

section \<open>What never changes\<close>

lemma dependents_retry_result [simp]: "dependents_map (fst (retry_or_dead_letter d j now s)) d' = dependents_map s d'"
  by simp

lemma frame_complete:
  assumes "sched_inv s"
  shows "sc_config (fst (complete d j owner token result now s)) = sc_config s \<and>
    dependents_map (fst (complete d j owner token result now s)) = dependents_map s"
proof (cases "length result \<le> MAX_PAYLOAD_BYTES \<and> lease_matches s d j owner token now")
  case True
  with complete_accepted [OF assms] show ?thesis by (metis fst_conv)
next
  case False
  with complete_rejected show ?thesis by (metis fst_conv not_less)
qed

lemma frame_claim:
  assumes inv: "sched_inv s"
  shows "sc_config (fst (claim owner now lease_ms s)) = sc_config s \<and>
    dependents_map (fst (claim owner now lease_ms s)) = dependents_map s"
proof -
  obtain s' r where c: "claim owner now lease_ms s = (s', r)" by fastforce
  from inv c show ?thesis
    by (cases rule: claim_cases) (auto simp: c claim_granted_def Let_def)
qed

lemma sched_step_frame:
  assumes inv: "sched_inv s" and step: "sched_step s e r s'"
  shows "sc_config s' = sc_config s \<and>
    (job_at s d j \<noteq> None \<longrightarrow> dependents_map s' d = dependents_map s d)"
  using step
proof (cases rule: sched_step.cases)
  case (step_submit spec t r')
  from step_submit(3) show ?thesis
  proof (cases rule: submit_cases)
    case (admitted order)
    then have "job_at s d j = None" if "d = ds_id spec"
      using that by (simp add: job_at_def hm_contains_key_def)
    then show ?thesis by (auto simp: admitted(5) submitted_views)
  qed simp_all
next
  case (step_claim owner t lease_ms r)
  then show ?thesis using frame_claim [OF inv] by (metis fst_conv)
next
  case (step_heartbeat d j owner token t lease_ms r)
  then show ?thesis by (auto simp: heartbeat_eq split: if_splits)
next
  case (step_complete d j owner token result t r)
  then show ?thesis using frame_complete [OF inv] by (metis fst_conv)
next
  case (step_fail d j owner token t r)
  then show ?thesis by (auto simp: fail_eq split: if_splits dest!: arg_cong [where f = fst])
next
  case (step_reap t n)
  then show ?thesis by (metis fst_conv reap_frame(1,3))
next
  case (step_cancel d' r)
  then show ?thesis
    using cancel_views(2,5) [of s d'] cancel_missing [of s d'] by (cases "hm_get (sc_dags s) d'") auto
qed

lemma runs_frame:
  assumes "runs s s'" "sched_inv s"
  shows "sc_config s' = sc_config s \<and> (job_at s d j \<noteq> None \<longrightarrow> dependents_map s' d = dependents_map s d)"
  using assms
proof (induction rule: runs.induct)
  case (runs_step s s' e r s'')
  have "job_at s' d j \<noteq> None" if "job_at s d j \<noteq> None"
    using that runs_evolves [OF runs_step(1,4)] by blast
  with runs_step sched_step_frame [OF sched_inv_runs [OF runs_step(1,4)] runs_step(2), of d j] show ?case by auto
qed simp

text \<open>An answer that rejects the call leaves the scheduler as it was.\<close>

lemma reply_of_Rejected: "reply_of f r = Rejected e \<Longrightarrow> (\<And>x. f x \<noteq> Rejected e) \<Longrightarrow> r = Inl e"
  by (cases r) (auto simp: reply_of_def)

end
