(* ===== verification/SchedulerLifecycle.thy ===== *)
theory SchedulerLifecycle
  imports SchedulerMachine
begin

text \<open>
  What the micro-steps of a job preserve: the lifecycle of job states, the attempt counter, the
  result, and the fencing of lease tokens. The contract \<open>token_fencing\<close> is what any store of
  leases has to promise so that a worker that lost its lease can never use it again; the
  in-memory scheduler provides it as long as its 64-bit sequence counter is not exhausted.
\<close>

section \<open>The lifecycle of a job\<close>

inductive lifecycle :: "job_state \<Rightarrow> job_state \<Rightarrow> bool" where
  "lifecycle Pending Ready"
| "lifecycle Ready Leased"
| "lifecycle RetryWait Leased"
| "lifecycle Leased Succeeded"
| "lifecycle Leased RetryWait"
| "lifecycle Leased DeadLettered"
| "\<not> is_terminal st \<Longrightarrow> lifecycle st Cancelled"

inductive_simps lifecycle_from [simp]:
  "lifecycle Succeeded st" "lifecycle DeadLettered st" "lifecycle Cancelled st"

lemma is_terminal_simps [simp]:
  "is_terminal Succeeded" "is_terminal DeadLettered" "is_terminal Cancelled"
  "\<not> is_terminal Pending" "\<not> is_terminal Ready" "\<not> is_terminal RetryWait" "\<not> is_terminal Leased"
  by (simp_all add: is_terminal_def)

lemma lifecycle_terminal: "is_terminal st \<Longrightarrow> \<not> lifecycle st st'"
  by (cases st) simp_all

lemma lifecycle_star_terminal:
  assumes "lifecycle\<^sup>*\<^sup>* st st'" "is_terminal st"
  shows "st' = st"
  using assms by (induction rule: rtranclp_induct) (auto dest: lifecycle_terminal)

lemmas lifecycle_one = lifecycle.intros [THEN r_into_rtranclp [of lifecycle]]

lemma job_step_lifecycle:
  assumes "job_step d j lo hi job job'"
  shows "lifecycle\<^sup>*\<^sup>* (jr_state job) (jr_state job')"
  using assms
proof (cases rule: job_step.cases)
  case (job_requeued config t)
  then show ?thesis by (auto simp: requeued_def intro: lifecycle_one)
qed (auto simp: leased_job_def renewed_def finished_def claimable_state_def intro: lifecycle_one)

lemma job_steps_lifecycle:
  "job_steps d j lo hi job job' \<Longrightarrow> lifecycle\<^sup>*\<^sup>* (jr_state job) (jr_state job')"
  by (induction rule: rtranclp_induct) (auto intro: rtranclp_trans job_step_lifecycle)

section \<open>Specification, attempts and result\<close>

lemma job_step_frame:
  assumes "job_step d j lo hi job job'" "jr_attempts job \<le> U16_MAX"
  shows "jr_spec job' = jr_spec job \<and> jr_attempts job \<le> jr_attempts job' \<and> jr_attempts job' \<le> U16_MAX"
  using assms by (cases rule: job_step.cases) (auto simp: leased_job_def renewed_def finished_def u16_saturating_add_def)

lemma job_steps_frame:
  assumes "job_steps d j lo hi job job'" "jr_attempts job \<le> U16_MAX"
  shows "jr_spec job' = jr_spec job \<and> jr_attempts job \<le> jr_attempts job' \<and> jr_attempts job' \<le> U16_MAX"
  using assms
proof (induction rule: rtranclp_induct)
  case (step job' job'')
  then show ?case using job_step_frame [OF step.hyps(2)] by (metis order_trans)
qed simp

text \<open>A job in a terminal state only ever loses dependency counts.\<close>

lemma job_step_terminal:
  assumes "job_step d j lo hi job job'" "is_terminal (jr_state job)"
  shows "jr_state job' = jr_state job \<and> jr_result job' = jr_result job \<and>
    jr_attempts job' = jr_attempts job \<and> jr_lease job' = jr_lease job"
  using assms by (cases rule: job_step.cases) (auto simp: claimable_state_def)

lemma job_steps_terminal:
  assumes "job_steps d j lo hi job job'" "is_terminal (jr_state job)"
  shows "jr_state job' = jr_state job \<and> jr_result job' = jr_result job \<and>
    jr_attempts job' = jr_attempts job \<and> jr_lease job' = jr_lease job"
  using assms
proof (induction rule: rtranclp_induct)
  case (step job' job'')
  then show ?case using job_step_terminal [OF step.hyps(2)] by simp
qed simp

section \<open>Fencing\<close>

text \<open>
  A holder map, the tokens issued so far and a step relation. A step may only install a token
  that was not issued before.
\<close>

locale token_fencing =
  fixes inv :: "'s \<Rightarrow> bool"
    and step :: "'s \<Rightarrow> 's \<Rightarrow> bool"
    and holder :: "'s \<Rightarrow> 'i \<Rightarrow> 't option"
    and issued :: "'s \<Rightarrow> 'i \<Rightarrow> 't \<Rightarrow> bool"
  assumes inv_step: "inv s \<Longrightarrow> step s s' \<Longrightarrow> inv s'"
    and issued_step: "inv s \<Longrightarrow> step s s' \<Longrightarrow> issued s i t \<Longrightarrow> issued s' i t"
    and holder_issued: "inv s \<Longrightarrow> holder s i = Some t \<Longrightarrow> issued s i t"
    and holder_step: "inv s \<Longrightarrow> step s s' \<Longrightarrow> holder s' i = Some t \<Longrightarrow> holder s i = Some t \<or> \<not> issued s i t"
begin

lemma inv_steps: "step\<^sup>*\<^sup>* s s' \<Longrightarrow> inv s \<Longrightarrow> inv s'"
  by (induction rule: rtranclp_induct) (auto intro: inv_step)

text \<open>A token that was issued and is not held is never held again.\<close>

lemma fenced:
  assumes "step\<^sup>*\<^sup>* s s'" "inv s" "issued s i t" "holder s i \<noteq> Some t"
  shows "holder s' i \<noteq> Some t \<and> issued s' i t"
  using assms
proof (induction rule: rtranclp_induct)
  case (step s' s'')
  then have "inv s'" using inv_steps by blast
  with step show ?case using holder_step issued_step by blast
qed simp

text \<open>Once another token is held, the earlier holder is fenced off for good.\<close>

lemma superseded:
  assumes "inv s" "holder s i = Some t" "step\<^sup>*\<^sup>* s s'" "holder s' i \<noteq> Some t" "step\<^sup>*\<^sup>* s' s''"
  shows "holder s'' i \<noteq> Some t"
proof -
  have "issued s' i t" using assms(1-3)
  proof (induction rule: rtranclp_induct [OF assms(3)])
    case 1
    then show ?case using holder_issued assms(1,2) by blast
  next
    case (2 s1 s2)
    then show ?case using issued_step inv_steps assms(1) by blast
  qed
  with fenced [OF assms(5) inv_steps [OF assms(3,1)]] assms(4) show ?thesis by blast
qed

end

lemma lease_token_inj: "lease_token d j m = lease_token d j n \<Longrightarrow> m = n"
  by (simp add: lease_token_def show_nat_inj)

definition lease_holder :: "scheduler \<Rightarrow> byte_string \<times> byte_string \<Rightarrow> byte_string option" where
  "lease_holder s = (\<lambda>(d, j). case job_at s d j of None \<Rightarrow> None | Some job \<Rightarrow> map_option ls_token (jr_lease job))"

definition token_issued :: "scheduler \<Rightarrow> byte_string \<times> byte_string \<Rightarrow> byte_string \<Rightarrow> bool" where
  "token_issued s = (\<lambda>(d, j) token. \<exists>n. 1 \<le> n \<and> n \<le> sc_sequence s \<and> token = lease_token d j n)"

definition numbered_step :: "scheduler \<Rightarrow> scheduler \<Rightarrow> bool" where
  "numbered_step s s' \<longleftrightarrow> (\<exists>e r. sched_step s e r s') \<and> sc_sequence s' < U64_MAX"

lemma job_step_token:
  assumes "job_step d j lo hi job job'" "hi < U64_MAX" "jr_lease job' = Some l'"
  shows "(\<exists>l. jr_lease job = Some l \<and> ls_token l = ls_token l') \<or> (\<exists>n>lo. ls_token l' = lease_token d j n)"
  using assms
  by (cases rule: job_step.cases)
    (auto simp: leased_job_def renewed_def finished_def cancel_job_def split: if_splits)

lemma job_steps_token:
  assumes "job_steps d j lo hi job job'" "hi < U64_MAX" "jr_lease job' = Some l'"
  shows "(\<exists>l. jr_lease job = Some l \<and> ls_token l = ls_token l') \<or> (\<exists>n>lo. ls_token l' = lease_token d j n)"
  using assms(1,3)
proof (induction arbitrary: l' rule: rtranclp_induct)
  case (step job' job'')
  from job_step_token [OF step.hyps(2) assms(2) step.prems] step.IH show ?case by metis
qed auto

lemma sched_holder_step:
  assumes inv: "sched_inv s" and step: "numbered_step s s'"
    and held: "lease_holder s' (d, j) = Some t" and issued: "token_issued s (d, j) t"
  shows "lease_holder s (d, j) = Some t"
proof -
  from held obtain job' l' where job': "job_at s' d j = Some job'" "jr_lease job' = Some l'" "ls_token l' = t"
    by (auto simp: lease_holder_def split: option.splits)
  from step sched_step_evolves [OF inv] have ev: "job_evolves d j s s'" "sc_sequence s' < U64_MAX"
    by (auto simp: numbered_step_def)
  obtain job where job: "job_at s d j = Some job"
    using ev(1) job'(1,2) by (cases "job_at s d j") (auto simp: job_evolves_def fresh_job_def)
  with ev(1) job'(1) have "job_steps d j (sc_sequence s) (sc_sequence s') job job'" by (simp add: job_evolves_def)
  from job_steps_token [OF this ev(2) job'(2)] issued job job'(3) show ?thesis
    by (force simp: lease_holder_def token_issued_def dest: lease_token_inj)
qed

interpretation sched_fence: token_fencing sched_inv numbered_step lease_holder token_issued
proof unfold_locales
  fix s s' :: scheduler and i t
  show "sched_inv s \<Longrightarrow> numbered_step s s' \<Longrightarrow> sched_inv s'"
    by (auto simp: numbered_step_def intro: sched_inv_step)
  show "token_issued s' i t" if "sched_inv s" "numbered_step s s'" "token_issued s i t"
  proof -
    have "sc_sequence s \<le> sc_sequence s'"
      using that(1,2) sched_step_evolves by (auto simp: numbered_step_def job_evolves_def)
    with that(3) show ?thesis by (auto simp: token_issued_def split: prod.splits)
  qed
  show "token_issued s i t" if "sched_inv s" "lease_holder s i = Some t"
    using that sched_inv_job(2) [OF that(1)]
    by (fastforce simp: lease_holder_def token_issued_def lease_inv_def split: prod.splits option.splits)
  show "lease_holder s i = Some t \<or> \<not> token_issued s i t"
    if "sched_inv s" "numbered_step s s'" "lease_holder s' i = Some t"
    using that sched_holder_step by (cases i) blast
qed

lemma runs_numbered:
  assumes "runs s s'" "sched_inv s" "sc_sequence s' < U64_MAX"
  shows "numbered_step\<^sup>*\<^sup>* s s'"
  using assms
proof (induction rule: runs.induct)
  case (runs_step s s' e r s'')
  have "sc_sequence s' \<le> sc_sequence s''"
    using sched_step_evolves [OF sched_inv_runs [OF runs_step(1,4)] runs_step(2)]
    by (auto simp: job_evolves_def)
  with runs_step have "numbered_step\<^sup>*\<^sup>* s s'" by simp
  moreover have "numbered_step s' s''" using runs_step by (auto simp: numbered_step_def)
  ultimately show ?case by simp
qed simp

lemma not_held_no_match:
  "lease_holder s (d, j) \<noteq> Some token \<Longrightarrow> \<not> lease_matches s d j owner token now"
  by (auto simp: lease_holder_def elim!: lease_matchesE)

end
