(* ===== verification/SchedulerProgress.thy ===== *)
theory SchedulerProgress
  imports SchedulerLifecycle
begin

text \<open>
  Progress. A pending job always waits for an ancestor that is not pending and has not
  succeeded, so a graph whose jobs are all pending or succeeded is finished; and one worker that
  keeps claiming and completing at a fixed time (\<open>drain\<close>) finishes every graph in which no job
  was dead-lettered or cancelled, within as many rounds as there are unfinished jobs.
\<close>

section \<open>Who a pending job waits for\<close>

lemma finite_dependency_graph: "finite (dependency_graph deps)"
proof (rule finite_subset)
  show "dependency_graph deps \<subseteq> (SIGMA p:fst ` set deps. set (hm_get_list deps p))"
  proof clarify
    fix p c
    assume "(p, c) \<in> dependency_graph deps"
    then have c: "c \<in> set (hm_get_list deps p)" by (simp add: dependency_graph_def)
    then have "hm_get deps p \<noteq> None" by (cases "hm_get deps p") (auto simp: hm_get_list_def)
    with c show "p \<in> fst ` set deps \<and> c \<in> set (hm_get_list deps p)"
      using hm_get_None_iff [of deps p] by simp
  qed
qed auto

lemma dependents_acyclic: "struct_inv s \<Longrightarrow> acyclic (dependency_graph (dependents_map s d))"
  by (cases "hm_get (sc_dags s) d")
    (auto simp: struct_inv_def dependents_map_def dag_inv_def dependency_graph_def hm_get_list_def acyclic_def)

lemma pending_waits:
  assumes inv: "sched_inv s" and "job_at s d j = Some job" "jr_state job = Pending"
  shows "\<exists>p parent. (p, j) \<in> (dependency_graph (dependents_map s d))\<^sup>+ \<and> job_at s d p = Some parent \<and>
    jr_state parent \<noteq> Pending \<and> jr_state parent \<noteq> Succeeded"
proof -
  let ?G = "dependency_graph (dependents_map s d)"
  note struct = sched_inv_struct [OF inv]
  have "wf ?G" by (rule finite_acyclic_wf [OF finite_dependency_graph dependents_acyclic [OF struct]])
  then show ?thesis using assms(2,3)
  proof (induction j arbitrary: job rule: wf_induct_rule)
    case (less j)
    have "0 < unmet s d j"
      using sched_inv_job(1,3) [OF inv less.prems(1)] less.prems(2) by (simp add: job_inv_def Let_def)
    then obtain p where p: "j \<in> set (dependents_at s d p)" "\<not> succeeded s d p"
      using unmet_0_iff [OF struct_inv_dependents_wf [OF struct]] by (metis neq0_conv)
    then have edge: "(p, j) \<in> ?G" by (simp add: dependency_graph_def dependents_at_def)
    obtain parent where parent: "job_at s d p = Some parent"
      using dependents_known(1) [OF struct p(1)] by blast
    with p(2) have ns: "jr_state parent \<noteq> Succeeded" by (simp add: succeeded_def)
    show ?case
    proof (cases "jr_state parent = Pending")
      case True
      from less.IH [OF edge parent True] edge show ?thesis by (meson trancl.trancl_into_trancl)
    next
      case False
      with edge parent ns show ?thesis by blast
    qed
  qed
qed

section \<open>A worker that never fails\<close>

fun drain :: "byte_string \<Rightarrow> byte_string \<Rightarrow> millis \<Rightarrow> millis \<Rightarrow> nat \<Rightarrow> scheduler \<Rightarrow> scheduler" where
  "drain owner result now lease_ms 0 s = s"
| "drain owner result now lease_ms (Suc n) s =
     (case claim owner now lease_ms s of
        (s1, Inr (Some cj)) \<Rightarrow>
          drain owner result now lease_ms n
            (fst (complete (cj_dag_id cj) (cj_job_id cj) owner (cj_lease_token cj) result now s1))
      | (s1, _) \<Rightarrow> s1)"

text \<open>Nothing is leased and everything claimable is due.\<close>

definition idle :: "millis \<Rightarrow> scheduler \<Rightarrow> bool" where
  "idle now s \<longleftrightarrow> sched_inv s \<and> (\<forall>d j job. job_at s d j = Some job \<longrightarrow>
     jr_state job \<noteq> Leased \<and> (claimable_state (jr_state job) \<longrightarrow> jr_available_at_ms job \<le> now))"

lemma idleD:
  assumes "idle now s" "job_at s d j = Some job"
  shows "jr_state job \<noteq> Leased" "claimable_state (jr_state job) \<Longrightarrow> jr_available_at_ms job \<le> now"
  using assms unfolding idle_def by blast+

definition unfinished :: "scheduler \<Rightarrow> (byte_string \<times> byte_string) set" where
  "unfinished s = {(d, j). \<exists>job. job_at s d j = Some job \<and> \<not> is_terminal (jr_state job)}"

lemma finite_job_at: "finite {(d, j). job_at s d j \<noteq> None}"
proof (rule finite_subset)
  show "{(d, j). job_at s d j \<noteq> None} \<subseteq>
      (\<Union>(d, dag)\<in>set (sc_dags s). (\<lambda>j. (d, j)) ` fst ` set (dr_jobs dag))"
  proof clarify
    fix d j job
    assume "job_at s d j = Some job"
    then obtain dag where "hm_get (sc_dags s) d = Some dag" "hm_get (dr_jobs dag) j = Some job"
      by (auto simp: job_at_def split: option.splits)
    then have "(d, dag) \<in> set (sc_dags s)" "(j, job) \<in> set (dr_jobs dag)" by (auto dest: hm_get_in_set)
    then show "(d, j) \<in> (\<Union>(d, dag)\<in>set (sc_dags s). (\<lambda>j. (d, j)) ` fst ` set (dr_jobs dag))" by force
  qed
qed auto

lemma finite_unfinished: "finite (unfinished s)"
  by (rule finite_subset [OF _ finite_job_at [of s]]) (auto simp: unfinished_def)

lemma job_at_reap_idle: "idle now s \<Longrightarrow> job_at (fst (reap now s)) = job_at s"
proof (intro ext)
  fix d j
  assume "idle now s"
  then have "\<not> lease_expired now job" if "job_at s d j = Some job" for job
    using that lease_expired_leased idleD(1) by blast
  moreover have "struct_inv s" using \<open>idle now s\<close> by (simp add: idle_def sched_inv_struct)
  ultimately show "job_at (fst (reap now s)) d j = job_at s d j"
    by (cases "job_at s d j") (simp_all add: job_at_reap)
qed

lemma claim_granted_views:
  assumes "claim_granted owner now lease_ms s s' cj"
  obtains d j job token where "claimable_at s d j job" "jr_available_at_ms job \<le> now"
    "\<And>d' j' job'. claimable_at s d' j' job' \<Longrightarrow> ready_key_of d job \<le> ready_key_of d' job'"
    "token = lease_token d j (u64_saturating_add (sc_sequence s) 1)"
    "cj = grant d j token (i64_saturating_add now lease_ms) job" "sched_inv s'"
    "sc_config s' = sc_config s" "dependents_map s' = dependents_map s"
    "sc_sequence s' = u64_saturating_add (sc_sequence s) 1"
    "\<And>d' j'. job_at s' d' j' = (if d' = d \<and> j' = j
       then Some (leased_job owner token (i64_saturating_add now lease_ms) job) else job_at s d' j')"
proof -
  let ?n = "u64_saturating_add (sc_sequence s) 1" and ?e = "i64_saturating_add now lease_ms"
  from assms obtain d j job h where g: "claimable_at s d j job" "jr_available_at_ms job \<le> now"
    "\<forall>d' j' job'. claimable_at s d' j' job' \<longrightarrow> ready_key_of d job \<le> ready_key_of d' job'"
    "s' = (job_write d j (leased_job owner (lease_token d j ?n) ?e) s)\<lparr>sc_ready := h, sc_sequence := ?n\<rparr>"
    "cj = grant d j (lease_token d j ?n) ?e job" "sched_inv s'"
    unfolding claim_granted_def Let_def by blast
  show ?thesis
  proof (rule that)
    show "ready_key_of d job \<le> ready_key_of d' job'" if "claimable_at s d' j' job'" for d' j' job'
      using g(3) that by blast
    show "job_at s' d' j' = (if d' = d \<and> j' = j
       then Some (leased_job owner (lease_token d j ?n) ?e job) else job_at s d' j')" for d' j'
      using g(1) by (simp add: g(4) claimable_at_def)
  qed (use g in \<open>simp_all add: g(4)\<close>)
qed

lemma claim_idle:
  assumes idle: "idle now s" and ok: "claim_request_ok (sc_config s) owner lease_ms"
    and c: "claim owner now lease_ms s = (s1, r)"
  shows "(r = Inr None \<and> (\<forall>d j job. \<not> claimable_at s d j job) \<and> job_at s1 = job_at s \<and> sched_inv s1) \<or>
    (\<exists>cj d j job token. r = Inr (Some cj) \<and> claimable_at s d j job \<and> cj_dag_id cj = d \<and> cj_job_id cj = j \<and>
       cj_lease_token cj = token \<and> sched_inv s1 \<and> sc_config s1 = sc_config s \<and>
       dependents_map s1 = dependents_map s \<and>
       (\<forall>d' j'. job_at s1 d' j' = (if d' = d \<and> j' = j
          then Some (leased_job owner token (i64_saturating_add now lease_ms) job) else job_at s d' j')))"
proof -
  have inv: "sched_inv s" using idle by (simp add: idle_def)
  note at = job_at_reap_idle [OF idle]
  from inv c show ?thesis
  proof (cases rule: claim_cases)
    case rejected
    with ok show ?thesis by simp
  next
    case (nothing h)
    note none = this
    have "\<not> claimable_at s d j job" for d j job
      using idleD(2) [OF idle, of d j job] none(5) [of d j job] by (auto simp: claimable_at_def at)
    with none at show ?thesis by simp
  next
    case (granted cj)
    from granted(4) obtain d j job token where g: "claimable_at (fst (reap now s)) d j job"
      "cj = grant d j token (i64_saturating_add now lease_ms) job" "sched_inv s1"
      "sc_config s1 = sc_config s" "dependents_map s1 = dependents_map s"
      "\<And>d' j'. job_at s1 d' j' = (if d' = d \<and> j' = j
          then Some (leased_job owner token (i64_saturating_add now lease_ms) job)
          else job_at (fst (reap now s)) d' j')"
      by (rule claim_granted_views) simp
    show ?thesis
      by (rule disjI2, intro exI [of _ cj] exI [of _ d] exI [of _ j] exI [of _ job] exI [of _ token])
        (use g granted(2) at in \<open>simp add: claimable_at_def grant_def\<close>)
  qed
qed

lemma complete_after_claim:
  assumes s1: "sched_inv s1" "job_at s1 d j = Some (leased_job owner token e job)"
    and "length result \<le> MAX_PAYLOAD_BYTES" "now < e"
  shows "\<exists>s2. complete d j owner token result now s1 = (s2, Inr ()) \<and> sched_inv s2 \<and>
    sc_config s2 = sc_config s1 \<and>
    (\<forall>d' j'. job_at s2 d' j' = (if d' = d
       then map_option (completed_job now result (dependents_at s1 d j) j j') (job_at s1 d j') else job_at s1 d' j'))"
proof -
  have "lease_matches s1 d j owner token now"
    using assms(4) by (simp add: lease_matches_def s1(2) leased_job_def)
  from complete_accepted [OF s1(1) assms(3) this] show ?thesis by blast
qed

lemma released_unfinished [simp]:
  "is_terminal (jr_state (released_by t n job)) = is_terminal (jr_state job)"
  "jr_state (released_by t n job) = DeadLettered \<longleftrightarrow> jr_state job = DeadLettered"
  "jr_state (released_by t n job) = Cancelled \<longleftrightarrow> jr_state job = Cancelled"
  by (simp_all add: released_by_def)

lemma finished_simps [simp]: "jr_state (finished r job) = Succeeded"
  by (simp add: finished_def)

text \<open>One round: nothing left to claim, or one unfinished job less.\<close>

lemma drain_round:
  assumes idle: "idle now s" and ok: "claim_request_ok (sc_config s) owner lease_ms"
    and now: "is_i64 now" "now < I64_MAX" and len: "length result \<le> MAX_PAYLOAD_BYTES"
    and c: "claim owner now lease_ms s = (s1, Inr (Some cj))"
  defines "s2 \<equiv> fst (complete (cj_dag_id cj) (cj_job_id cj) owner (cj_lease_token cj) result now s1)"
  shows "idle now s2" "sc_config s2 = sc_config s" "card (unfinished s2) < card (unfinished s)"
    "\<And>d j job. job_at s d j = Some job \<Longrightarrow> jr_state job \<noteq> DeadLettered \<Longrightarrow> jr_state job \<noteq> Cancelled \<Longrightarrow>
       \<exists>job2. job_at s2 d j = Some job2 \<and> jr_state job2 \<noteq> DeadLettered \<and> jr_state job2 \<noteq> Cancelled"
    "\<And>d j. job_at s2 d j \<noteq> None \<longleftrightarrow> job_at s d j \<noteq> None"
proof -
  let ?e = "i64_saturating_add now lease_ms"
  from claim_idle [OF idle ok c] obtain d j job token where g: "claimable_at s d j job" "cj_dag_id cj = d"
    "cj_job_id cj = j" "cj_lease_token cj = token" "sched_inv s1" "sc_config s1 = sc_config s"
    "dependents_map s1 = dependents_map s"
    "\<And>d' j'. job_at s1 d' j' = (if d' = d \<and> j' = j then Some (leased_job owner token ?e job) else job_at s d' j')"
    by (elim disjE exE conjE) (simp, blast)
  have "now < ?e" using now ok by (intro i64_saturating_add_gt) (auto simp: claim_request_ok_def)
  moreover have "job_at s1 d j = Some (leased_job owner token ?e job)" using g(8) by simp
  ultimately obtain s2' where s2': "complete d j owner token result now s1 = (s2', Inr ())" "sched_inv s2'"
      "sc_config s2' = sc_config s1"
    "\<And>d' j'. job_at s2' d' j' = (if d' = d
       then map_option (completed_job now result (dependents_at s1 d j) j j') (job_at s1 d j') else job_at s1 d' j')"
    using complete_after_claim [OF g(5) _ len] by blast
  then have s2: "s2 = s2'" using g(2-4) by (simp add: s2_def)
  have at: "job_at s2 d' j' = (if d' = d \<and> j' = j then Some (finished result (leased_job owner token ?e job))
      else if d' = d then map_option (released_by now (count_list (dependents_at s1 d j) j')) (job_at s d j')
      else job_at s d' j')" for d' j'
    by (auto simp: s2 s2'(4) g(8) completed_job_def intro!: map_option_cong)
  have job: "job_at s d j = Some job" "\<not> is_terminal (jr_state job)"
    using g(1) by (auto simp: claimable_at_def claimable_state_def)
  show "sc_config s2 = sc_config s" by (simp add: s2 s2'(3) g(6))
  show "idle now s2" unfolding idle_def
  proof (intro conjI allI impI)
    show "sched_inv s2" by (simp add: s2 s2'(2))
    fix d' j' job'
    assume "job_at s2 d' j' = Some job'"
    then show "jr_state job' \<noteq> Leased" "claimable_state (jr_state job') \<Longrightarrow> jr_available_at_ms job' \<le> now"
      using idleD [OF idle] by (auto simp: at claimable_state_def released_by_def split: if_splits)
  qed
  have "unfinished s2 \<subseteq> unfinished s - {(d, j)}"
    by (auto simp: unfinished_def at split: if_splits)
  moreover have "(d, j) \<in> unfinished s" using job by (simp add: unfinished_def)
  ultimately show "card (unfinished s2) < card (unfinished s)"
    by (intro psubset_card_mono [OF finite_unfinished]) blast
  show "\<exists>job2. job_at s2 d' j' = Some job2 \<and> jr_state job2 \<noteq> DeadLettered \<and> jr_state job2 \<noteq> Cancelled"
    if "job_at s d' j' = Some job'" "jr_state job' \<noteq> DeadLettered" "jr_state job' \<noteq> Cancelled" for d' j' job'
    using that by (auto simp: at)
  show "job_at s2 d' j' \<noteq> None \<longleftrightarrow> job_at s d' j' \<noteq> None" for d' j'
    using job by (auto simp: at)
qed

lemma idle_done:
  assumes "sched_inv s" "\<And>j job. job_at s d j = Some job \<Longrightarrow> jr_state job \<in> {Pending, Succeeded}"
    and "job_at s d j = Some job"
  shows "jr_state job = Succeeded"
proof (rule ccontr)
  assume "jr_state job \<noteq> Succeeded"
  with assms(2,3) have "jr_state job = Pending" by blast
  from pending_waits [OF assms(1,3) this] assms(2) show False by blast
qed

lemma drain_finishes:
  assumes "idle now s" "claim_request_ok (sc_config s) owner lease_ms"
    "is_i64 now" "now < I64_MAX" "length result \<le> MAX_PAYLOAD_BYTES"
    "card (unfinished s) \<le> n"
    "\<And>j job. job_at s d j = Some job \<Longrightarrow> jr_state job \<noteq> DeadLettered \<and> jr_state job \<noteq> Cancelled"
    "job_at s d j \<noteq> None"
  shows "\<exists>job. job_at (drain owner result now lease_ms n s) d j = Some job \<and> jr_state job = Succeeded"
  using assms
proof (induction n arbitrary: s)
  case 0
  then have "unfinished s = {}" using finite_unfinished by simp
  moreover obtain job where "job_at s d j = Some job" using "0.prems"(8) by blast
  ultimately show ?case using "0.prems"(7) [of j job] by (auto simp: unfinished_def is_terminal_def)
next
  case (Suc n)
  obtain s1 r where c: "claim owner now lease_ms s = (s1, r)" by fastforce
  show ?case
  proof (cases "\<exists>cj. r = Inr (Some cj)")
    case True
    then obtain cj where cj: "r = Inr (Some cj)" by blast
    note round = drain_round [OF Suc.prems(1-5) c [unfolded cj]]
    let ?s2 = "fst (complete (cj_dag_id cj) (cj_job_id cj) owner (cj_lease_token cj) result now s1)"
    have "jr_state job \<noteq> DeadLettered \<and> jr_state job \<noteq> Cancelled" if "job_at ?s2 d j = Some job" for j job
      using that round(4,5) Suc.prems(7) by (metis option.collapse option.inject)
    then have "\<exists>job. job_at (drain owner result now lease_ms n ?s2) d j = Some job \<and> jr_state job = Succeeded"
      using round(1-3,5) Suc.prems by (intro Suc.IH) auto
    then show ?thesis using c cj by simp
  next
    case False
    with claim_idle [OF Suc.prems(1,2) c] have none: "r = Inr None" "\<And>d j job. \<not> claimable_at s d j job"
      "job_at s1 = job_at s" "sched_inv s1" by auto
    then have "drain owner result now lease_ms (Suc n) s = s1" using c by simp
    moreover have "jr_state job \<in> {Pending, Succeeded}" if "job_at s1 d j = Some job" for j job
    proof -
      from that none(3) have at: "job_at s d j = Some job" by simp
      with none(2) have "\<not> claimable_state (jr_state job)" by (auto simp: claimable_at_def)
      moreover have "jr_state job \<noteq> Leased" using at Suc.prems(1) by (auto simp: idle_def)
      ultimately show ?thesis
        using Suc.prems(7) [OF at] by (cases "jr_state job") (auto simp: claimable_state_def)
    qed
    ultimately show ?thesis
      using idle_done [OF none(4)] Suc.prems(8) none(3) by (metis option.collapse)
  qed
qed

end
