(* ===== verification/SchedulerExamples.thy ===== *)
theory SchedulerExamples
  imports SchedulerProgress Examples
begin

text \<open>
  A concrete history on which the properties of the scheduler are evaluated: the release graph
  is submitted, its first job claimed and completed, the second claimed and failed, and so on.
\<close>

abbreviation worker :: byte_string where
  "worker \<equiv> ''worker-1''"

definition demo_new :: scheduler where
  "demo_new = new_scheduler default_config"

definition demo_submitted :: scheduler where
  "demo_submitted = fst (the (submit release_demo 1000 demo_new))"

definition demo_claim :: "scheduler \<times> (scheduler_error + claimed_job option)" where
  "demo_claim = claim worker 1000 5000 demo_submitted"

definition demo_claimed :: scheduler where
  "demo_claimed = fst demo_claim"

abbreviation demo_token :: byte_string where
  "demo_token \<equiv> ''lease-release_demo-prepare-1''"

definition demo_completed :: scheduler where
  "demo_completed = fst (complete ''release_demo'' ''prepare'' worker demo_token ''RELEASE CANDIDATE'' 2000 demo_claimed)"

definition demo_failed :: scheduler where
  "demo_failed = fst (fail ''release_demo'' ''prepare'' worker demo_token 2000 demo_claimed)"

definition demo_reaped :: scheduler where
  "demo_reaped = fst (reap 7000 demo_claimed)"

definition demo_cancelled :: scheduler where
  "demo_cancelled = fst (cancel ''release_demo'' demo_claimed)"

lemmas demo_defs = demo_new_def demo_submitted_def demo_claim_def demo_claimed_def demo_completed_def
  demo_failed_def demo_reaped_def demo_cancelled_def

lemma submit_demo: "submit release_demo 1000 demo_new = Some (demo_submitted, Inr ())"
  by code_simp

lemma claim_demo:
  "demo_claim = (demo_claimed,
     Inr (Some \<lparr>cj_dag_id = ''release_demo'', cj_job_id = ''prepare'', cj_kind = Uppercase,
       cj_payload = ''release candidate'', cj_attempt = 1, cj_lease_token = demo_token,
       cj_lease_expires_at_ms = 6000\<rparr>))"
  by code_simp

lemma complete_demo:
  "complete ''release_demo'' ''prepare'' worker demo_token ''RELEASE CANDIDATE'' 2000 demo_claimed =
     (demo_completed, Inr ())"
  by code_simp

lemma fail_demo:
  "fail ''release_demo'' ''prepare'' worker demo_token 2000 demo_claimed = (demo_failed, Inr RetryWait)"
  by code_simp

lemma reap_demo: "reap 7000 demo_claimed = (demo_reaped, 1)"
  by code_simp

lemma cancel_demo: "cancel ''release_demo'' demo_claimed = (demo_cancelled, Inr 3)"
  by code_simp

lemma demo_job_states:
  "map_option jr_state (job_at demo_submitted ''release_demo'' ''prepare'') = Some Ready"
  "map_option jr_state (job_at demo_submitted ''release_demo'' ''digest'') = Some Pending"
  "map_option jr_state (job_at demo_claimed ''release_demo'' ''prepare'') = Some Leased"
  "map_option jr_state (job_at demo_completed ''release_demo'' ''prepare'') = Some Succeeded"
  "map_option jr_state (job_at demo_completed ''release_demo'' ''digest'') = Some Ready"
  "map_option jr_state (job_at demo_failed ''release_demo'' ''prepare'') = Some RetryWait"
  "map_option jr_state (job_at demo_cancelled ''release_demo'' ''digest'') = Some Cancelled"
  by code_simp+

lemma demo_claimed_sequence: "sc_sequence demo_claimed = 1"
  by code_simp

lemma runs_demo_submitted: "runs demo_new demo_submitted"
  using runs_step [OF runs_refl step_submit [OF submit_demo]] .

lemma runs_demo_claimed: "runs demo_submitted demo_claimed"
  using runs_step [OF runs_refl step_claim [OF claim_demo [unfolded demo_claim_def]]] .

lemma runs_demo_completed: "runs demo_claimed demo_completed"
  using runs_step [OF runs_refl step_complete [OF complete_demo]] .

lemma runs_demo_failed: "runs demo_claimed demo_failed"
  using runs_step [OF runs_refl step_fail [OF fail_demo]] .

lemma runs_demo_cancelled: "runs demo_claimed demo_cancelled"
  using runs_step [OF runs_refl step_cancel [OF cancel_demo]] .

lemma reachable_demo:
  "reachable default_config demo_new" "reachable default_config demo_submitted"
  "reachable default_config demo_claimed" "reachable default_config demo_completed"
  "reachable default_config demo_failed" "reachable default_config demo_cancelled"
  unfolding reachable_def demo_new_def [symmetric]
  by (blast intro: runs_refl runs_demo_submitted runs_trans runs_demo_claimed runs_demo_completed
      runs_demo_failed runs_demo_cancelled)+

lemmas sched_inv_demo = reachable_demo [THEN sched_inv_reachable]

end
