(* ===== verification/SchedulerProperties.thy ===== *)
theory SchedulerProperties
  imports SchedulerExamples
begin

text \<open>The properties of the in-memory scheduler, each with its evaluation on the release graph.\<close>

section \<open>Consistency of every reachable state\<close>

text \<open>
  C7. Whatever sequence of calls a scheduler made by \<open>new\<close> has served, it is consistent: per
  job the state, the attempt counter, the lease, the result and the dependency counter agree;
  the counter is the number of edges from parents that have not succeeded; a lease carries a
  token issued for its job; the ready heap has exactly one entry with the right key for every
  claimable job; no more DAGs than configured are held; and the configuration is unchanged.
\<close>

theorem reachable_consistent:
  assumes "reachable config s"
  shows "sched_inv s \<and> sc_config s = config"
  using assms runs_frame [OF _ sched_inv_new, of config s undefined undefined] sched_inv_reachable
  by (simp add: reachable_def new_scheduler_def)

theorem reachable_consistent_witness: "sched_inv demo_completed \<and> sc_config demo_completed = default_config"
  by (rule reachable_consistent [OF reachable_demo(4)])

section \<open>Claiming\<close>

lemma parents_succeeded:
  assumes "sched_inv s" "job_at s d j = Some job" "jr_state job \<noteq> Pending" "jr_state job \<noteq> Cancelled"
    and "j \<in> set (dependents_at s d p)"
  shows "succeeded s d p"
proof -
  have "jr_remaining_dependencies job = 0"
    using sched_inv_job(1) [OF assms(1,2)] assms(3,4) by (simp add: job_inv_def Let_def)
  then have "unmet s d j = 0" using sched_inv_job(3) [OF assms(1,2)] by simp
  then show ?thesis
    using unmet_0_iff [OF struct_inv_dependents_wf [OF sched_inv_struct [OF assms(1)]]] assms(5) by blast
qed

lemma claimed_attempt:
  assumes "sched_inv s" "claimable_at s d j job"
  shows "u16_saturating_add (jr_attempts job) 1 = jr_attempts job + 1"
    "jr_attempts job + 1 \<le> js_max_attempts (jr_spec job)"
proof -
  have "jr_attempts job < js_max_attempts (jr_spec job) \<and> js_max_attempts (jr_spec job) \<le> 20"
    using sched_inv_job(1) [OF assms(1), of d j job] assms(2)
    by (cases "jr_state job") (simp_all add: claimable_at_def claimable_state_def job_inv_def Let_def)
  then show "u16_saturating_add (jr_attempts job) 1 = jr_attempts job + 1"
    "jr_attempts job + 1 \<le> js_max_attempts (jr_spec job)"
    by (simp_all add: u16_saturating_add_def U16_MAX_def)
qed

text \<open>
  C10. A claim hands out the right job: after expired leases are reaped, the job is ready or
  waiting for its retry, due, and the least of all claimable jobs by availability time, then
  priority, then identifiers; all its parents have succeeded and its attempt stays within the
  limit. Exactly that job changes: it is leased to the caller until \<open>now + lease\<close> with a fresh
  sequence number in its token. Lazy deletion of cancelled entries never shows.
\<close>

theorem claim_selects_least_due_job:
  assumes "reachable config s" "claim owner now lease_ms s = (s', Inr (Some cj))"
  shows "\<exists>job. let s1 = fst (reap now s); d = cj_dag_id cj; j = cj_job_id cj in
    claimable_at s1 d j job \<and> jr_available_at_ms job \<le> now \<and>
    (\<forall>d' j' job'. claimable_at s1 d' j' job' \<longrightarrow> ready_key_of d job \<le> ready_key_of d' job') \<and>
    (\<forall>p. j \<in> set (dependents_at s d p) \<longrightarrow> succeeded s1 d p) \<and>
    cj = \<lparr>cj_dag_id = d, cj_job_id = j, cj_kind = js_kind (jr_spec job), cj_payload = js_payload (jr_spec job),
          cj_attempt = jr_attempts job + 1, cj_lease_token = lease_token d j (sc_sequence s'),
          cj_lease_expires_at_ms = i64_saturating_add now lease_ms\<rparr> \<and>
    cj_attempt cj \<le> js_max_attempts (jr_spec job) \<and>
    sc_sequence s' = min U64_MAX (sc_sequence s + 1) \<and>
    (\<forall>d' j'. job_at s' d' j' = (if d' = d \<and> j' = j
       then Some (job\<lparr>jr_attempts := cj_attempt cj, jr_state := Leased,
                      jr_lease := Some \<lparr>ls_owner = owner, ls_token = cj_lease_token cj,
                                        ls_expires_at_ms = cj_lease_expires_at_ms cj\<rparr>\<rparr>)
       else job_at s1 d' j'))"
  using sched_inv_reachable [OF assms(1)] assms(2)
proof (cases rule: claim_cases)
  case (granted cj')
  let ?s1 = "fst (reap now s)"
  have cj': "cj' = cj" using granted(2) by simp
  from granted(4) obtain d j job token where g: "claimable_at ?s1 d j job" "jr_available_at_ms job \<le> now"
    "\<And>d' j' job'. claimable_at ?s1 d' j' job' \<Longrightarrow> ready_key_of d job \<le> ready_key_of d' job'"
    "token = lease_token d j (u64_saturating_add (sc_sequence s) 1)"
    "cj = grant d j token (i64_saturating_add now lease_ms) job"
    "sc_sequence s' = u64_saturating_add (sc_sequence s) 1"
    "\<And>d' j'. job_at s' d' j' = (if d' = d \<and> j' = j
       then Some (leased_job owner token (i64_saturating_add now lease_ms) job) else job_at ?s1 d' j')"
    unfolding cj' by (rule claim_granted_views) simp
  note inv1 = sched_inv_reap [OF sched_inv_reachable [OF assms(1)], of now]
  have "succeeded ?s1 d p" if "j \<in> set (dependents_at s d p)" for p
    using g(1) that by (intro parents_succeeded [OF inv1])
      (auto simp: claimable_at_def claimable_state_def dependents_at_def)
  moreover note claimed_attempt [OF inv1 g(1)]
  ultimately show ?thesis
    using g by (intro exI [of _ job]) (simp add: grant_def leased_job_def u64_saturating_add_def)
qed simp_all

theorem claim_selects_least_due_job_witness:
  "\<exists>job. claimable_at (fst (reap 1000 demo_submitted)) ''release_demo'' ''prepare'' job"
  using claim_selects_least_due_job [OF reachable_demo(2) claim_demo [unfolded demo_claim_def]]
  by (auto simp: Let_def)

text \<open>
  C25. A claim never overlooks a job: it answers \<open>None\<close> exactly when, after expired leases are
  reaped, no job is both claimable and due; and then it changes no job.
\<close>

theorem claim_none_iff_nothing_due:
  assumes "reachable config s" "claim_request_ok (sc_config s) owner lease_ms" "claim owner now lease_ms s = (s', r)"
  shows "(r = Inr None \<longleftrightarrow>
      \<not> (\<exists>d j job. claimable_at (fst (reap now s)) d j job \<and> jr_available_at_ms job \<le> now)) \<and>
    (r = Inr None \<longrightarrow> job_at s' = job_at (fst (reap now s)))"
  using sched_inv_reachable [OF assms(1)] assms(3)
proof (cases rule: claim_cases)
  case rejected
  with assms(2) show ?thesis by simp
next
  case (nothing h)
  note none = this
  have "\<not> (\<exists>d j job. claimable_at (fst (reap now s)) d j job \<and> jr_available_at_ms job \<le> now)"
    using none(5) by (meson not_less)
  with none show ?thesis by simp
next
  case (granted cj)
  from granted(4) have "\<exists>d j job. claimable_at (fst (reap now s)) d j job \<and> jr_available_at_ms job \<le> now"
    unfolding claim_granted_def Let_def by blast
  with granted show ?thesis by simp
qed

theorem claim_none_iff_nothing_due_witness:
  "\<exists>d j job. claimable_at (fst (reap 1000 demo_submitted)) d j job \<and> jr_available_at_ms job \<le> 1000"
proof -
  have "claim_request_ok (sc_config demo_submitted) worker 5000" by code_simp
  from claim_none_iff_nothing_due [OF reachable_demo(2) this claim_demo [unfolded demo_claim_def]]
  show ?thesis by simp
qed

section \<open>Leases\<close>

text \<open>
  C23. Only the holder of a live lease can change a job, and the holder can. Heartbeat,
  completion and failure answer \<open>Ok\<close> exactly when the job is leased to this owner with this token,
  the lease has not expired and the call's own bound holds; then the completion stores the result,
  the heartbeat moves the expiry (and nothing else), and the failure retries the job or, with its
  attempts used up, dead-letters it. Otherwise the answer is the error the code names, and every
  error answer, also that of a bad bound under a live lease, leaves the scheduler untouched.
\<close>

theorem lease_operations_guarded:
  assumes "reachable config s"
  shows "snd (complete d j owner token result now s) =
      (if MAX_PAYLOAD_BYTES < length result then Inl ResultTooLarge
       else if lease_matches s d j owner token now then Inr () else Inl (lease_error s d j)) \<and>
    snd (heartbeat d j owner token now lease_ms s) =
      (if \<not> (0 < lease_ms \<and> lease_ms \<le> max_lease_ms (sc_config s)) then Inl InvalidLease
       else if lease_matches s d j owner token now then Inr (i64_saturating_add now lease_ms)
       else Inl (lease_error s d j)) \<and>
    snd (fail d j owner token now s) =
      (case job_at s d j of
         None \<Rightarrow> Inl (lease_error s d j)
       | Some job \<Rightarrow>
         if \<not> lease_matches s d j owner token now then Inl (lease_error s d j)
         else if js_max_attempts (jr_spec job) \<le> jr_attempts job then Inr DeadLettered else Inr RetryWait) \<and>
    (isl (snd (complete d j owner token result now s)) \<longrightarrow> fst (complete d j owner token result now s) = s) \<and>
    (isl (snd (heartbeat d j owner token now lease_ms s)) \<longrightarrow> fst (heartbeat d j owner token now lease_ms s) = s) \<and>
    (isl (snd (fail d j owner token now s)) \<longrightarrow> fst (fail d j owner token now s) = s) \<and>
    (\<not> lease_matches s d j owner token now \<longrightarrow>
      fst (complete d j owner token result now s) = s \<and>
      fst (heartbeat d j owner token now lease_ms s) = s \<and>
      fail d j owner token now s = (s, Inl (lease_error s d j))) \<and>
    (lease_matches s d j owner token now \<longrightarrow> (\<exists>job l. job_at s d j = Some job \<and> jr_lease job = Some l \<and>
      (length result \<le> MAX_PAYLOAD_BYTES \<longrightarrow>
        job_at (fst (complete d j owner token result now s)) d j =
          Some (job\<lparr>jr_state := Succeeded, jr_lease := None, jr_result := Some result\<rparr>)) \<and>
      (0 < lease_ms \<and> lease_ms \<le> max_lease_ms (sc_config s) \<longrightarrow>
        (\<forall>d' j'. job_at (fst (heartbeat d j owner token now lease_ms s)) d' j' =
          (if d' = d \<and> j' = j
           then Some (job\<lparr>jr_lease := Some (l\<lparr>ls_expires_at_ms := i64_saturating_add now lease_ms\<rparr>)\<rparr>)
           else job_at s d' j'))) \<and>
      job_at (fst (fail d j owner token now s)) d j =
        Some (if js_max_attempts (jr_spec job) \<le> jr_attempts job
              then job\<lparr>jr_lease := None, jr_state := DeadLettered\<rparr>
              else job\<lparr>jr_lease := None, jr_state := RetryWait,
                       jr_available_at_ms := retry_at (sc_config s) j (jr_attempts job) now\<rparr>)))"
proof -
  note acc = complete_accepted [OF sched_inv_reachable [OF assms]] and rej = complete_rejected
  show ?thesis
  proof (cases "lease_matches s d j owner token now")
    case False
    with rej show ?thesis
      by (auto simp: heartbeat_eq fail_eq not_less split: option.split)
  next
    case True
    then obtain job l where job: "job_at s d j = Some job" "jr_lease job = Some l" by (rule lease_matchesE)
    have done_job: "snd (complete d j owner token result now s) = Inr () \<and>
        job_at (fst (complete d j owner token result now s)) d j =
          Some (job\<lparr>jr_state := Succeeded, jr_lease := None, jr_result := Some result\<rparr>)"
      if "length result \<le> MAX_PAYLOAD_BYTES"
      using acc [OF that True] job by (auto simp: completed_job_def finished_def)
    have big: "complete d j owner token result now s = (s, Inl ResultTooLarge)"
      if "\<not> length result \<le> MAX_PAYLOAD_BYTES" using rej(1) that by simp
    have failed: "fail d j owner token now s = retry_or_dead_letter d j now s" using True by (simp add: fail_eq)
    show ?thesis
      using True job done_job big
      by (cases "length result \<le> MAX_PAYLOAD_BYTES")
        (auto simp: heartbeat_eq failed retry_or_dead_letter_eq [OF job(1)] requeued_def renewed_def not_less)
  qed
qed

theorem lease_operations_guarded_witness:
  "fst (complete ''release_demo'' ''prepare'' ''thief'' demo_token ''x'' 2000 demo_claimed) = demo_claimed \<and>
   (\<exists>job. job_at (fst (fail ''release_demo'' ''prepare'' worker demo_token 2000 demo_claimed)) ''release_demo'' ''prepare'' = Some job \<and>
     jr_lease job = None)"
proof -
  have thief: "\<not> lease_matches demo_claimed ''release_demo'' ''prepare'' ''thief'' demo_token 2000"
    and holder: "lease_matches demo_claimed ''release_demo'' ''prepare'' worker demo_token 2000" by code_simp+
  note stale = lease_operations_guarded [OF reachable_demo(3), of "''release_demo''" "''prepare''" "''thief''" demo_token "''x''" 2000 1]
    and live = lease_operations_guarded [OF reachable_demo(3), of "''release_demo''" "''prepare''" worker demo_token "''x''" 2000 1]
  show ?thesis
  proof (rule conjI)
    show "fst (complete ''release_demo'' ''prepare'' ''thief'' demo_token ''x'' 2000 demo_claimed) = demo_claimed"
      using stale thief by (elim conjE) blast
    obtain job where "job_at (fst (fail ''release_demo'' ''prepare'' worker demo_token 2000 demo_claimed)) ''release_demo'' ''prepare'' =
        Some (if js_max_attempts (jr_spec job) \<le> jr_attempts job
              then job\<lparr>jr_lease := None, jr_state := DeadLettered\<rparr>
              else job\<lparr>jr_lease := None, jr_state := RetryWait,
                       jr_available_at_ms := retry_at (sc_config demo_claimed) ''prepare'' (jr_attempts job) 2000\<rparr>)"
      using live holder by (elim conjE) blast
    then show "\<exists>job. job_at (fst (fail ''release_demo'' ''prepare'' worker demo_token 2000 demo_claimed)) ''release_demo'' ''prepare'' = Some job \<and>
        jr_lease job = None" by simp
  qed
qed

text \<open>
  C2. A worker that lost its lease is fenced off for ever. Once a token that was issued for a
  job is not the job's current token (the lease expired and was reaped, the job was failed,
  finished, cancelled or claimed again), no later call with it succeeds, whatever calls come
  in between: completion, failure and heartbeat are all rejected. The bound is the 64-bit
  sequence counter: the saturating increment would repeat a token after \<open>2^64 - 1\<close> claims.
\<close>

theorem stale_token_rejected_forever:
  assumes "reachable config s" "token_issued s (d, j) token" "lease_holder s (d, j) \<noteq> Some token"
    and "runs s s'" "sc_sequence s' < U64_MAX"
  shows "fst (complete d j owner token result now s') = s' \<and> isl (snd (complete d j owner token result now s')) \<and>
    fst (fail d j owner token now s') = s' \<and> isl (snd (fail d j owner token now s')) \<and>
    fst (heartbeat d j owner token now lease_ms s') = s' \<and> isl (snd (heartbeat d j owner token now lease_ms s'))"
proof -
  note inv = sched_inv_reachable [OF assms(1)]
  have "lease_holder s' (d, j) \<noteq> Some token"
    using sched_fence.fenced [OF runs_numbered [OF assms(4) inv assms(5)] inv assms(2,3)] by blast
  then have no: "\<not> lease_matches s' d j owner token now" by (rule not_held_no_match)
  then have "fst (complete d j owner token result now s') = s' \<and> isl (snd (complete d j owner token result now s'))"
    using complete_rejected by (metis fst_conv snd_conv not_less isl_def)
  with no show ?thesis by (simp add: fail_eq heartbeat_eq)
qed

lemma demo_reclaimed:
  "runs demo_failed (fst (claim ''worker-2'' 9000 5000 demo_failed))"
  "sc_sequence (fst (claim ''worker-2'' 9000 5000 demo_failed)) = 2"
proof -
  show "runs demo_failed (fst (claim ''worker-2'' 9000 5000 demo_failed))"
    using runs_step [OF runs_refl sched_step_result(1)] .
qed code_simp

theorem stale_token_rejected_forever_witness:
  "fst (complete ''release_demo'' ''prepare'' worker demo_token ''late'' 9500
     (fst (claim ''worker-2'' 9000 5000 demo_failed))) = fst (claim ''worker-2'' 9000 5000 demo_failed)"
proof -
  have "token_issued demo_failed (''release_demo'', ''prepare'') demo_token"
    unfolding token_issued_def prod.case
    by (rule exI [of _ 1]) code_simp
  moreover have "lease_holder demo_failed (''release_demo'', ''prepare'') \<noteq> Some demo_token" by code_simp
  moreover have "sc_sequence (fst (claim ''worker-2'' 9000 5000 demo_failed)) < U64_MAX"
    by (simp add: demo_reclaimed(2) U64_MAX_def)
  ultimately show ?thesis
    using stale_token_rejected_forever [OF reachable_demo(5) _ _ demo_reclaimed(1)] by blast
qed

end
