(* ===== verification/LifecycleProperties.thy ===== *)
theory LifecycleProperties
  imports SchedulerExamples
begin

text \<open>
  Properties of whole histories of the scheduler: the lifecycle, what is permanent, the order of
  dependent jobs, and progress.
\<close>

section \<open>Permanence\<close>

text \<open>
  C28. A rejected call has no effect. Several methods update fields before their last check or
  inside a loop with an early return; in a reachable state none of them answers with an error
  after it has changed something.
\<close>

theorem rejected_call_changes_nothing:
  assumes "reachable config s" "sched_step s e (Rejected err) s'"
  shows "s' = s"
proof -
  note inv = sched_inv_reachable [OF assms(1)]
  show ?thesis using assms(2)
  proof (cases rule: sched_step.cases)
    case (step_submit spec t r)
    then have r: "r = Inl err" by (cases r) (simp_all add: reply_of_def)
    from step_submit(3) show ?thesis by (cases rule: submit_cases) (simp_all add: r)
  next
    case (step_claim owner t lease_ms r)
    then have r: "r = Inl err" by (cases r) (simp_all add: reply_of_def)
    from inv step_claim(3) show ?thesis by (cases rule: claim_cases) (simp_all add: r)
  next
    case (step_heartbeat d j owner token t lease_ms r)
    then have "r = Inl err" by (cases r) (simp_all add: reply_of_def)
    with step_heartbeat show ?thesis by (auto simp: heartbeat_eq split: if_splits)
  next
    case (step_complete d j owner token result t r)
    then have r: "r = Inl err" by (cases r) (simp_all add: reply_of_def)
    show ?thesis
    proof (cases "length result \<le> MAX_PAYLOAD_BYTES \<and> lease_matches s d j owner token t")
      case True
      with complete_accepted [OF inv] step_complete(3) r show ?thesis by fastforce
    next
      case False
      with complete_rejected step_complete(3) show ?thesis by (metis not_less prod.inject)
    qed
  next
    case (step_fail d j owner token t r)
    then have r: "r = Inl err" by (cases r) (simp_all add: reply_of_def)
    show ?thesis
    proof (cases "lease_matches s d j owner token t")
      case True
      then obtain job where "job_at s d j = Some job" by (rule lease_matchesE)
      with True r step_fail(3) show ?thesis by (simp add: fail_eq retry_or_dead_letter_eq)
    next
      case False
      with step_fail(3) show ?thesis by (simp add: fail_eq)
    qed
  next
    case (step_cancel d r)
    then have "r = Inl err" by (cases r) (simp_all add: reply_of_def)
    with step_cancel(3) show ?thesis by (auto simp: cancel_def split: option.splits)
  qed
qed

theorem rejected_call_changes_nothing_witness:
  "fst (complete ''release_demo'' ''digest'' worker demo_token ''x'' 2000 demo_claimed) = demo_claimed"
proof (rule rejected_call_changes_nothing [OF reachable_demo(3)])
  have "snd (complete ''release_demo'' ''digest'' worker demo_token ''x'' 2000 demo_claimed) = Inl LeaseConflict"
    by code_simp
  then show "sched_step demo_claimed (Complete ''release_demo'' ''digest'' worker demo_token ''x'' 2000)
      (Rejected LeaseConflict) (fst (complete ''release_demo'' ''digest'' worker demo_token ''x'' 2000 demo_claimed))"
    using sched_step_result(3) [of demo_claimed "''release_demo''" "''digest''" worker demo_token "''x''" 2000]
    by (simp add: reply_of_def)
qed

text \<open>
  C27. Jobs follow the documented lifecycle and nothing else: in every history a job only moves
  along Pending, Ready, Leased, then Succeeded, DeadLettered or RetryWait and back to Leased,
  or from any non-terminal state to Cancelled; it never disappears; its specification is
  constant, its attempt counter never decreases and never exceeds the job's limit.
\<close>

theorem jobs_follow_lifecycle:
  assumes "reachable config s" "runs s s'" "job_at s d j = Some job"
  shows "\<exists>job'. job_at s' d j = Some job' \<and> lifecycle\<^sup>*\<^sup>* (jr_state job) (jr_state job') \<and>
    jr_spec job' = jr_spec job \<and> jr_attempts job \<le> jr_attempts job' \<and>
    jr_attempts job' \<le> js_max_attempts (jr_spec job)"
proof -
  note inv = sched_inv_reachable [OF assms(1)]
  from runs_evolves [OF assms(2) inv assms(3)] obtain job' where
    job': "job_at s' d j = Some job'" "job_steps d j (sc_sequence s) (sc_sequence s') job job'" by blast
  have small: "jr_attempts job \<le> U16_MAX"
    using sched_inv_job(1) [OF inv assms(3)] by (simp add: job_inv_def Let_def U16_MAX_def)
  have "jr_attempts job' \<le> js_max_attempts (jr_spec job')"
    using sched_inv_job(1) [OF sched_inv_runs [OF assms(2) inv] job'(1)] by (simp add: job_inv_def Let_def)
  with job' job_steps_lifecycle [OF job'(2)] job_steps_frame [OF job'(2) small] show ?thesis by auto
qed

theorem jobs_follow_lifecycle_witness: "lifecycle\<^sup>*\<^sup>* Leased RetryWait"
proof -
  obtain job where job: "job_at demo_claimed ''release_demo'' ''prepare'' = Some job" "jr_state job = Leased"
    using demo_job_states(3) by auto
  from jobs_follow_lifecycle [OF reachable_demo(3) runs_demo_failed job(1)] demo_job_states(6) job(2)
  show ?thesis by auto
qed

text \<open>
  C26. A finished job stays finished: in every history a job that has succeeded, was
  dead-lettered or was cancelled keeps its state, its result and its attempt count.
\<close>

theorem terminal_jobs_are_final:
  assumes "reachable config s" "runs s s'" "job_at s d j = Some job" "is_terminal (jr_state job)"
  shows "\<exists>job'. job_at s' d j = Some job' \<and> jr_state job' = jr_state job \<and> jr_result job' = jr_result job \<and>
    jr_attempts job' = jr_attempts job \<and> jr_lease job' = None"
proof -
  note inv = sched_inv_reachable [OF assms(1)]
  from runs_evolves [OF assms(2) inv assms(3)] obtain job' where
    job': "job_at s' d j = Some job'" "job_steps d j (sc_sequence s) (sc_sequence s') job job'" by blast
  have "jr_lease job = None"
    using sched_inv_job(1) [OF inv assms(3)] assms(4) by (cases "jr_state job") (simp_all add: job_inv_def Let_def)
  with job_steps_terminal [OF job'(2) assms(4)] job'(1) show ?thesis by auto
qed

theorem terminal_jobs_are_final_witness:
  "map_option jr_state (job_at (fst (cancel ''release_demo'' demo_completed)) ''release_demo'' ''prepare'') = Some Succeeded"
proof -
  obtain job where job: "job_at demo_completed ''release_demo'' ''prepare'' = Some job" "jr_state job = Succeeded"
    using demo_job_states(4) by auto
  have "runs demo_completed (fst (cancel ''release_demo'' demo_completed))"
    using runs_step [OF runs_refl sched_step_result(6)] .
  from terminal_jobs_are_final [OF reachable_demo(4) this job(1)] job(2) show ?thesis by auto
qed

section \<open>Dependencies\<close>

lemma dependents_after_submit:
  assumes "submit spec t s = Some (s', Inr ())"
  shows "dependents_at s' (ds_id spec) p = sort (children_of (ds_dependencies spec) p)"
  using assms
  by (cases rule: submit_cases) (simp_all add: dependents_at_def submitted_views dependents_of_list)

lemma submitted_job:
  assumes "submit spec t s = Some (s', Inr ())" "job \<in> set (ds_jobs spec)"
  shows "job_at s' (ds_id spec) (js_id job) = Some (admitted (dependency_counts spec) t job)"
  using assms(1)
proof (cases rule: submit_cases)
  case (admitted order)
  have "distinct (job_ids spec)"
    using validate_Inr_well_formed [OF admitted(1)] by (simp add: dag_well_formed_def)
  from admitted_jobs_get [OF this] assms(2) show ?thesis by (auto simp: admitted(5) submitted_views)
qed simp_all

lemma submit_validates:
  "submit spec t s = Some (s', Inr ()) \<Longrightarrow> \<exists>order. validate spec = Some (Inr order)"
  by (erule submit_cases) auto

text \<open>
  C1. Dependencies are respected from the graph a client submits to the end: at any time after
  an accepted submission, a job that is ready, leased, waiting for a retry, dead-lettered or
  succeeded has all its parents in the submitted graph in state \<open>Succeeded\<close>.
\<close>

theorem dependencies_respected:
  assumes "reachable config s" "submit spec t s = Some (s1, Inr ())" "runs s1 s2"
    and "e \<in> set (ds_dependencies spec)"
    and "job_at s2 (ds_id spec) (dep_to e) = Some job" "jr_state job \<noteq> Pending" "jr_state job \<noteq> Cancelled"
  shows "\<exists>parent. job_at s2 (ds_id spec) (dep_from e) = Some parent \<and> jr_state parent = Succeeded"
proof -
  have inv1: "sched_inv s1" using sched_inv_submit [OF sched_inv_reachable [OF assms(1)] assms(2)] .
  have inv2: "sched_inv s2" by (rule sched_inv_runs [OF assms(3) inv1])
  obtain order where v: "validate spec = Some (Inr order)" using submit_validates [OF assms(2)] by blast
  have "(dep_from e, dep_to e) \<in> edge_rel spec" using assms(4) by (auto simp: edge_rel_def)
  then have child: "dep_to e \<in> set (dependents_at s1 (ds_id spec) (dep_from e))"
    using dependents_after_submit [OF assms(2)] by (auto simp: children_of_def edge_rel_def)
  then have "job_at s1 (ds_id spec) (dep_to e) \<noteq> None"
    using dependents_known(2) [OF sched_inv_struct [OF inv1]] by blast
  then have "dependents_map s2 (ds_id spec) = dependents_map s1 (ds_id spec)"
    using runs_frame [OF assms(3) inv1] by blast
  with child have "dep_to e \<in> set (dependents_at s2 (ds_id spec) (dep_from e))" by (simp add: dependents_at_def)
  then have "unmet s2 (ds_id spec) (dep_to e) = 0 \<Longrightarrow> succeeded s2 (ds_id spec) (dep_from e)"
    using unmet_0_iff [OF struct_inv_dependents_wf [OF sched_inv_struct [OF inv2]]] by blast
  moreover have "unmet s2 (ds_id spec) (dep_to e) = 0"
    using sched_inv_job(1,3) [OF inv2 assms(5)] assms(6,7) by (simp add: job_inv_def Let_def)
  ultimately show ?thesis by (auto simp: succeeded_def split: option.splits)
qed

theorem dependencies_respected_witness:
  "\<exists>parent. job_at demo_completed ''release_demo'' ''prepare'' = Some parent \<and> jr_state parent = Succeeded"
proof -
  obtain job where job: "job_at demo_completed ''release_demo'' ''digest'' = Some job" "jr_state job = Ready"
    using demo_job_states(5) by auto
  let ?e = "example_edge ''prepare'' ''digest''"
  have "?e \<in> set (ds_dependencies release_demo)" "ds_id release_demo = ''release_demo''"
    "dep_to ?e = ''digest''" "dep_from ?e = ''prepare''" by (simp_all add: example_defs)
  with dependencies_respected [OF reachable_demo(1) submit_demo runs_trans [OF runs_demo_completed runs_demo_claimed],
      of ?e job] job show ?thesis by simp
qed

section \<open>Progress\<close>

text \<open>
  A graph never gets stuck: a pending job always has an ancestor that is ready, leased,
  waiting for a retry, dead-lettered or cancelled. So while no job of the graph was
  dead-lettered or cancelled, some ancestor can still be claimed or is being worked on.
\<close>

theorem pending_job_waits_for_someone:
  assumes "reachable config s" "job_at s d j = Some job" "jr_state job = Pending"
  shows "\<exists>p parent. (p, j) \<in> {(p, c). c \<in> set (dependents_at s d p)}\<^sup>+ \<and> job_at s d p = Some parent \<and>
    jr_state parent \<noteq> Pending \<and> jr_state parent \<noteq> Succeeded"
  using pending_waits [OF sched_inv_reachable [OF assms(1)] assms(2,3)]
  by (simp add: dependency_graph_def dependents_at_def)

theorem pending_job_waits_for_someone_witness:
  "\<exists>p parent. job_at demo_claimed ''release_demo'' p = Some parent \<and> jr_state parent \<noteq> Pending \<and> jr_state parent \<noteq> Succeeded"
proof -
  have "map_option jr_state (job_at demo_claimed ''release_demo'' ''digest'') = Some Pending" by code_simp
  then obtain job where "job_at demo_claimed ''release_demo'' ''digest'' = Some job" "jr_state job = Pending" by auto
  from pending_job_waits_for_someone [OF reachable_demo(3) this] show ?thesis by blast
qed

lemma idle_after_submit:
  assumes "reachable config s" "\<forall>d j job. job_at s d j = Some job \<longrightarrow> is_terminal (jr_state job)"
    and "submit spec t s = Some (s1, Inr ())" "t \<le> now"
  shows "idle now s1" "unfinished s1 \<subseteq> (\<lambda>job. (ds_id spec, js_id job)) ` set (ds_jobs spec)"
    "\<And>j job. job_at s1 (ds_id spec) j = Some job \<Longrightarrow> jr_state job = Pending \<or> jr_state job = Ready"
proof -
  obtain order where v: "validate spec = Some (Inr order)" using submit_validates [OF assms(3)] by blast
  have dist: "distinct (job_ids spec)"
    using validate_Inr_well_formed [OF v] by (simp add: dag_well_formed_def)
  have s1: "s1 = submitted spec t s" using assms(3) by (cases rule: submit_cases) simp_all
  have new: "fresh_job job \<and> jr_available_at_ms job = t \<and> (\<exists>js\<in>set (ds_jobs spec). js_id js = j)"
    if "job_at s1 (ds_id spec) j = Some job" for j job
    using that by (auto simp: s1 submitted_views admitted_jobs_get [OF dist] fresh_admitted)
  have old: "is_terminal (jr_state job)" if "job_at s1 d j = Some job" "d \<noteq> ds_id spec" for d j job
    using that assms(2) by (auto simp: s1 submitted_views)
  show "idle now s1"
    unfolding idle_def
  proof (intro conjI allI impI)
    show "sched_inv s1" using sched_inv_submit [OF sched_inv_reachable [OF assms(1)] assms(3)] .
    fix d j job
    assume at: "job_at s1 d j = Some job"
    show "jr_state job \<noteq> Leased"
      using at new old by (cases "d = ds_id spec") (fastforce simp: fresh_job_def is_terminal_def)+
    show "jr_available_at_ms job \<le> now" if "claimable_state (jr_state job)"
      using at new old that assms(4)
      by (cases "d = ds_id spec") (fastforce simp: claimable_state_def is_terminal_def)+
  qed
  show "unfinished s1 \<subseteq> (\<lambda>job. (ds_id spec, js_id job)) ` set (ds_jobs spec)"
    using new old by (force simp: unfinished_def)
  show "jr_state job = Pending \<or> jr_state job = Ready" if "job_at s1 (ds_id spec) j = Some job" for j job
    using new [OF that] by (simp add: fresh_job_def)
qed

text \<open>
  C12. An accepted graph runs to completion. Submit a graph to a scheduler whose other jobs are
  all finished, and let one worker claim and complete while nobody else calls, with a valid claim
  request and a result within the limit, all at one clock reading at or after the submission (so
  that no lease expires): after at most as many rounds as the graph has jobs, every job of the
  graph has succeeded. No claim comes back empty too early, no job is skipped, no completion is
  refused.
\<close>

theorem accepted_dag_runs_to_completion:
  assumes "reachable config s" "\<forall>d j job. job_at s d j = Some job \<longrightarrow> is_terminal (jr_state job)"
    and "submit spec t s = Some (s1, Inr ())" "t \<le> now" "is_i64 now" "now < I64_MAX"
    and "claim_request_ok config owner lease_ms" "length result \<le> MAX_PAYLOAD_BYTES"
    and "job \<in> set (ds_jobs spec)"
  shows "\<exists>rec. job_at (drain owner result now lease_ms (length (ds_jobs spec)) s1) (ds_id spec) (js_id job) = Some rec \<and>
    jr_state rec = Succeeded"
proof (rule drain_finishes)
  note idle = idle_after_submit [OF assms(1,2) assms(3,4)]
  show "idle now s1" by (rule idle(1))
  have "sc_config s1 = sc_config s"
    using assms(3) by (cases rule: submit_cases) (simp_all add: submitted_views)
  also have "sc_config s = config"
    using assms(1) runs_frame [OF _ sched_inv_new, of config s undefined undefined]
    by (simp add: reachable_def new_scheduler_def)
  finally show "claim_request_ok (sc_config s1) owner lease_ms" using assms(7) by simp
  show "card (unfinished s1) \<le> length (ds_jobs spec)"
  proof -
    have "card (unfinished s1) \<le> card ((\<lambda>job. (ds_id spec, js_id job)) ` set (ds_jobs spec))"
      by (rule card_mono [OF _ idle(2)]) simp
    also have "\<dots> \<le> card (set (ds_jobs spec))" by (rule card_image_le) simp
    also have "\<dots> \<le> length (ds_jobs spec)" by (rule card_length)
    finally show ?thesis .
  qed
  show "jr_state job \<noteq> DeadLettered \<and> jr_state job \<noteq> Cancelled" if "job_at s1 (ds_id spec) j = Some job" for j job
    using idle(3) [OF that] by auto
  show "job_at s1 (ds_id spec) (js_id job) \<noteq> None" using submitted_job [OF assms(3,9)] by simp
qed (use assms(5,6,8) in simp_all)

theorem accepted_dag_runs_to_completion_witness:
  "\<exists>rec. job_at (drain worker ''done'' 2000 5000 3 demo_submitted) ''release_demo'' ''cooldown'' = Some rec \<and>
     jr_state rec = Succeeded"
proof -
  have "\<forall>d j job. job_at demo_new d j = Some job \<longrightarrow> is_terminal (jr_state job)"
    by (simp add: demo_new_def new_scheduler_def job_at_def)
  moreover have "claim_request_ok default_config worker 5000" by code_simp
  moreover have "is_i64 2000" "(2000 :: int) < I64_MAX" "length ''done'' \<le> MAX_PAYLOAD_BYTES"
    by (simp_all add: is_i64_def machine_constants policy_defs)
  moreover have "ds_jobs release_demo ! 2 \<in> set (ds_jobs release_demo)" "length (ds_jobs release_demo) = 3"
    "ds_id release_demo = ''release_demo''" "js_id (ds_jobs release_demo ! 2) = ''cooldown''"
    by (simp_all add: example_defs)
  ultimately show ?thesis
    using accepted_dag_runs_to_completion [OF reachable_demo(1) _ submit_demo, of 2000 worker 5000 "''done''"
        "ds_jobs release_demo ! 2"] by simp
qed

end
