(* ===== verification/EffectProperties.thy ===== *)
theory EffectProperties
  imports SchedulerExamples
begin

text \<open>
  The exact effect of the single calls of the scheduler: completion, failure and backoff,
  reaping, cancellation, admission, the read model and the lease tokens.
\<close>

section \<open>Completion\<close>

text \<open>
  C24. A completion by the lease holder commits the result and releases the children, exactly.
  The job succeeds and stores the result; every edge to a child takes one from the child's
  counter; a pending child whose counter reaches zero becomes ready now; nothing else changes.
  The job's own counter is not touched, and the answer is always \<open>Ok\<close>: the error branches
  inside the loop are unreachable.
\<close>

theorem complete_commits_and_releases:
  assumes "reachable config s" "lease_matches s d j owner token now" "length result \<le> MAX_PAYLOAD_BYTES"
  shows "snd (complete d j owner token result now s) = Inr () \<and>
    (\<forall>d' j'. job_at (fst (complete d j owner token result now s)) d' j' =
       (case job_at s d' j' of
          None \<Rightarrow> None
        | Some job \<Rightarrow>
          let edges = count_list (dependents_at s d j) j'; left = jr_remaining_dependencies job - edges
          in Some
           (if d' \<noteq> d then job
            else if j' = j then job\<lparr>jr_state := Succeeded, jr_lease := None, jr_result := Some result\<rparr>
            else if left = 0 \<and> jr_state job = Pending
            then job\<lparr>jr_remaining_dependencies := 0, jr_state := Ready, jr_available_at_ms := now\<rparr>
            else job\<lparr>jr_remaining_dependencies := left\<rparr>)))"
proof -
  from complete_accepted [OF sched_inv_reachable [OF assms(1)] assms(3,2)] obtain s' where
    "complete d j owner token result now s = (s', Inr ())"
    "\<And>d' j'. job_at s' d' j' =
       (if d' = d then map_option (completed_job now result (dependents_at s d j) j j') (job_at s d j')
        else job_at s d' j')" by blast
  then show ?thesis
    by (auto simp: completed_job_def finished_def released_by_def Let_def split: option.split)
qed

theorem complete_commits_and_releases_witness:
  "snd (complete ''release_demo'' ''prepare'' worker demo_token ''R'' 2000 demo_claimed) = Inr ()"
proof -
  have "lease_matches demo_claimed ''release_demo'' ''prepare'' worker demo_token 2000" by code_simp
  moreover have "length ''R'' \<le> MAX_PAYLOAD_BYTES" by (simp add: policy_defs)
  ultimately show ?thesis using complete_commits_and_releases [OF reachable_demo(3)] by blast
qed

section \<open>Failure and backoff\<close>

text \<open>
  C29. A failure reported by the lease holder retries the job or dead-letters it, exactly: with
  attempts left the job waits until the backoff time and can be claimed again from then on,
  otherwise it is dead-lettered; the lease is gone and no other job changes.
\<close>

theorem fail_retries_or_dead_letters:
  assumes "reachable config s" "lease_matches s d j owner token now" "job_at s d j = Some job"
  shows "let exhausted = (jr_attempts job = js_max_attempts (jr_spec job));
      job' = (if exhausted then job\<lparr>jr_lease := None, jr_state := DeadLettered\<rparr>
        else job\<lparr>jr_lease := None, jr_state := RetryWait,
                 jr_available_at_ms := retry_at config j (jr_attempts job) now\<rparr>)
    in snd (fail d j owner token now s) = Inr (jr_state job') \<and>
       (\<forall>d' j'. job_at (fst (fail d j owner token now s)) d' j' =
          (if d' = d \<and> j' = j then Some job' else job_at s d' j'))"
proof -
  have "jr_attempts job \<le> js_max_attempts (jr_spec job)"
    using sched_inv_job(1) [OF sched_inv_reachable [OF assms(1)] assms(3)] by (simp add: job_inv_def Let_def)
  moreover have "sc_config s = config"
    using assms(1) runs_frame [OF _ sched_inv_new, of config s undefined undefined]
    by (simp add: reachable_def new_scheduler_def)
  ultimately show ?thesis
    using assms(2,3) by (auto simp: fail_eq retry_or_dead_letter_eq requeued_def Let_def)
qed

theorem fail_retries_or_dead_letters_witness:
  "snd (fail ''release_demo'' ''prepare'' worker demo_token 2000 demo_claimed) = Inr RetryWait"
proof -
  obtain job where job: "job_at demo_claimed ''release_demo'' ''prepare'' = Some job"
    using demo_job_states(3) by auto
  have "lease_matches demo_claimed ''release_demo'' ''prepare'' worker demo_token 2000" by code_simp
  moreover have "map_option (\<lambda>job. jr_attempts job = js_max_attempts (jr_spec job))
      (job_at demo_claimed ''release_demo'' ''prepare'') = Some False" by code_simp
  ultimately show ?thesis using fail_retries_or_dead_letters [OF reachable_demo(3) _ job] job by (simp add: Let_def)
qed

text \<open>
  The hash is a 64-bit word and the jitter its remainder, so the jitter lies below the ceiling.
\<close>

lemma jitter_bounds: "0 \<le> deterministic_jitter j c \<and> (0 < c \<longrightarrow> deterministic_jitter j c < c) \<and> (c \<le> 0 \<longrightarrow> deterministic_jitter j c = 0)"
  by (simp add: deterministic_jitter_def Let_def)

lemma i64_saturating_add_assoc_nonneg:
  "is_i64 a \<Longrightarrow> 0 \<le> b \<Longrightarrow> 0 \<le> c \<Longrightarrow>
   i64_saturating_add (i64_saturating_add a b) c = min I64_MAX (a + b + c)"
  by (auto simp: is_i64_def machine_arith machine_constants)

lemma pow2_i64: "(2 :: int) ^ min n 16 \<le> 65536"
proof -
  have "(2 :: int) ^ min n 16 \<le> 2 ^ 16" by (rule power_increasing) auto
  then show ?thesis by simp
qed

text \<open>
  C33. The backoff is bounded: a retried job becomes available no earlier than now plus the
  capped exponential delay, and at most a fifth of that delay later (the deterministic jitter);
  the delay is \<open>base * 2^(attempts - 1)\<close>, the exponent capped at 16, and never above the
  configured maximum. The sum saturates at the largest time instead of wrapping.
\<close>

theorem backoff_bounded:
  assumes "0 < base_retry_ms config" "base_retry_ms config * 65536 \<le> I64_MAX" "0 \<le> max_retry_ms config"
    "is_i64 now" "1 \<le> attempts"
  shows "let delay = min (base_retry_ms config * 2 ^ min (attempts - 1) 16) (max_retry_ms config)
    in min I64_MAX (now + delay) \<le> retry_at config j attempts now \<and>
       retry_at config j attempts now \<le> min I64_MAX (now + delay + delay div 5) \<and>
       delay \<le> max_retry_ms config"
proof -
  let ?base = "base_retry_ms config * 2 ^ min (attempts - 1) 16"
  have "?base \<le> base_retry_ms config * 65536"
    using assms(1) pow2_i64 [of "attempts - 1"] by (intro mult_left_mono) auto
  then have "?base \<le> I64_MAX" using assms(2) by simp
  moreover have "0 \<le> ?base" using assms(1) by simp
  ultimately have clamp: "i64_saturating_mul (base_retry_ms config) (2 ^ min (attempts - 1) 16) = ?base"
    unfolding i64_saturating_mul_def by (intro i64_clamp_id) (simp add: is_i64_def machine_constants)
  define delay where "delay = min ?base (max_retry_ms config)"
  have delay: "retry_delay config attempts = delay" unfolding retry_delay_def Let_def clamp delay_def ..
  have nonneg: "0 \<le> delay" using \<open>0 \<le> ?base\<close> assms(3) by (simp add: delay_def)
  have sdiv: "delay sdiv 5 = delay div 5" using nonneg by (cases "delay = 0") (simp_all add: signed_divide_int_def sgn_if)
  let ?jit = "deterministic_jitter j (delay div 5)"
  have jit: "0 \<le> ?jit" "?jit \<le> delay div 5"
    using jitter_bounds [of j "delay div 5"] nonneg by (cases "0 < delay div 5"; simp)+
  have at: "retry_at config j attempts now = min I64_MAX (now + delay + ?jit)"
    unfolding retry_at_def Let_def delay sdiv by (rule i64_saturating_add_assoc_nonneg [OF assms(4) nonneg jit(1)])
  have "delay \<le> max_retry_ms config" by (simp add: delay_def)
  moreover have "min I64_MAX (now + delay) \<le> min I64_MAX (now + delay + ?jit)"
    "min I64_MAX (now + delay + ?jit) \<le> min I64_MAX (now + delay + delay div 5)"
    using jit by (intro min.mono order_refl; linarith)+
  ultimately show ?thesis unfolding Let_def delay_def [symmetric] at by blast
qed

theorem backoff_bounded_witness: "retry_at default_config ''prepare'' 3 0 \<le> 4000 + 4000 div 5"
proof -
  have "base_retry_ms default_config * 2 ^ min (3 - 1) 16 = 4000" "max_retry_ms default_config = 60000"
    "0 < base_retry_ms default_config" "base_retry_ms default_config * 65536 \<le> I64_MAX" "is_i64 0"
    by (simp_all add: default_config_def is_i64_def machine_constants)
  with backoff_bounded [of default_config 0 3 "''prepare''"] show ?thesis by (simp add: Let_def)
qed

section \<open>Reaping and cancellation\<close>

text \<open>
  C30. Reaping handles exactly the expired leases, in any order: the answer is their number,
  each expired job goes to its retry wait or to the dead letters as a failure would have sent
  it, no other job changes, no lease that has expired by then remains, and every order in which
  the hash maps may be walked gives the same scheduler.
\<close>

theorem reap_exact:
  assumes "reachable config s"
  shows "snd (reap now s) = card {(d, j). \<exists>job. job_at s d j = Some job \<and> lease_expired now job} \<and>
    (\<forall>d j. job_at (fst (reap now s)) d j =
       map_option (\<lambda>job. if lease_expired now job then requeued (sc_config s) j now job else job) (job_at s d j)) \<and>
    (\<forall>d j job. job_at (fst (reap now s)) d j = Some job \<longrightarrow> \<not> lease_expired now job) \<and>
    (\<forall>order. mset order = mset (expired_jobs s now) \<longrightarrow>
       fst (reap now s) = fold (\<lambda>(d, j) s. fst (retry_or_dead_letter d j now s)) order s)"
proof -
  note struct = sched_inv_struct [OF sched_inv_reachable [OF assms]]
  have "{(d, j). \<exists>job. job_at s d j = Some job \<and> lease_expired now job} = set (expired_jobs s now)"
    using set_expired_jobs [OF struct] by auto
  then have "snd (reap now s) = card {(d, j). \<exists>job. job_at s d j = Some job \<and> lease_expired now job}"
    using distinct_expired_jobs [OF struct] by (simp add: reap_def Let_def distinct_card)
  moreover have "\<not> lease_expired now job" if "job_at (fst (reap now s)) d j = Some job" for d j job
  proof -
    from that obtain job0 where "job = (if lease_expired now job0 then requeued (sc_config s) j now job0 else job0)"
      by (auto simp: job_at_reap [OF struct])
    then show ?thesis by (cases "lease_expired now job0") (simp_all add: lease_expired_def)
  qed
  moreover have "fst (reap now s) = fold (reap_one now) order s" if "mset order = mset (expired_jobs s now)" for order
    using reap_fold_permuted [OF that] by (simp add: reap_def Let_def)
  ultimately show ?thesis using job_at_reap [OF struct] by blast
qed

theorem reap_exact_witness:
  "card {(d, j). \<exists>job. job_at demo_claimed d j = Some job \<and> lease_expired 7000 job} = 1"
proof -
  have "snd (reap 7000 demo_claimed) = 1" by (simp only: reap_demo snd_conv)
  with reap_exact [OF reachable_demo(3), of 7000] show ?thesis by (metis (no_types, lifting))
qed

text \<open>
  C34. Cancelling a DAG moves every unfinished job of it to \<open>Cancelled\<close>, drops the leases, keeps
  finished jobs with their results, touches no other DAG and answers with the number of jobs it
  moved; an unknown DAG is an error. Afterwards no job of the DAG can be claimed.
\<close>

theorem cancel_exact:
  assumes "reachable config s"
  shows "(hm_get (sc_dags s) d = None \<longrightarrow> cancel d s = (s, Inl DagNotFound)) \<and>
    (hm_get (sc_dags s) d \<noteq> None \<longrightarrow>
       snd (cancel d s) = Inr (card {j. \<exists>job. job_at s d j = Some job \<and> \<not> is_terminal (jr_state job)}) \<and>
       (\<forall>d' j. job_at (fst (cancel d s)) d' j =
          map_option (\<lambda>job. if d' = d \<and> \<not> is_terminal (jr_state job)
            then job\<lparr>jr_state := Cancelled, jr_lease := None\<rparr> else job) (job_at s d' j)) \<and>
       (\<forall>j job. \<not> claimable_at (fst (cancel d s)) d j job))"
proof (cases "hm_get (sc_dags s) d")
  case None
  then show ?thesis by (simp add: cancel_missing)
next
  case (Some dag)
  let ?live = "\<lambda>job. \<not> is_terminal (jr_state job)"
  note struct = sched_inv_struct [OF sched_inv_reachable [OF assms]]
  have wf: "hm_wf (dr_jobs dag)" using struct Some by (auto simp: struct_inv_def dag_inv_def)
  have "length (filter ?live (hm_values (dr_jobs dag))) = card {j. \<exists>job. job_at s d j = Some job \<and> ?live job}"
    using Some by (simp add: hm_count_values [OF wf] job_at_def)
  then have "snd (cancel d s) = Inr (card {j. \<exists>job. job_at s d j = Some job \<and> ?live job})"
    using Some by (simp add: cancel_def)
  moreover have at: "job_at (fst (cancel d s)) d' j =
      map_option (\<lambda>job. if d' = d \<and> ?live job then job\<lparr>jr_state := Cancelled, jr_lease := None\<rparr> else job)
        (job_at s d' j)" for d' j
    by (cases "job_at s d' j") (auto simp: cancel_views [OF Some] cancel_job_def)
  moreover have "\<not> claimable_at (fst (cancel d s)) d j job" for j job
    by (auto simp: claimable_at_def at claimable_state_def is_terminal_def split: if_splits)
  ultimately show ?thesis using Some by simp
qed

theorem cancel_exact_witness:
  "card {j. \<exists>job. job_at demo_claimed ''release_demo'' j = Some job \<and> \<not> is_terminal (jr_state job)} = 3"
proof -
  have "map_option (\<lambda>_. ()) (hm_get (sc_dags demo_claimed) ''release_demo'') = Some ()" by code_simp
  then have "hm_get (sc_dags demo_claimed) ''release_demo'' \<noteq> None" by auto
  with cancel_exact [OF reachable_demo(3), of "''release_demo''"] cancel_demo show ?thesis by simp
qed

section \<open>Admission\<close>

lemma root_count_eq:
  assumes "distinct (job_ids spec)"
  shows "root_count spec = length (filter (\<lambda>job. in_degree spec (js_id job) = 0) (ds_jobs spec))"
proof -
  let ?m = "dependency_counts spec"
  have wf: "hm_wf ?m" unfolding dependency_counts_def
    by (intro hm_wf_count_loop hm_wf_insert_each) simp
  have "length (filter (\<lambda>n. n = 0) (hm_values ?m)) = card {j. \<exists>n. hm_get ?m j = Some n \<and> n = 0}"
    by (rule hm_count_values [OF wf])
  also have "{j. \<exists>n. hm_get ?m j = Some n \<and> n = 0} = {j \<in> set (job_ids spec). in_degree spec j = 0}"
    by (auto simp: dependency_counts_get)
  also have "\<dots> = set (map js_id (filter (\<lambda>job. in_degree spec (js_id job) = 0) (ds_jobs spec)))" by auto
  also have "card \<dots> = length (map js_id (filter (\<lambda>job. in_degree spec (js_id job) = 0) (ds_jobs spec)))"
    using assms by (intro distinct_card) (rule distinct_map_filter)
  finally show ?thesis by (simp add: root_count_def)
qed

text \<open>
  C31. Admission is decided in this order: an invalid graph is refused with its validation
  error, a known identifier with \<open>DagAlreadyExists\<close>, a full scheduler or a ready queue without
  room for the graph's roots with \<open>Overloaded\<close>; every other graph is admitted. An admitted
  graph adds exactly its jobs, each with its in-degree as counter and ready exactly when that
  is zero, and its roots fit into the ready queue.
\<close>

theorem admission_decided:
  assumes "validate spec = Some r"
  shows "\<exists>s' answer. submit spec now s = Some (s', answer) \<and>
    (let roots = length (filter (\<lambda>job. in_degree spec (js_id job) = 0) (ds_jobs spec)) in
     answer =
      (case r of
         Inl e \<Rightarrow> Inl (Validation e)
       | Inr _ \<Rightarrow>
         if hm_get (sc_dags s) (ds_id spec) \<noteq> None then Inl DagAlreadyExists
         else if max_dags (sc_config s) \<le> hm_len (sc_dags s) then Inl Overloaded
         else if max_ready_jobs (sc_config s) < min U64_MAX (rh_len (sc_ready s) + roots) then Inl Overloaded
         else Inr ()) \<and>
     (isl answer \<longrightarrow> s' = s) \<and>
     (answer = Inr () \<longrightarrow>
        rh_len (sc_ready s') = rh_len (sc_ready s) + roots \<and>
        hm_len (sc_dags s') = Suc (hm_len (sc_dags s)) \<and>
        (\<forall>d j rec. job_at s' d j = Some rec \<longleftrightarrow>
           (if d = ds_id spec
            then \<exists>job\<in>set (ds_jobs spec). js_id job = j \<and>
              rec = \<lparr>jr_spec = job, jr_state = (if in_degree spec j = 0 then Ready else Pending), jr_attempts = 0,
                     jr_available_at_ms = now, jr_remaining_dependencies = in_degree spec j,
                     jr_lease = None, jr_result = None\<rparr>
            else job_at s d j = Some rec))))"
proof (cases r)
  case (Inl e)
  with assms show ?thesis by (simp add: submit_invalid Let_def)
next
  case (Inr order)
  with assms have v: "validate spec = Some (Inr order)" by simp
  then have dist: "distinct (job_ids spec)"
    using validate_Inr_well_formed by (auto simp: dag_well_formed_def)
  let ?counts = "dependency_counts spec"
  have rec: "admitted ?counts now job = \<lparr>jr_spec = job, jr_state = (if in_degree spec (js_id job) = 0 then Ready else Pending),
      jr_attempts = 0, jr_available_at_ms = now, jr_remaining_dependencies = in_degree spec (js_id job),
      jr_lease = None, jr_result = None\<rparr>" if "job \<in> set (ds_jobs spec)" for job
    using that by (auto simp: admitted_def dependency_counts_get Let_def)
  have roots: "root_count spec = length (filter (\<lambda>job. in_degree spec (js_id job) = 0) (ds_jobs spec))"
    by (rule root_count_eq [OF dist])
  have "filter (\<lambda>job. jr_state (admitted ?counts now job) = Ready) (ds_jobs spec) =
      filter (\<lambda>job. in_degree spec (js_id job) = 0) (ds_jobs spec)"
    by (rule filter_cong) (simp_all add: rec)
  then have len: "rh_len (sc_ready (submitted spec now s)) = rh_len (sc_ready s) + root_count spec"
    using rh.elems_push_all [of "map (\<lambda>job. ready_key_of (ds_id spec) (admitted ?counts now job))
        (filter (\<lambda>job. jr_state (admitted ?counts now job) = Ready) (ds_jobs spec))" "sc_ready s"]
    by (simp add: submitted_def roots rh_len_def flip: size_mset)
  have jobs: "job_at (submitted spec now s) d j = Some rec \<longleftrightarrow>
      (if d = ds_id spec then \<exists>job\<in>set (ds_jobs spec). js_id job = j \<and>
         rec = \<lparr>jr_spec = job, jr_state = (if in_degree spec j = 0 then Ready else Pending), jr_attempts = 0,
                jr_available_at_ms = now, jr_remaining_dependencies = in_degree spec j,
                jr_lease = None, jr_result = None\<rparr>
       else job_at s d j = Some rec)" for d j rec
    using rec by (auto simp: submitted_views admitted_jobs_get [OF dist])
  have dags: "hm_len (sc_dags (submitted spec now s)) = Suc (hm_len (sc_dags s))"
    if "hm_get (sc_dags s) (ds_id spec) = None"
    using that by (simp add: submitted_def hm_len_insert hm_contains_key_def)
  show ?thesis
    unfolding submit_eq [OF v] Inr sum.case hm_contains_key_def usize_saturating_add_def roots [symmetric] Let_def
    by (cases "hm_get (sc_dags s) (ds_id spec) = None") (simp_all add: len jobs dags)
qed

theorem admission_decided_witness:
  "\<exists>s'. submit two_cycle 0 demo_submitted = Some (s', Inl (Validation Cycle))"
  using admission_decided [OF validate_two_cycle, of 0 demo_submitted] by (simp add: Let_def)

section \<open>The read model\<close>

text \<open>
  A snapshot lists every job of the DAG exactly once, in the order of the identifiers, and
  shows of each what the scheduler holds; the hash map's iteration order does not show.
\<close>

theorem snapshot_faithful:
  assumes "reachable config s" "snapshot s d = Inr snap"
  shows "dsn_id snap = d \<and> sorted (map sn_id (dsn_jobs snap)) \<and> distinct (map sn_id (dsn_jobs snap)) \<and>
    set (dsn_jobs snap) = {job_snapshot_of job | j job. job_at s d j = Some job}"
proof -
  note inv = sched_inv_reachable [OF assms(1)]
  obtain dag where dag: "hm_get (sc_dags s) d = Some dag"
    "snap = \<lparr>dsn_id = d, dsn_jobs = sort_key sn_id (map job_snapshot_of (hm_values (dr_jobs dag)))\<rparr>"
    using assms(2) by (auto simp: snapshot_def split: option.splits)
  have wf: "hm_wf (dr_jobs dag)"
    using sched_inv_struct [OF inv] dag(1) by (auto simp: struct_inv_def dag_inv_def)
  have ids: "js_id (jr_spec job) = j" if "(j, job) \<in> set (dr_jobs dag)" for j job
    using that dag(1) sched_inv_job(4) [OF inv, of d j job] by (simp add: job_at_def hm_in_iff_get [OF wf])
  have "map sn_id (map job_snapshot_of (hm_values (dr_jobs dag))) = map fst (dr_jobs dag)"
    by (auto simp: hm_values_def job_snapshot_of_def dest: ids)
  then have "distinct (map sn_id (map job_snapshot_of (hm_values (dr_jobs dag))))"
    using wf by (simp add: hm_wf_def)
  then have "distinct (map sn_id (dsn_jobs snap))"
    unfolding dag(2) dag_snapshot.simps by (metis mset_eq_imp_distinct_iff mset_map mset_sort)
  moreover have "set (dsn_jobs snap) = {job_snapshot_of job | j job. job_at s d j = Some job}"
    using dag by (force simp: hm_values_def job_at_def hm_in_iff_get [OF wf, symmetric])
  ultimately show ?thesis by (simp add: dag(2))
qed

theorem snapshot_faithful_witness:
  "\<exists>snap. snapshot demo_claimed ''release_demo'' = Inr snap \<and> sorted (map sn_id (dsn_jobs snap))"
proof -
  have "\<not> isl (snapshot demo_claimed ''release_demo'')" by code_simp
  then obtain snap where "snapshot demo_claimed ''release_demo'' = Inr snap"
    by (cases "snapshot demo_claimed ''release_demo''") auto
  with snapshot_faithful [OF reachable_demo(3) this] show ?thesis by blast
qed

section \<open>Lease tokens\<close>

lemma last_field_unique:
  assumes "xs @ CHR ''-'' # show_nat m = ys @ CHR ''-'' # show_nat n"
  shows "m = n"
proof -
  have "show_nat m = show_nat n"
    using assms minus_notin_show_nat [of m] minus_notin_show_nat [of n]
    by (auto simp: append_eq_append_conv2 Cons_eq_append_conv append_eq_Cons_conv)
      (metis in_set_conv_decomp)+
  then show ?thesis by (rule show_nat_inj)
qed

lemma lease_token_number: "lease_token d j m = lease_token d' j' n \<Longrightarrow> m = n"
  using last_field_unique [of "''lease-'' @ d @ ''-'' @ j" m "''lease-'' @ d' @ ''-'' @ j'" n]
  by (simp add: lease_token_def)

text \<open>
  A token is used once: the token a claim hands out was not issued before for any job, and
  exactly the claimed job holds it afterwards, even though job and DAG identifiers may contain the separator of
  the token's format. It holds until the sequence counter is exhausted.
\<close>

theorem claim_token_fresh:
  assumes "reachable config s" "claim owner now lease_ms s = (s', Inr (Some cj))" "sc_sequence s < U64_MAX"
  shows "(\<forall>d j. \<not> token_issued s (d, j) (cj_lease_token cj)) \<and>
    (\<forall>d j. lease_holder s' (d, j) = Some (cj_lease_token cj) \<longleftrightarrow> d = cj_dag_id cj \<and> j = cj_job_id cj)"
proof -
  note inv = sched_inv_reachable [OF assms(1)]
  let ?s1 = "fst (reap now s)"
  from inv assms(2) have "claim_granted owner now lease_ms ?s1 s' cj"
    by (cases rule: claim_cases) simp_all
  then obtain d j job token where g: "token = lease_token d j (u64_saturating_add (sc_sequence s) 1)"
    "cj = grant d j token (i64_saturating_add now lease_ms) job"
    "\<And>d' j'. job_at s' d' j' = (if d' = d \<and> j' = j
       then Some (leased_job owner token (i64_saturating_add now lease_ms) job) else job_at ?s1 d' j')"
    by (rule claim_granted_views) simp
  have token: "cj_lease_token cj = token" "cj_dag_id cj = d" "cj_job_id cj = j" "token = lease_token d j (Suc (sc_sequence s))"
    using g(1,2) assms(3) by (simp_all add: grant_def u64_saturating_add_def)
  have new: "\<not> token_issued s' (d', j') token" if "sc_sequence s' = sc_sequence s" for s' d' j'
    using that by (auto simp: token_issued_def token(4) dest!: lease_token_number)
  then have "lease_holder ?s1 (d', j') \<noteq> Some token" for d' j'
    using sched_fence.holder_issued [OF sched_inv_reap [OF inv, of now], of "(d', j')" token] by auto
  then have "lease_holder s' (d', j') = Some token \<longleftrightarrow> d' = d \<and> j' = j" for d' j'
    using g(3) by (auto simp: lease_holder_def leased_job_def)
  with new token show ?thesis by simp
qed

theorem claim_token_fresh_witness:
  "lease_holder demo_claimed (''release_demo'', ''prepare'') = Some demo_token"
proof -
  have "sc_sequence demo_submitted < U64_MAX" by code_simp
  from claim_token_fresh [OF reachable_demo(2) claim_demo [unfolded demo_claim_def] this] show ?thesis by simp
qed

end
