(* ===== verification/Store.thy ===== *)
theory Store
  imports Scheduler "HOL-Library.Product_Lexorder"
begin

text \<open>
  \<open>src/store.rs\<close> over the schema of \<open>migrations/0001_control_plane.sql\<close>: the tables are lists of
  rows, every SQL statement of the source is a function on them, and a method is the sequence
  of its statements in one transaction, which an error rolls back. Text columns hold the
  strings of the code (\<open>state_name\<close>, \<open>kind_name\<close>), so that reading a row back parses them.

  Parameters stand for what is not in the source: \<open>now\<close> is \<open>CURRENT_TIMESTAMP\<close>, constant within
  a transaction, in microseconds; \<open>token\<close> the UUID that \<open>Uuid::new_v4\<close> returns and \<open>show_uuid\<close>
  its printer; \<open>locked\<close> the rows another transaction has locked, which \<open>SKIP LOCKED\<close> passes over;
  \<open>ck\<close> the collation key by which the database orders text. PostgreSQL text cannot hold a zero
  byte. A method runs on a reachable database; what a caller sees when the connection fails is in
  \<open>Http\<close>, where every call of a method goes through \<open>over_link\<close>.
\<close>

section \<open>Names and errors\<close>

type_synonym timestamp = int
type_synonym uuid = "128 word"

datatype database_error = UniqueViolation | ForeignKeyViolation | CheckViolation | InvalidText | NumericOutOfRange | DecodeError | ConnectionLost

datatype store_error =
    StoreValidation validation_error
  | Database database_error
  | NotFound
  | StoreLeaseConflict
  | InvalidConfiguration
  | CorruptData

definition kind_name :: "job_kind \<Rightarrow> byte_string" where
  "kind_name kind = (case kind of Delay \<Rightarrow> ''delay'' | Checksum \<Rightarrow> ''checksum'' | Uppercase \<Rightarrow> ''uppercase'')"

definition parse_kind :: "byte_string \<Rightarrow> store_error + job_kind" where
  "parse_kind value =
     (if value = ''delay'' then Inr Delay
      else if value = ''checksum'' then Inr Checksum
      else if value = ''uppercase'' then Inr Uppercase
      else Inl CorruptData)"

definition state_name :: "job_state \<Rightarrow> byte_string" where
  "state_name state =
     (case state of
        Pending \<Rightarrow> ''pending''
      | Ready \<Rightarrow> ''ready''
      | RetryWait \<Rightarrow> ''retry_wait''
      | Leased \<Rightarrow> ''leased''
      | Succeeded \<Rightarrow> ''succeeded''
      | DeadLettered \<Rightarrow> ''dead_lettered''
      | Cancelled \<Rightarrow> ''cancelled'')"

definition parse_state :: "byte_string \<Rightarrow> store_error + job_state" where
  "parse_state value =
     (if value = ''pending'' then Inr Pending
      else if value = ''ready'' then Inr Ready
      else if value = ''retry_wait'' then Inr RetryWait
      else if value = ''leased'' then Inr Leased
      else if value = ''succeeded'' then Inr Succeeded
      else if value = ''dead_lettered'' then Inr DeadLettered
      else if value = ''cancelled'' then Inr Cancelled
      else Inl CorruptData)"

text \<open>\<open>unix_millis\<close>: nanoseconds to milliseconds, truncated towards zero and clamped to \<open>i64\<close>.\<close>

definition unix_millis :: "int \<Rightarrow> int" where
  "unix_millis nanos =
     (let q = nanos sdiv 1000000
      in if is_i64 q then q else if nanos < 0 then I64_MIN else I64_MAX)"

definition timestamp_nanos :: "timestamp \<Rightarrow> int" where
  "timestamp_nanos t = 1000 * t"

definition millisecond :: timestamp where
  "millisecond = 1000"

definition validate_owner_and_lease :: "byte_string \<Rightarrow> int \<Rightarrow> store_error + unit" where
  "validate_owner_and_lease owner lease_ms =
     (if owner = [] \<or> 64 < length owner \<or> \<not> (1 \<le> lease_ms \<and> lease_ms \<le> 60000)
      then Inl InvalidConfiguration else Inr ())"

definition ensure_compare_and_set :: "nat \<Rightarrow> store_error + unit" where
  "ensure_compare_and_set changed = (if changed = 1 then Inr () else Inl StoreLeaseConflict)"

text \<open>The check of \<open>connect\<close> on the pool size.\<close>

definition check_pool_size :: "nat \<Rightarrow> store_error + unit" where
  "check_pool_size max_connections =
     (if 1 \<le> max_connections \<and> max_connections \<le> 100 then Inr () else Inl InvalidConfiguration)"

section \<open>Tables\<close>

record dag_row =
  dg_id :: byte_string
  dg_state :: byte_string
  dg_updated_at :: timestamp

record job_row =
  jb_dag_id :: byte_string
  jb_id :: byte_string
  jb_kind :: byte_string
  jb_payload :: byte_string
  jb_max_attempts :: int
  jb_attempts :: int
  jb_priority :: int
  jb_state :: byte_string
  jb_available_at :: timestamp
  jb_lease_owner :: "byte_string option"
  jb_lease_token :: "uuid option"
  jb_lease_expires_at :: "timestamp option"
  jb_result :: "byte_string option"
  jb_updated_at :: timestamp

record dependency_row =
  dp_dag_id :: byte_string
  dp_parent_id :: byte_string
  dp_child_id :: byte_string

record event_row =
  ev_dag_id :: byte_string
  ev_job_id :: byte_string
  ev_event_type :: byte_string
  ev_attempt :: int
  ev_owner :: byte_string
  ev_occurred_at :: timestamp

record database =
  db_dags :: "dag_row list"
  db_jobs :: "job_row list"
  db_dependencies :: "dependency_row list"
  db_events :: "event_row list"

definition empty_database :: database where
  "empty_database = \<lparr>db_dags = [], db_jobs = [], db_dependencies = [], db_events = []\<rparr>"

definition pg_text :: "byte_string \<Rightarrow> bool" where
  "pg_text s \<longleftrightarrow> CHR 0x00 \<notin> set s"

definition identifier_check :: "byte_string \<Rightarrow> bool" where
  "identifier_check s \<longleftrightarrow> s \<noteq> [] \<and> length s \<le> 64 \<and> list_all identifier_byte s"

text \<open>The \<open>CHECK\<close> constraints of the table \<open>jobs\<close>.\<close>

definition job_row_check :: "job_row \<Rightarrow> bool" where
  "job_row_check r \<longleftrightarrow>
     identifier_check (jb_id r) \<and>
     jb_kind r \<in> {''delay'', ''checksum'', ''uppercase''} \<and>
     length (jb_payload r) \<le> 4096 \<and>
     1 \<le> jb_max_attempts r \<and> jb_max_attempts r \<le> 20 \<and>
     0 \<le> jb_attempts r \<and>
     - 100 \<le> jb_priority r \<and> jb_priority r \<le> 100 \<and>
     jb_state r \<in> {''pending'', ''ready'', ''retry_wait'', ''leased'', ''succeeded'', ''dead_lettered'', ''cancelled''} \<and>
     (case jb_result r of None \<Rightarrow> True | Some result \<Rightarrow> length result \<le> 4096) \<and>
     (jb_state r = ''leased'' \<longleftrightarrow>
        jb_lease_owner r \<noteq> None \<and> jb_lease_token r \<noteq> None \<and> jb_lease_expires_at r \<noteq> None)"

section \<open>Statements\<close>

text \<open>A transaction: the tables change only when every statement succeeds and it commits.\<close>

definition transaction :: "(database \<Rightarrow> store_error + database \<times> 'a) \<Rightarrow> database \<Rightarrow> database \<times> (store_error + 'a)" where
  "transaction body db = (case body db of Inl e \<Rightarrow> (db, Inl e) | Inr (db', x) \<Rightarrow> (db', Inr x))"

definition update_jobs :: "(job_row \<Rightarrow> bool) \<Rightarrow> (job_row \<Rightarrow> job_row) \<Rightarrow> database \<Rightarrow> database" where
  "update_jobs p f db = db\<lparr>db_jobs := map (\<lambda>r. if p r then f r else r) (db_jobs db)\<rparr>"

definition rows_affected :: "(job_row \<Rightarrow> bool) \<Rightarrow> database \<Rightarrow> nat" where
  "rows_affected p db = length (filter p (db_jobs db))"

definition insert_dag :: "byte_string \<Rightarrow> timestamp \<Rightarrow> database \<Rightarrow> store_error + database" where
  "insert_dag dag_id now db =
     (if \<not> pg_text dag_id then Inl (Database InvalidText)
      else if \<not> identifier_check dag_id then Inl (Database CheckViolation)
      else if dag_id \<in> dg_id ` set (db_dags db) then Inl (Database UniqueViolation)
      else Inr (db\<lparr>db_dags := db_dags db @ [\<lparr>dg_id = dag_id, dg_state = ''running'', dg_updated_at = now\<rparr>]\<rparr>))"

definition insert_job :: "job_row \<Rightarrow> database \<Rightarrow> store_error + database" where
  "insert_job r db =
     (if \<not> (pg_text (jb_dag_id r) \<and> pg_text (jb_id r) \<and> pg_text (jb_payload r)) then Inl (Database InvalidText)
      else if \<not> job_row_check r then Inl (Database CheckViolation)
      else if \<exists>r'\<in>set (db_jobs db). jb_dag_id r' = jb_dag_id r \<and> jb_id r' = jb_id r
      then Inl (Database UniqueViolation)
      else if jb_dag_id r \<notin> dg_id ` set (db_dags db) then Inl (Database ForeignKeyViolation)
      else Inr (db\<lparr>db_jobs := db_jobs db @ [r]\<rparr>))"

definition insert_dependency :: "dependency_row \<Rightarrow> database \<Rightarrow> store_error + database" where
  "insert_dependency e db =
     (if \<not> (pg_text (dp_dag_id e) \<and> pg_text (dp_parent_id e) \<and> pg_text (dp_child_id e)) then Inl (Database InvalidText)
      else if dp_parent_id e = dp_child_id e then Inl (Database CheckViolation)
      else if e \<in> set (db_dependencies db) then Inl (Database UniqueViolation)
      else if \<not> (\<exists>r\<in>set (db_jobs db). jb_dag_id r = dp_dag_id e \<and> jb_id r = dp_parent_id e)
           \<or> \<not> (\<exists>r\<in>set (db_jobs db). jb_dag_id r = dp_dag_id e \<and> jb_id r = dp_child_id e)
      then Inl (Database ForeignKeyViolation)
      else Inr (db\<lparr>db_dependencies := db_dependencies db @ [e]\<rparr>))"

text \<open>\<open>insert_event\<close>: an \<open>INSERT ... SELECT\<close> of the job's own row.\<close>

definition insert_event ::
  "byte_string \<Rightarrow> byte_string \<Rightarrow> byte_string \<Rightarrow> byte_string \<Rightarrow> timestamp \<Rightarrow> database \<Rightarrow> database" where
  "insert_event dag_id job_id event_type owner now db =
     db\<lparr>db_events := db_events db @
       map (\<lambda>r. \<lparr>ev_dag_id = jb_dag_id r, ev_job_id = jb_id r, ev_event_type = event_type,
                 ev_attempt = jb_attempts r, ev_owner = owner, ev_occurred_at = now\<rparr>)
         (filter (\<lambda>r. jb_dag_id r = dag_id \<and> jb_id r = job_id) (db_jobs db))\<rparr>"

section \<open>Submission\<close>

definition submitted_row :: "byte_string \<Rightarrow> (byte_string, nat) hash_map \<Rightarrow> timestamp \<Rightarrow> job_spec \<Rightarrow> job_row" where
  "submitted_row dag_id counts now job =
     \<lparr>jb_dag_id = dag_id, jb_id = js_id job, jb_kind = kind_name (js_kind job), jb_payload = js_payload job,
      jb_max_attempts = int (js_max_attempts job), jb_attempts = 0, jb_priority = js_priority job,
      jb_state = (if (case hm_get counts (js_id job) of None \<Rightarrow> 0 | Some n \<Rightarrow> n) = 0 then ''ready'' else ''pending''),
      jb_available_at = now, jb_lease_owner = None, jb_lease_token = None, jb_lease_expires_at = None,
      jb_result = None, jb_updated_at = now\<rparr>"

fun insert_jobs ::
  "byte_string \<Rightarrow> (byte_string, nat) hash_map \<Rightarrow> timestamp \<Rightarrow> job_spec list \<Rightarrow> database \<Rightarrow> store_error + database" where
  "insert_jobs dag_id counts now [] db = Inr db"
| "insert_jobs dag_id counts now (job # jobs) db =
     (if 32767 < js_max_attempts job then Inl InvalidConfiguration
      else
        (case insert_job (submitted_row dag_id counts now job) db of
           Inl e \<Rightarrow> Inl e
         | Inr db' \<Rightarrow> insert_jobs dag_id counts now jobs db'))"

fun insert_dependencies :: "byte_string \<Rightarrow> dependency list \<Rightarrow> database \<Rightarrow> store_error + database" where
  "insert_dependencies dag_id [] db = Inr db"
| "insert_dependencies dag_id (edge # edges) db =
     (case insert_dependency \<lparr>dp_dag_id = dag_id, dp_parent_id = dep_from edge, dp_child_id = dep_to edge\<rparr> db of
        Inl e \<Rightarrow> Inl e
      | Inr db' \<Rightarrow> insert_dependencies dag_id edges db')"

definition store_submit :: "dag_spec \<Rightarrow> timestamp \<Rightarrow> database \<Rightarrow> (database \<times> (store_error + unit)) option" where
  "store_submit spec now db =
     (case validate spec of
        None \<Rightarrow> None
      | Some (Inl e) \<Rightarrow> Some (db, Inl (StoreValidation e))
      | Some (Inr _) \<Rightarrow> Some (transaction (\<lambda>db.
          (case insert_dag (ds_id spec) now db of
             Inl e \<Rightarrow> Inl e
           | Inr db1 \<Rightarrow>
             (case insert_jobs (ds_id spec) (dependency_counts spec) now (ds_jobs spec) db1 of
                Inl e \<Rightarrow> Inl e
              | Inr db2 \<Rightarrow>
                (case insert_dependencies (ds_id spec) (ds_dependencies spec) db2 of
                   Inl e \<Rightarrow> Inl e
                 | Inr db3 \<Rightarrow> Inr (db3, ()))))) db))"

section \<open>Leases\<close>

definition backoff_ms :: "int \<Rightarrow> int" where
  "backoff_ms attempts = min 60000 (1000 * 2 ^ nat (min 16 (max 0 (attempts - 1))))"

text \<open>The common \<open>SET\<close> clause of \<open>fail\<close> and the reaper.\<close>

definition requeue_row :: "timestamp \<Rightarrow> job_row \<Rightarrow> job_row" where
  "requeue_row now r =
     r\<lparr>jb_state := (if jb_max_attempts r \<le> jb_attempts r then ''dead_lettered'' else ''retry_wait''),
       jb_available_at := (if jb_max_attempts r \<le> jb_attempts r then jb_available_at r
                           else now + backoff_ms (jb_attempts r) * millisecond),
       jb_lease_owner := None, jb_lease_token := None, jb_lease_expires_at := None, jb_updated_at := now\<rparr>"

definition expired_row :: "timestamp \<Rightarrow> job_row \<Rightarrow> bool" where
  "expired_row now r \<longleftrightarrow>
     jb_state r = ''leased'' \<and> (case jb_lease_expires_at r of None \<Rightarrow> False | Some t \<Rightarrow> t \<le> now)"

definition reap_in_transaction :: "timestamp \<Rightarrow> database \<Rightarrow> database \<times> nat" where
  "reap_in_transaction now db =
     (update_jobs (expired_row now) (requeue_row now) db, rows_affected (expired_row now) db)"

definition store_reap :: "timestamp \<Rightarrow> database \<Rightarrow> database \<times> nat" where
  "store_reap now db = reap_in_transaction now db"

text \<open>A parent in the \<open>job_dependencies\<close> table that has not succeeded.\<close>

definition open_parent :: "database \<Rightarrow> job_row \<Rightarrow> bool" where
  "open_parent db child \<longleftrightarrow>
     (\<exists>e\<in>set (db_dependencies db). \<exists>parent\<in>set (db_jobs db).
        jb_dag_id parent = dp_dag_id e \<and> jb_id parent = dp_parent_id e \<and>
        dp_dag_id e = jb_dag_id child \<and> dp_child_id e = jb_id child \<and> jb_state parent \<noteq> ''succeeded'')"

definition candidate_row :: "timestamp \<Rightarrow> database \<Rightarrow> job_row \<Rightarrow> bool" where
  "candidate_row now db r \<longleftrightarrow>
     (\<exists>d\<in>set (db_dags db). dg_id d = jb_dag_id r \<and> dg_state d = ''running'') \<and>
     (jb_state r = ''ready'' \<or> jb_state r = ''retry_wait'') \<and> jb_available_at r \<le> now \<and>
     \<not> open_parent db r"

definition claim_order :: "(byte_string \<Rightarrow> byte_string) \<Rightarrow> job_row \<Rightarrow> int \<times> timestamp \<times> byte_string \<times> byte_string" where
  "claim_order ck r = (- jb_priority r, jb_available_at r, ck (jb_dag_id r), ck (jb_id r))"

definition lease_row :: "byte_string \<Rightarrow> uuid \<Rightarrow> int \<Rightarrow> timestamp \<Rightarrow> job_row \<Rightarrow> job_row" where
  "lease_row owner token lease_ms now r =
     r\<lparr>jb_state := ''leased'', jb_attempts := jb_attempts r + 1, jb_lease_owner := Some owner,
       jb_lease_token := Some token, jb_lease_expires_at := Some (now + lease_ms * millisecond),
       jb_updated_at := now\<rparr>"

definition claim_statement ::
  "(byte_string \<Rightarrow> byte_string) \<Rightarrow> (byte_string \<times> byte_string \<Rightarrow> bool) \<Rightarrow> byte_string \<Rightarrow> uuid \<Rightarrow> int \<Rightarrow> timestamp
    \<Rightarrow> database \<Rightarrow> store_error + database \<times> job_row option" where
  "claim_statement ck locked owner token lease_ms now db =
     (if \<not> pg_text owner then Inl (Database InvalidText)
      else
        (case sort_key (claim_order ck)
                (filter (\<lambda>r. candidate_row now db r \<and> \<not> locked (jb_dag_id r, jb_id r)) (db_jobs db)) of
           [] \<Rightarrow> Inr (db, None)
         | c # _ \<Rightarrow>
           if 32767 < jb_attempts c + 1 then Inl (Database NumericOutOfRange)
           else Inr (update_jobs (\<lambda>r. jb_dag_id r = jb_dag_id c \<and> jb_id r = jb_id c)
                       (lease_row owner token lease_ms now) db,
                     Some (lease_row owner token lease_ms now c))))"

definition claimed_row :: "(uuid \<Rightarrow> byte_string) \<Rightarrow> uuid \<Rightarrow> job_row \<Rightarrow> store_error + claimed_job" where
  "claimed_row show_uuid token r =
     (case jb_lease_expires_at r of
        None \<Rightarrow> Inl (Database DecodeError)
      | Some expires \<Rightarrow>
        (case parse_kind (jb_kind r) of
           Inl e \<Rightarrow> Inl e
         | Inr kind \<Rightarrow>
           if jb_attempts r < 0 then Inl CorruptData
           else Inr \<lparr>cj_dag_id = jb_dag_id r, cj_job_id = jb_id r, cj_kind = kind, cj_payload = jb_payload r,
                     cj_attempt = nat (jb_attempts r), cj_lease_token = show_uuid token,
                     cj_lease_expires_at_ms = unix_millis (timestamp_nanos expires)\<rparr>))"

definition claimed_event :: "byte_string \<Rightarrow> timestamp \<Rightarrow> job_row \<Rightarrow> event_row" where
  "claimed_event owner now r =
     \<lparr>ev_dag_id = jb_dag_id r, ev_job_id = jb_id r, ev_event_type = ''claimed'', ev_attempt = jb_attempts r,
      ev_owner = owner, ev_occurred_at = now\<rparr>"

definition store_claim ::
  "(byte_string \<Rightarrow> byte_string) \<Rightarrow> (uuid \<Rightarrow> byte_string) \<Rightarrow> (byte_string \<times> byte_string \<Rightarrow> bool)
    \<Rightarrow> byte_string \<Rightarrow> int \<Rightarrow> uuid \<Rightarrow> timestamp \<Rightarrow> database \<Rightarrow> database \<times> (store_error + claimed_job option)" where
  "store_claim ck show_uuid locked owner lease_ms token now db =
     (case validate_owner_and_lease owner lease_ms of
        Inl e \<Rightarrow> (db, Inl e)
      | Inr _ \<Rightarrow> transaction (\<lambda>db.
          (case claim_statement ck locked owner token lease_ms now (fst (reap_in_transaction now db)) of
             Inl e \<Rightarrow> Inl e
           | Inr (db', None) \<Rightarrow> Inr (db', None)
           | Inr (db', Some r) \<Rightarrow>
             (case claimed_row show_uuid token r of
                Inl e \<Rightarrow> Inl e
              | Inr granted \<Rightarrow> Inr (db'\<lparr>db_events := db_events db' @ [claimed_event owner now r]\<rparr>, Some granted)))) db)"

text \<open>The predicate of the compare-and-set statements.\<close>

definition held_row :: "byte_string \<Rightarrow> byte_string \<Rightarrow> byte_string \<Rightarrow> uuid \<Rightarrow> timestamp \<Rightarrow> job_row \<Rightarrow> bool" where
  "held_row dag_id job_id owner token now r \<longleftrightarrow>
     jb_dag_id r = dag_id \<and> jb_id r = job_id \<and> jb_state r = ''leased'' \<and>
     jb_lease_owner r = Some owner \<and> jb_lease_token r = Some token \<and>
     (case jb_lease_expires_at r of None \<Rightarrow> False | Some t \<Rightarrow> now < t)"

definition store_heartbeat ::
  "byte_string \<Rightarrow> byte_string \<Rightarrow> byte_string \<Rightarrow> uuid \<Rightarrow> int \<Rightarrow> timestamp \<Rightarrow> database \<Rightarrow> database \<times> (store_error + unit)" where
  "store_heartbeat dag_id job_id owner token lease_ms now db =
     (case validate_owner_and_lease owner lease_ms of
        Inl e \<Rightarrow> (db, Inl e)
      | Inr _ \<Rightarrow>
        if \<not> (pg_text dag_id \<and> pg_text job_id \<and> pg_text owner) then (db, Inl (Database InvalidText))
        else
          (update_jobs (held_row dag_id job_id owner token now)
             (\<lambda>r. r\<lparr>jb_lease_expires_at := Some (now + lease_ms * millisecond), jb_updated_at := now\<rparr>) db,
           ensure_compare_and_set (rows_affected (held_row dag_id job_id owner token now) db)))"

section \<open>Completion\<close>

definition succeed_row :: "byte_string \<Rightarrow> timestamp \<Rightarrow> job_row \<Rightarrow> job_row" where
  "succeed_row result now r =
     r\<lparr>jb_state := ''succeeded'', jb_result := Some result, jb_lease_owner := None, jb_lease_token := None,
       jb_lease_expires_at := None, jb_updated_at := now\<rparr>"

text \<open>The \<open>WHERE\<close> clause of the second statement: the children it releases.\<close>

definition released_row :: "byte_string \<Rightarrow> byte_string \<Rightarrow> database \<Rightarrow> job_row \<Rightarrow> bool" where
  "released_row dag_id job_id db child \<longleftrightarrow>
     jb_dag_id child = dag_id \<and> jb_state child = ''pending'' \<and>
     (\<exists>e\<in>set (db_dependencies db). dp_dag_id e = jb_dag_id child \<and> dp_parent_id e = job_id \<and> dp_child_id e = jb_id child) \<and>
     \<not> open_parent db child"

definition release_row :: "timestamp \<Rightarrow> job_row \<Rightarrow> job_row" where
  "release_row now r = r\<lparr>jb_state := ''ready'', jb_available_at := now, jb_updated_at := now\<rparr>"

definition complete_statement ::
  "byte_string \<Rightarrow> byte_string \<Rightarrow> byte_string \<Rightarrow> uuid \<Rightarrow> byte_string \<Rightarrow> timestamp \<Rightarrow> database \<Rightarrow> store_error + database" where
  "complete_statement dag_id job_id owner token result now db =
     (if \<not> (pg_text dag_id \<and> pg_text job_id \<and> pg_text owner \<and> pg_text result) then Inl (Database InvalidText)
      else
        (case ensure_compare_and_set (rows_affected (held_row dag_id job_id owner token now) db) of
           Inl e \<Rightarrow> Inl e
         | Inr _ \<Rightarrow> Inr (update_jobs (held_row dag_id job_id owner token now) (succeed_row result now) db)))"

definition release_statement :: "byte_string \<Rightarrow> byte_string \<Rightarrow> timestamp \<Rightarrow> database \<Rightarrow> database" where
  "release_statement dag_id job_id now db =
     update_jobs (released_row dag_id job_id db) (release_row now) db"

definition store_complete ::
  "byte_string \<Rightarrow> byte_string \<Rightarrow> byte_string \<Rightarrow> uuid \<Rightarrow> byte_string \<Rightarrow> timestamp \<Rightarrow> database
    \<Rightarrow> database \<times> (store_error + unit)" where
  "store_complete dag_id job_id owner token result now db =
     (if MAX_PAYLOAD_BYTES < length result then (db, Inl InvalidConfiguration)
      else transaction (\<lambda>db.
        (case complete_statement dag_id job_id owner token result now db of
           Inl e \<Rightarrow> Inl e
         | Inr db1 \<Rightarrow>
           Inr (insert_event dag_id job_id ''succeeded'' owner now (release_statement dag_id job_id now db1), ()))) db)"

section \<open>Failure\<close>

text \<open>\<open>fetch_optional\<close> takes the first row the statement returns.\<close>

definition store_fail ::
  "byte_string \<Rightarrow> byte_string \<Rightarrow> byte_string \<Rightarrow> uuid \<Rightarrow> timestamp \<Rightarrow> database \<Rightarrow> database \<times> (store_error + job_state)" where
  "store_fail dag_id job_id owner token now db = transaction (\<lambda>db.
     if \<not> (pg_text dag_id \<and> pg_text job_id \<and> pg_text owner) then Inl (Database InvalidText)
     else
       (case filter (held_row dag_id job_id owner token now) (db_jobs db) of
          [] \<Rightarrow> Inl StoreLeaseConflict
        | r # _ \<Rightarrow>
          (case parse_state (jb_state (requeue_row now r)) of
             Inl e \<Rightarrow> Inl e
           | Inr state \<Rightarrow>
             Inr (insert_event dag_id job_id (state_name state) owner now
                    (update_jobs (held_row dag_id job_id owner token now) (requeue_row now) db), state)))) db"

section \<open>Cancellation\<close>

definition cancellable_row :: "byte_string \<Rightarrow> job_row \<Rightarrow> bool" where
  "cancellable_row dag_id r \<longleftrightarrow>
     jb_dag_id r = dag_id \<and> jb_state r \<notin> {''succeeded'', ''dead_lettered'', ''cancelled''}"

definition cancel_row :: "timestamp \<Rightarrow> job_row \<Rightarrow> job_row" where
  "cancel_row now r =
     r\<lparr>jb_state := ''cancelled'', jb_lease_owner := None, jb_lease_token := None, jb_lease_expires_at := None,
       jb_updated_at := now\<rparr>"

definition store_cancel :: "byte_string \<Rightarrow> timestamp \<Rightarrow> database \<Rightarrow> database \<times> (store_error + nat)" where
  "store_cancel dag_id now db = transaction (\<lambda>db.
     if \<not> pg_text dag_id then Inl (Database InvalidText)
     else if dag_id \<notin> dg_id ` set (db_dags db) then Inl NotFound
     else
       let db1 = db\<lparr>db_dags := map (\<lambda>d. if dg_id d = dag_id
                     then d\<lparr>dg_state := ''cancelled'', dg_updated_at := now\<rparr> else d) (db_dags db)\<rparr>
       in Inr (update_jobs (cancellable_row dag_id) (cancel_row now) db1,
               rows_affected (cancellable_row dag_id) db1)) db"

section \<open>Reading\<close>

definition snapshot_row :: "job_row \<Rightarrow> store_error + job_snapshot" where
  "snapshot_row r =
     (case parse_state (jb_state r) of
        Inl e \<Rightarrow> Inl e
      | Inr state \<Rightarrow>
        if jb_attempts r < 0 \<or> jb_max_attempts r < 0 then Inl CorruptData
        else Inr \<lparr>sn_id = jb_id r, sn_state = state, sn_attempts = nat (jb_attempts r),
                  sn_max_attempts = nat (jb_max_attempts r),
                  sn_available_at_ms = unix_millis (timestamp_nanos (jb_available_at r)),
                  sn_lease_owner = jb_lease_owner r,
                  sn_lease_expires_at_ms = map_option (\<lambda>t. unix_millis (timestamp_nanos t)) (jb_lease_expires_at r),
                  sn_result = jb_result r\<rparr>)"

fun snapshot_rows :: "job_row list \<Rightarrow> store_error + job_snapshot list" where
  "snapshot_rows [] = Inr []"
| "snapshot_rows (r # rs) =
     (case snapshot_row r of
        Inl e \<Rightarrow> Inl e
      | Inr snap \<Rightarrow> (case snapshot_rows rs of Inl e \<Rightarrow> Inl e | Inr snaps \<Rightarrow> Inr (snap # snaps)))"

definition store_snapshot :: "(byte_string \<Rightarrow> byte_string) \<Rightarrow> byte_string \<Rightarrow> database \<Rightarrow> store_error + dag_snapshot" where
  "store_snapshot ck dag_id db =
     (if \<not> pg_text dag_id then Inl (Database InvalidText)
      else if dag_id \<notin> dg_id ` set (db_dags db) then Inl NotFound
      else
        (case snapshot_rows (sort_key (\<lambda>r. ck (jb_id r)) (filter (\<lambda>r. jb_dag_id r = dag_id) (db_jobs db))) of
           Inl e \<Rightarrow> Inl e
         | Inr jobs \<Rightarrow> Inr \<lparr>dsn_id = dag_id, dsn_jobs = jobs\<rparr>))"

definition store_list_dags ::
  "(byte_string \<Rightarrow> byte_string) \<Rightarrow> byte_string option \<Rightarrow> nat \<Rightarrow> database \<Rightarrow> store_error + byte_string list" where
  "store_list_dags ck after limit db =
     (if \<not> (1 \<le> limit \<and> limit \<le> 100) then Inl InvalidConfiguration
      else
        let cursor = (case after of None \<Rightarrow> [] | Some a \<Rightarrow> a) in
        if \<not> pg_text cursor then Inl (Database InvalidText)
        else Inr (take limit (sort_key ck (filter (\<lambda>i. ck cursor < ck i) (map dg_id (db_dags db))))))"

end
