(* ===== verification/StoreInv.thy ===== *)
theory StoreInv
  imports Store Kahn
begin

text \<open>
  The invariant of the tables. Keys are unique and foreign keys hold, which the schema enforces;
  beyond the schema, the state of a job agrees with its attempts, lease and result, a job of a
  cancelled DAG is terminal, a job that left \<open>pending\<close> without being cancelled has no open
  parent, and a pending job has one. Every method preserves it when transactions do not overlap.
\<close>

section \<open>The names of the states\<close>

text \<open>
  The SQL literals are the names \<open>state_name\<close> gives, and these are pairwise different; proofs see
  \<open>state_name\<close> only.
\<close>

lemma state_literals:
  "''pending'' = state_name Pending" "''ready'' = state_name Ready" "''retry_wait'' = state_name RetryWait"
  "''leased'' = state_name Leased" "''succeeded'' = state_name Succeeded"
  "''dead_lettered'' = state_name DeadLettered" "''cancelled'' = state_name Cancelled"
  by (simp_all add: state_name_def)

lemma parse_state_name [simp]: "parse_state (state_name st) = Inr st"
  by (cases st) (simp_all add: parse_state_def state_name_def)

lemma state_name_inj [simp]: "state_name a = state_name b \<longleftrightarrow> a = b"
  by (metis parse_state_name sum.inject(2))

lemma parse_kind_name [simp]: "parse_kind (kind_name k) = Inr k"
  by (cases k) (simp_all add: parse_kind_def kind_name_def)

definition state_names :: "byte_string set" where
  "state_names = range state_name"

lemma state_names_eq:
  "{''pending'', ''ready'', ''retry_wait'', ''leased'', ''succeeded'', ''dead_lettered'', ''cancelled''} = state_names"
proof -
  have "(UNIV :: job_state set) = {Pending, Ready, RetryWait, Leased, Succeeded, DeadLettered, Cancelled}"
    using job_state.exhaust by auto
  then have "range state_name = state_name ` {Pending, Ready, RetryWait, Leased, Succeeded, DeadLettered, Cancelled}"
    by (rule arg_cong)
  then show ?thesis unfolding state_names_def state_literals by simp
qed

lemma state_name_in [simp]: "state_name st \<in> state_names"
  by (simp add: state_names_def)

definition kind_names :: "byte_string set" where
  "kind_names = range kind_name"

lemma kind_names_eq: "{''delay'', ''checksum'', ''uppercase''} = kind_names"
proof -
  have "(UNIV :: job_kind set) = {Delay, Checksum, Uppercase}" using job_kind.exhaust by auto
  then have "range kind_name = kind_name ` {Delay, Checksum, Uppercase}" by (rule arg_cong)
  then show ?thesis by (simp add: kind_names_def kind_name_def)
qed

lemma kind_name_in [simp]: "kind_name k \<in> kind_names"
  by (simp add: kind_names_def)

lemmas job_row_check_s = job_row_check_def [unfolded state_names_eq kind_names_eq, unfolded state_literals]
lemmas requeue_row_s = requeue_row_def [unfolded state_literals]
lemmas lease_row_s = lease_row_def [unfolded state_literals]
lemmas succeed_row_s = succeed_row_def [unfolded state_literals]
lemmas release_row_s = release_row_def [unfolded state_literals]
lemmas cancel_row_s = cancel_row_def [unfolded state_literals]
lemmas expired_row_s = expired_row_def [unfolded state_literals]
lemmas candidate_row_s = candidate_row_def [unfolded state_literals]
lemmas held_row_s = held_row_def [unfolded state_literals]
lemmas open_parent_s = open_parent_def [unfolded state_literals]
lemmas released_row_s = released_row_def [unfolded state_literals]
lemmas cancellable_row_s = cancellable_row_def [unfolded state_literals]
lemmas submitted_row_s = submitted_row_def [unfolded state_literals]

section \<open>Rows and keys\<close>

definition job_key :: "job_row \<Rightarrow> byte_string \<times> byte_string" where
  "job_key r = (jb_dag_id r, jb_id r)"

definition terminal_name :: "byte_string \<Rightarrow> bool" where
  "terminal_name st \<longleftrightarrow> st = state_name Succeeded \<or> st = state_name DeadLettered \<or> st = state_name Cancelled"

definition row_inv :: "job_row \<Rightarrow> bool" where
  "row_inv r \<longleftrightarrow>
     job_row_check r \<and> jb_attempts r \<le> jb_max_attempts r \<and>
     (jb_state r \<noteq> state_name Leased \<longrightarrow> jb_lease_owner r = None \<and> jb_lease_token r = None \<and> jb_lease_expires_at r = None) \<and>
     (jb_state r = state_name Succeeded \<longleftrightarrow> jb_result r \<noteq> None) \<and>
     (jb_state r = state_name Pending \<or> jb_state r = state_name Ready \<longrightarrow> jb_attempts r = 0) \<and>
     (jb_state r = state_name RetryWait \<longrightarrow> 1 \<le> jb_attempts r \<and> jb_attempts r < jb_max_attempts r) \<and>
     (jb_state r = state_name Leased \<or> jb_state r = state_name Succeeded \<longrightarrow> 1 \<le> jb_attempts r) \<and>
     (jb_state r = state_name DeadLettered \<longrightarrow> jb_attempts r = jb_max_attempts r)"

text \<open>\<open>open_parent\<close> depends on the key of the child only.\<close>

definition blocked :: "database \<Rightarrow> byte_string \<Rightarrow> byte_string \<Rightarrow> bool" where
  "blocked db d j \<longleftrightarrow>
     (\<exists>p. \<lparr>dp_dag_id = d, dp_parent_id = p, dp_child_id = j\<rparr> \<in> set (db_dependencies db) \<and>
        (\<exists>r\<in>set (db_jobs db). job_key r = (d, p) \<and> jb_state r \<noteq> state_name Succeeded))"

lemma open_parent_blocked: "open_parent db r = blocked db (jb_dag_id r) (jb_id r)"
proof
  assume "open_parent db r"
  then obtain e parent where e: "e \<in> set (db_dependencies db)" "parent \<in> set (db_jobs db)"
    "jb_dag_id parent = dp_dag_id e" "jb_id parent = dp_parent_id e" "dp_dag_id e = jb_dag_id r"
    "dp_child_id e = jb_id r" "jb_state parent \<noteq> state_name Succeeded" by (auto simp: open_parent_s)
  then have "e = \<lparr>dp_dag_id = jb_dag_id r, dp_parent_id = dp_parent_id e, dp_child_id = jb_id r\<rparr>"
    by simp
  with e show "blocked db (jb_dag_id r) (jb_id r)" unfolding blocked_def job_key_def by metis
next
  assume "blocked db (jb_dag_id r) (jb_id r)"
  then show "open_parent db r" by (force simp: blocked_def open_parent_s job_key_def)
qed

definition row_ok :: "database \<Rightarrow> job_row \<Rightarrow> bool" where
  "row_ok db r \<longleftrightarrow>
     row_inv r \<and>
     (jb_state r = state_name Pending \<longrightarrow> blocked db (jb_dag_id r) (jb_id r)) \<and>
     (jb_state r \<noteq> state_name Pending \<and> jb_state r \<noteq> state_name Cancelled \<longrightarrow> \<not> blocked db (jb_dag_id r) (jb_id r)) \<and>
     ((\<exists>d\<in>set (db_dags db). dg_id d = jb_dag_id r \<and> dg_state d \<noteq> ''running'') \<longrightarrow> terminal_name (jb_state r))"

definition tables_ok :: "database \<Rightarrow> bool" where
  "tables_ok db \<longleftrightarrow>
     distinct (map dg_id (db_dags db)) \<and> distinct (map job_key (db_jobs db)) \<and> distinct (db_dependencies db) \<and>
     jb_dag_id ` set (db_jobs db) \<subseteq> dg_id ` set (db_dags db) \<and>
     (\<forall>e\<in>set (db_dependencies db). (dp_dag_id e, dp_parent_id e) \<in> job_key ` set (db_jobs db) \<and>
        (dp_dag_id e, dp_child_id e) \<in> job_key ` set (db_jobs db) \<and> dp_parent_id e \<noteq> dp_child_id e)"

definition db_inv :: "database \<Rightarrow> bool" where
  "db_inv db \<longleftrightarrow> tables_ok db \<and> (\<forall>r\<in>set (db_jobs db). row_ok db r)"

lemma db_inv_row: "db_inv db \<Longrightarrow> r \<in> set (db_jobs db) \<Longrightarrow> row_inv r"
  by (auto simp: db_inv_def row_ok_def)

lemma job_key_unique:
  "distinct (map job_key rows) \<Longrightarrow> r \<in> set rows \<Longrightarrow> r' \<in> set rows \<Longrightarrow> job_key r = job_key r' \<Longrightarrow> r = r'"
  by (metis distinct_map inj_onD)

lemma db_inv_unique:
  "db_inv db \<Longrightarrow> r \<in> set (db_jobs db) \<Longrightarrow> r' \<in> set (db_jobs db) \<Longrightarrow> job_key r = job_key r' \<Longrightarrow> r = r'"
  by (auto simp: db_inv_def tables_ok_def intro: job_key_unique)

lemma db_inv_empty: "db_inv empty_database"
  by (simp add: db_inv_def tables_ok_def empty_database_def)

section \<open>Updates of rows\<close>

lemma update_jobs_sel [simp]:
  "db_dags (update_jobs p f db) = db_dags db"
  "db_dependencies (update_jobs p f db) = db_dependencies db"
  "db_events (update_jobs p f db) = db_events db"
  "db_jobs (update_jobs p f db) = map (\<lambda>r. if p r then f r else r) (db_jobs db)"
  by (simp_all add: update_jobs_def)

lemma map_job_key_update:
  "(\<And>r. job_key (f r) = job_key r) \<Longrightarrow> map job_key (map (\<lambda>r. if p r then f r else r) rows) = map job_key rows"
  by simp

lemma tables_ok_cong:
  assumes "tables_ok db" "map dg_id (db_dags db') = map dg_id (db_dags db)"
    "map job_key (db_jobs db') = map job_key (db_jobs db)" "db_dependencies db' = db_dependencies db"
  shows "tables_ok db'"
proof -
  have "dg_id ` set (db_dags db') = dg_id ` set (db_dags db)" by (metis assms(2) set_map)
  moreover have k: "job_key ` set (db_jobs db') = job_key ` set (db_jobs db)" by (metis assms(3) set_map)
  moreover have "jb_dag_id ` set (db_jobs db') = jb_dag_id ` set (db_jobs db)"
    using arg_cong [OF k, of "image fst"] by (simp add: image_image job_key_def)
  ultimately show ?thesis using assms by (simp add: tables_ok_def)
qed

lemma blocked_mono:
  assumes "blocked db' d j" "db_dependencies db' = db_dependencies db"
    "\<And>r'. r' \<in> set (db_jobs db') \<Longrightarrow> jb_state r' \<noteq> state_name Succeeded \<Longrightarrow>
       \<exists>r\<in>set (db_jobs db). job_key r = job_key r' \<and> jb_state r \<noteq> state_name Succeeded"
  shows "blocked db d j"
  using assms unfolding blocked_def by metis

lemma blocked_update:
  assumes "\<And>r. r \<in> set (db_jobs db) \<Longrightarrow> p r \<Longrightarrow>
      job_key (f r) = job_key r \<and> (jb_state (f r) = state_name Succeeded \<longleftrightarrow> jb_state r = state_name Succeeded)"
  shows "blocked (update_jobs p f db) d j = blocked db d j"
proof
  assume "blocked (update_jobs p f db) d j"
  then show "blocked db d j"
    by (rule blocked_mono) (use assms in \<open>auto split: if_splits\<close>)
next
  assume "blocked db d j"
  then show "blocked (update_jobs p f db) d j"
  proof (rule blocked_mono)
    fix r
    assume "r \<in> set (db_jobs db)" "jb_state r \<noteq> state_name Succeeded"
    then show "\<exists>r'\<in>set (db_jobs (update_jobs p f db)). job_key r' = job_key r \<and> jb_state r' \<noteq> state_name Succeeded"
      using assms [of r] by (intro bexI [of _ "if p r then f r else r"]) auto
  qed simp
qed

lemma db_inv_update:
  assumes inv: "db_inv db" and key: "\<And>r. job_key (f r) = job_key r"
    and succ: "\<And>r. r \<in> set (db_jobs db) \<Longrightarrow> p r \<Longrightarrow> (jb_state (f r) = state_name Succeeded \<longleftrightarrow> jb_state r = state_name Succeeded)"
    and row: "\<And>r. r \<in> set (db_jobs db) \<Longrightarrow> p r \<Longrightarrow> row_ok db r \<Longrightarrow> row_ok db (f r)"
  shows "db_inv (update_jobs p f db)"
proof -
  have blocked: "blocked (update_jobs p f db) d j = blocked db d j" for d j
    by (rule blocked_update) (use key succ in auto)
  have "tables_ok (update_jobs p f db)"
    by (rule tables_ok_cong [of db]) (use inv in \<open>simp_all add: db_inv_def key\<close>)
  moreover have "row_ok (update_jobs p f db) r = row_ok db r" for r
    by (simp add: row_ok_def blocked)
  moreover have "row_ok db r'" if "r' \<in> set (db_jobs (update_jobs p f db))" for r'
  proof -
    from that obtain r where "r \<in> set (db_jobs db)" "r' = (if p r then f r else r)" by auto
    moreover from this inv have "row_ok db r" by (simp add: db_inv_def)
    ultimately show ?thesis using row by (cases "p r") simp_all
  qed
  ultimately show ?thesis by (simp add: db_inv_def)
qed

lemma db_inv_events [simp]: "db_inv (db\<lparr>db_events := es\<rparr>) = db_inv db"
  by (simp add: db_inv_def tables_ok_def row_ok_def blocked_def)

lemma db_inv_insert_event [simp]: "db_inv (insert_event d j e owner now db) = db_inv db"
  by (simp add: insert_event_def)

section \<open>The row transitions\<close>

lemma job_key_row_updates [simp]:
  "job_key (requeue_row now r) = job_key r" "job_key (lease_row owner token l now r) = job_key r"
  "job_key (succeed_row result now r) = job_key r" "job_key (release_row now r) = job_key r"
  "job_key (cancel_row now r) = job_key r"
  "job_key (r\<lparr>jb_lease_expires_at := t, jb_updated_at := now\<rparr>) = job_key r"
  by (simp_all add: job_key_def requeue_row_s lease_row_s succeed_row_s release_row_s cancel_row_s)

lemma row_inv_check: "row_inv r \<Longrightarrow> job_row_check r"
  by (simp add: row_inv_def)

lemma row_inv_unfinished: "row_inv r \<Longrightarrow> jb_state r = state_name st \<Longrightarrow> st \<noteq> Succeeded \<Longrightarrow> jb_result r = None"
  by (simp add: row_inv_def)

lemma job_row_check_attempts: "job_row_check r \<Longrightarrow> 0 \<le> jb_attempts r \<and> 1 \<le> jb_max_attempts r"
  by (simp add: job_row_check_s)

lemma row_inv_lease:
  assumes "row_inv r" "jb_state r = state_name Ready \<or> jb_state r = state_name RetryWait"
  shows "row_inv (lease_row owner token l now r)"
proof -
  have check: "job_row_check r" "0 \<le> jb_attempts r" "1 \<le> jb_max_attempts r"
    using row_inv_check [OF assms(1)] job_row_check_attempts [of r] by simp_all
  have "jb_result r = None" using assms row_inv_unfinished [of r] by blast
  moreover have "jb_attempts r < jb_max_attempts r"
    using assms check(3) by (elim disjE) (simp_all add: row_inv_def)
  moreover have "job_row_check (lease_row owner token l now r)"
    using check(1,2) by (simp add: job_row_check_s lease_row_s)
  ultimately show ?thesis using check(2) by (simp add: row_inv_def lease_row_s)
qed

lemma row_inv_succeed:
  assumes "row_inv r" "jb_state r = state_name Leased" "length result \<le> 4096"
  shows "row_inv (succeed_row result now r)"
proof -
  have "job_row_check (succeed_row result now r)"
    using row_inv_check [OF assms(1)] assms(2,3) by (simp add: job_row_check_s succeed_row_s)
  then show ?thesis using assms(1,2) by (simp add: row_inv_def succeed_row_s)
qed

text \<open>The updates that leave the attempts alone keep the column constraints.\<close>

lemma job_row_check_updates:
  assumes "job_row_check r"
  shows "job_row_check (requeue_row now r)" "job_row_check (cancel_row now r)"
    "jb_lease_owner r = None \<Longrightarrow> job_row_check (release_row now r)"
    "jb_state r = state_name Leased \<Longrightarrow> job_row_check (r\<lparr>jb_lease_expires_at := Some t, jb_updated_at := now\<rparr>)"
  using assms by (simp_all add: job_row_check_s requeue_row_s release_row_s cancel_row_s)

lemma row_inv_lease_fields:
  "row_inv r \<Longrightarrow> jb_state r \<noteq> state_name Leased \<Longrightarrow>
    jb_lease_owner r = None \<and> jb_lease_token r = None \<and> jb_lease_expires_at r = None"
  by (simp add: row_inv_def)

lemma row_inv_requeue:
  assumes "row_inv r" "jb_state r = state_name Leased"
  shows "row_inv (requeue_row now r)"
proof -
  have "job_row_check (requeue_row now r)"
    using row_inv_check [OF assms(1)] assms(2) by (intro job_row_check_updates) simp_all
  then show ?thesis using assms by (cases "jb_max_attempts r \<le> jb_attempts r") (simp_all add: row_inv_def requeue_row_s)
qed

lemma row_inv_release:
  assumes "row_inv r" "jb_state r = state_name Pending"
  shows "row_inv (release_row now r)"
proof -
  have "job_row_check (release_row now r)"
    using row_inv_check [OF assms(1)] row_inv_lease_fields [OF assms(1)] assms(2) by (intro job_row_check_updates) simp_all
  then show ?thesis using assms by (simp add: row_inv_def release_row_s)
qed

lemma row_inv_cancel:
  assumes "row_inv r" "\<not> terminal_name (jb_state r)"
  shows "row_inv (cancel_row now r)"
proof -
  have "job_row_check (cancel_row now r)"
    using row_inv_check [OF assms(1)] row_inv_lease_fields [OF assms(1)] by (intro job_row_check_updates) simp_all
  then show ?thesis using assms by (simp add: row_inv_def cancel_row_s terminal_name_def)
qed

lemma row_inv_renew:
  assumes "row_inv r" "jb_state r = state_name Leased"
  shows "row_inv (r\<lparr>jb_lease_expires_at := Some t, jb_updated_at := now\<rparr>)"
proof -
  have "job_row_check (r\<lparr>jb_lease_expires_at := Some t, jb_updated_at := now\<rparr>)"
    using row_inv_check [OF assms(1)] assms(2) by (intro job_row_check_updates) simp_all
  then show ?thesis using assms by (simp add: row_inv_def)
qed

lemma row_fields [simp]:
  "jb_dag_id (requeue_row now r) = jb_dag_id r" "jb_id (requeue_row now r) = jb_id r"
  "jb_dag_id (lease_row owner token l now r) = jb_dag_id r" "jb_id (lease_row owner token l now r) = jb_id r"
  "jb_dag_id (succeed_row result now r) = jb_dag_id r" "jb_id (succeed_row result now r) = jb_id r"
  "jb_dag_id (release_row now r) = jb_dag_id r" "jb_id (release_row now r) = jb_id r"
  "jb_dag_id (cancel_row now r) = jb_dag_id r" "jb_id (cancel_row now r) = jb_id r"
  "jb_state (lease_row owner token l now r) = state_name Leased" "jb_state (succeed_row result now r) = state_name Succeeded"
  "jb_state (release_row now r) = state_name Ready" "jb_state (cancel_row now r) = state_name Cancelled"
  by (simp_all add: requeue_row_s lease_row_s succeed_row_s release_row_s cancel_row_s)

lemma requeue_state: "jb_state (requeue_row now r) \<in> {state_name DeadLettered, state_name RetryWait}"
  by (simp add: requeue_row_s)

text \<open>Running DAGs: a leased job belongs to one.\<close>

lemma row_ok_requeue:
  assumes "row_ok db r" "jb_state r = state_name Leased"
  shows "row_ok db (requeue_row now r)"
  using assms row_inv_requeue [of r now] requeue_state [of now r]
  by (auto simp: row_ok_def terminal_name_def)

lemma row_ok_lease:
  assumes "row_ok db r" "candidate_row now db r"
  shows "row_ok db (lease_row owner token l now r)"
proof -
  have "jb_state r = state_name Ready \<or> jb_state r = state_name RetryWait" using assms(2) by (simp add: candidate_row_s)
  with assms(1) row_inv_lease [of r owner token l now] show ?thesis
    by (auto simp: row_ok_def terminal_name_def)
qed

lemma row_ok_renew:
  "row_ok db r \<Longrightarrow> jb_state r = state_name Leased \<Longrightarrow> row_ok db (r\<lparr>jb_lease_expires_at := Some t, jb_updated_at := now\<rparr>)"
  using row_inv_renew by (simp add: row_ok_def)

section \<open>Reaping, claiming, heartbeat, failure\<close>

lemma db_inv_reap: "db_inv db \<Longrightarrow> db_inv (fst (reap_in_transaction now db))"
  unfolding reap_in_transaction_def fst_conv
proof (rule db_inv_update)
  fix r
  assume "expired_row now r"
  then have "jb_state r = state_name Leased" by (simp add: expired_row_s)
  then show "jb_state (requeue_row now r) = state_name Succeeded \<longleftrightarrow> jb_state r = state_name Succeeded"
    "row_ok db r \<Longrightarrow> row_ok db (requeue_row now r)"
    using requeue_state [of now r] row_ok_requeue by auto
qed simp_all

lemma held_row_leased: "held_row d j owner token now r \<Longrightarrow> jb_state r = state_name Leased \<and> job_key r = (d, j)"
  by (simp add: held_row_s job_key_def)

lemma db_inv_heartbeat: "db_inv db \<Longrightarrow> db_inv (fst (store_heartbeat d j owner token l now db))"
  by (auto simp: store_heartbeat_def split: sum.split intro!: db_inv_update row_ok_renew dest: held_row_leased)

lemma db_inv_fail: "db_inv db \<Longrightarrow> db_inv (fst (store_fail d j owner token now db))"
proof -
  assume inv: "db_inv db"
  have "db_inv (update_jobs (held_row d j owner token now) (requeue_row now) db)"
  proof (rule db_inv_update [OF inv])
    fix r
    assume "held_row d j owner token now r"
    then have "jb_state r = state_name Leased" by (simp add: held_row_s)
    then show "jb_state (requeue_row now r) = state_name Succeeded \<longleftrightarrow> jb_state r = state_name Succeeded"
      "row_ok db r \<Longrightarrow> row_ok db (requeue_row now r)"
      using requeue_state [of now r] row_ok_requeue by auto
  qed simp
  with inv show ?thesis
    by (auto simp: store_fail_def transaction_def split: sum.splits list.splits if_splits)
qed

end
