(* ===== verification/StoreOps.thy ===== *)
theory StoreOps
  imports StoreInv
begin

text \<open>The remaining methods of the store: claim, complete, cancel and submit preserve the invariant.\<close>

section \<open>Claiming\<close>

definition eligible_rows :: "(byte_string \<times> byte_string \<Rightarrow> bool) \<Rightarrow> timestamp \<Rightarrow> database \<Rightarrow> job_row list" where
  "eligible_rows locked now db = filter (\<lambda>r. candidate_row now db r \<and> \<not> locked (job_key r)) (db_jobs db)"

abbreviation same_key :: "job_row \<Rightarrow> job_row \<Rightarrow> bool" where
  "same_key c \<equiv> (\<lambda>r. jb_dag_id r = jb_dag_id c \<and> jb_id r = jb_id c)"

lemma same_key_iff: "same_key c r \<longleftrightarrow> job_key r = job_key c"
  by (simp add: job_key_def)

lemma sort_key_head:
  "(sort_key f xs = []) \<longleftrightarrow> xs = []"
  "sort_key f xs = c # cs \<Longrightarrow> c \<in> set xs \<and> (\<forall>x\<in>set xs. f c \<le> f x)"
proof -
  show "(sort_key f xs = []) \<longleftrightarrow> xs = []" by (metis length_0_conv length_sort)
  assume eq: "sort_key f xs = c # cs"
  have "sorted (map f (c # cs))" using sorted_sort_key [of f xs] by (simp add: eq)
  moreover have "set xs = set (c # cs)" by (metis eq set_sort)
  ultimately show "c \<in> set xs \<and> (\<forall>x\<in>set xs. f c \<le> f x)" by auto
qed

lemma claim_statement_cases [consumes 1, case_names bad_text nothing overflow claimed]:
  assumes "claim_statement ck locked owner token l now db = r"
  obtains "\<not> pg_text owner" "r = Inl (Database InvalidText)"
  | "pg_text owner" "eligible_rows locked now db = []" "r = Inr (db, None)"
  | c where "pg_text owner" "c \<in> set (eligible_rows locked now db)" "32767 < jb_attempts c + 1" "r = Inl (Database NumericOutOfRange)"
  | c where "pg_text owner" "c \<in> set (eligible_rows locked now db)"
      "\<And>r'. r' \<in> set (eligible_rows locked now db) \<Longrightarrow> claim_order ck c \<le> claim_order ck r'"
      "r = Inr (update_jobs (same_key c) (lease_row owner token l now) db, Some (lease_row owner token l now c))"
proof -
  let ?rows = "eligible_rows locked now db"
  have rows: "filter (\<lambda>r. candidate_row now db r \<and> \<not> locked (jb_dag_id r, jb_id r)) (db_jobs db) = ?rows"
    by (simp add: eligible_rows_def job_key_def)
  show ?thesis
  proof (cases "pg_text owner")
    case False
    with assms that(1) show ?thesis by (simp add: claim_statement_def)
  next
    case enc: True
    show ?thesis
    proof (cases "sort_key (claim_order ck) ?rows")
      case Nil
      then have "?rows = []" by (simp add: sort_key_head(1))
      with enc Nil assms that(2) rows show ?thesis by (simp add: claim_statement_def)
    next
      case (Cons c cs)
      note head = sort_key_head(2) [OF Cons]
      show ?thesis
      proof (cases "32767 < jb_attempts c + 1")
        case True
        then show ?thesis
          by (rule that(3) [OF enc conjunct1 [OF head]]) (use assms enc Cons rows True in \<open>simp add: claim_statement_def\<close>)
      next
        case False
        show ?thesis
          by (rule that(4) [OF enc conjunct1 [OF head]])
            (use assms enc Cons rows False head in \<open>simp_all add: claim_statement_def\<close>)
      qed
    qed
  qed
qed

lemma eligible_row:
  assumes "c \<in> set (eligible_rows locked now db)"
  shows "c \<in> set (db_jobs db)" "candidate_row now db c" "\<not> locked (job_key c)"
  using assms by (simp_all add: eligible_rows_def)

lemma db_inv_lease:
  assumes inv: "db_inv db" and c: "c \<in> set (db_jobs db)" "candidate_row now db c"
  shows "db_inv (update_jobs (same_key c) (lease_row owner token l now) db)"
proof (rule db_inv_update [OF inv])
  fix r
  assume r: "r \<in> set (db_jobs db)" "same_key c r"
  then have "r = c" using db_inv_unique [OF inv r(1) c(1)] by (simp add: job_key_def)
  with c(2) show "jb_state (lease_row owner token l now r) = state_name Succeeded \<longleftrightarrow> jb_state r = state_name Succeeded"
    "row_ok db r \<Longrightarrow> row_ok db (lease_row owner token l now r)"
    using row_ok_lease by (auto simp: candidate_row_s lease_row_s)
qed simp

lemma lease_row_reads:
  assumes "row_inv r" "jb_state r = state_name Ready \<or> jb_state r = state_name RetryWait"
  shows "\<exists>cj. claimed_row show_uuid token (lease_row owner token l now r) = Inr cj" "jb_attempts r + 1 \<le> 20"
proof -
  note inv = row_inv_lease [OF assms, of owner token l now]
  have "jb_kind r \<in> kind_names" using row_inv_check [OF assms(1)] by (simp add: job_row_check_s)
  then obtain k where "jb_kind r = kind_name k" by (auto simp: kind_names_def)
  moreover have "0 \<le> jb_attempts r" using row_inv_check [OF assms(1)] job_row_check_attempts by blast
  ultimately show "\<exists>cj. claimed_row show_uuid token (lease_row owner token l now r) = Inr cj"
    by (simp add: claimed_row_def lease_row_s)
  have "jb_max_attempts r \<le> 20" using row_inv_check [OF assms(1)] by (simp add: job_row_check_s)
  moreover have "jb_attempts (lease_row owner token l now r) \<le> jb_max_attempts (lease_row owner token l now r)"
    using inv by (simp add: row_inv_def)
  ultimately show "jb_attempts r + 1 \<le> 20" by (simp add: lease_row_s)
qed

text \<open>The outcomes of a claim; reading the claimed row back never fails.\<close>

lemma store_claim_cases [consumes 2, case_names rejected bad_text nothing granted]:
  assumes inv: "db_inv db" and c: "store_claim ck show_uuid locked owner l token now db = (db', r)"
  obtains "validate_owner_and_lease owner l = Inl InvalidConfiguration" "db' = db" "r = Inl InvalidConfiguration"
  | "validate_owner_and_lease owner l = Inr ()" "\<not> pg_text owner" "db' = db" "r = Inl (Database InvalidText)"
  | "validate_owner_and_lease owner l = Inr ()" "pg_text owner"
      "eligible_rows locked now (fst (reap_in_transaction now db)) = []"
      "db' = fst (reap_in_transaction now db)" "r = Inr None"
  | row cj where "validate_owner_and_lease owner l = Inr ()" "pg_text owner"
      "row \<in> set (eligible_rows locked now (fst (reap_in_transaction now db)))"
      "\<And>r'. r' \<in> set (eligible_rows locked now (fst (reap_in_transaction now db))) \<Longrightarrow> claim_order ck row \<le> claim_order ck r'"
      "claimed_row show_uuid token (lease_row owner token l now row) = Inr cj" "r = Inr (Some cj)"
      "db' = (update_jobs (same_key row) (lease_row owner token l now) (fst (reap_in_transaction now db)))
         \<lparr>db_events := db_events db @ [claimed_event owner now (lease_row owner token l now row)]\<rparr>"
proof (cases "validate_owner_and_lease owner l")
  case (Inl e)
  then have "e = InvalidConfiguration" by (auto simp: validate_owner_and_lease_def split: if_splits)
  with Inl c show ?thesis by (intro that(1)) (simp_all add: store_claim_def)
next
  case (Inr u)
  then have ok: "validate_owner_and_lease owner l = Inr ()" by simp
  let ?db1 = "fst (reap_in_transaction now db)"
  obtain st where st: "claim_statement ck locked owner token l now ?db1 = st" by simp
  note inv1 = db_inv_reap [OF inv, of now]
  from st show ?thesis
  proof (cases rule: claim_statement_cases)
    case bad_text
    then show ?thesis using c ok st by (intro that(2)) (simp_all add: store_claim_def transaction_def)
  next
    case nothing
    then show ?thesis using c ok st by (intro that(3)) (simp_all add: store_claim_def transaction_def)
  next
    case (overflow row)
    note row = eligible_row [OF overflow(2)]
    have "jb_attempts row + 1 \<le> 20"
      using lease_row_reads(2) [OF db_inv_row [OF inv1 row(1)]] row(2) by (simp add: candidate_row_s)
    with overflow(3) show ?thesis by simp
  next
    case (claimed row)
    note row = eligible_row [OF claimed(2)]
    have "jb_state row = state_name Ready \<or> jb_state row = state_name RetryWait"
      using row(2) by (simp add: candidate_row_s)
    from lease_row_reads(1) [OF db_inv_row [OF inv1 row(1)] this] obtain cj where
      cj: "claimed_row show_uuid token (lease_row owner token l now row) = Inr cj" by blast
    have ev: "db_events ?db1 = db_events db" by (simp add: reap_in_transaction_def)
    show ?thesis
      by (rule that(4) [OF ok claimed(1-3) cj])
        (use c st claimed(4) ok cj ev in \<open>simp_all add: store_claim_def transaction_def\<close>)
  qed
qed

lemma db_inv_claim:
  assumes inv: "db_inv db"
  shows "db_inv (fst (store_claim ck show_uuid locked owner l token now db))"
proof -
  obtain db' r where c: "store_claim ck show_uuid locked owner l token now db = (db', r)" by fastforce
  note inv1 = db_inv_reap [OF inv, of now]
  from inv c show ?thesis
  proof (cases rule: store_claim_cases)
    case (granted row cj)
    note row = eligible_row [OF granted(3)]
    show ?thesis unfolding c fst_conv granted(7) db_inv_events by (rule db_inv_lease [OF inv1 row(1,2)])
  qed (simp_all add: c inv inv1)
qed

section \<open>Cancellation\<close>

lemma cancellable_iff: "cancellable_row d r \<longleftrightarrow> jb_dag_id r = d \<and> \<not> terminal_name (jb_state r)"
  by (auto simp: cancellable_row_s terminal_name_def)

definition cancelled_tables :: "byte_string \<Rightarrow> timestamp \<Rightarrow> database \<Rightarrow> database" where
  "cancelled_tables d now db = update_jobs (cancellable_row d) (cancel_row now)
     (db\<lparr>db_dags := map (\<lambda>g. if dg_id g = d then g\<lparr>dg_state := ''cancelled'', dg_updated_at := now\<rparr> else g) (db_dags db)\<rparr>)"

lemma store_cancel_eq:
  "store_cancel d now db =
     (if \<not> pg_text d then (db, Inl (Database InvalidText))
      else if d \<notin> dg_id ` set (db_dags db) then (db, Inl NotFound)
      else (cancelled_tables d now db, Inr (rows_affected (cancellable_row d) db)))"
  by (simp add: store_cancel_def transaction_def cancelled_tables_def rows_affected_def Let_def)

lemma db_inv_cancelled:
  assumes inv: "db_inv db"
  shows "db_inv (cancelled_tables d now db)"
proof -
  let ?db' = "cancelled_tables d now db"
  let ?g = "\<lambda>g. if dg_id g = d then g\<lparr>dg_state := ''cancelled'', dg_updated_at := now\<rparr> else g"
  have jobs: "db_jobs ?db' = map (\<lambda>r. if cancellable_row d r then cancel_row now r else r) (db_jobs db)"
    and deps: "db_dependencies ?db' = db_dependencies db"
    and dags: "db_dags ?db' = map ?g (db_dags db)"
    by (simp_all add: cancelled_tables_def)
  have tables: "tables_ok ?db'"
    by (rule tables_ok_cong [of db]) (use inv in \<open>simp_all add: db_inv_def jobs deps dags comp_def if_distrib cong: if_cong\<close>)
  have blocked: "blocked ?db' x y = blocked db x y" for x y
  proof -
    have "blocked ?db' x y = blocked (update_jobs (cancellable_row d) (cancel_row now) db) x y"
      by (simp add: blocked_def jobs deps)
    also have "\<dots> = blocked db x y"
      by (rule blocked_update) (auto simp: cancellable_iff terminal_name_def)
    finally show ?thesis .
  qed
  have "row_ok ?db' r'" if "r' \<in> set (db_jobs ?db')" for r'
  proof -
    from that obtain r where r: "r \<in> set (db_jobs db)" "r' = (if cancellable_row d r then cancel_row now r else r)"
      by (auto simp: jobs)
    have ok: "row_ok db r" using inv r(1) by (simp add: db_inv_def)
    show ?thesis
    proof (cases "cancellable_row d r")
      case True
      then have "row_inv (cancel_row now r)" using ok by (intro row_inv_cancel) (simp_all add: cancellable_iff row_ok_def)
      with True r(2) show ?thesis by (simp add: row_ok_def terminal_name_def)
    next
      case False
      with r(2) have r': "r' = r" by simp
      have "terminal_name (jb_state r)" if "jb_dag_id r = d" using False that by (simp add: cancellable_iff)
      moreover have "\<exists>g\<in>set (db_dags db). dg_id g = jb_dag_id r \<and> dg_state g \<noteq> ''running''"
        if "\<exists>g\<in>set (db_dags ?db'). dg_id g = jb_dag_id r \<and> dg_state g \<noteq> ''running''" "jb_dag_id r \<noteq> d"
      proof -
        from that(1) obtain g where g: "g \<in> set (db_dags db)" "dg_id (?g g) = jb_dag_id r" "dg_state (?g g) \<noteq> ''running''"
          unfolding dags set_map by blast
        with that(2) have "dg_id g \<noteq> d" by (cases "dg_id g = d") simp_all
        with g show ?thesis by auto
      qed
      ultimately show ?thesis
        using ok unfolding r' row_ok_def blocked by (cases "jb_dag_id r = d") blast+
    qed
  qed
  with tables show ?thesis by (simp add: db_inv_def)
qed

lemma db_inv_cancel: "db_inv db \<Longrightarrow> db_inv (fst (store_cancel d now db))"
  by (simp add: store_cancel_eq db_inv_cancelled)

end
