(* ===== verification/StoreFlow.thy ===== *)
theory StoreFlow
  imports StoreOps SchedulerSubmit
begin

text \<open>Completion and submission on the tables.\<close>

section \<open>Completion\<close>

text \<open>The tables after the first and after the second statement.\<close>

definition marked :: "byte_string \<Rightarrow> byte_string \<Rightarrow> byte_string \<Rightarrow> uuid \<Rightarrow> byte_string \<Rightarrow> timestamp \<Rightarrow> database \<Rightarrow> database" where
  "marked d j owner token result now db = update_jobs (held_row d j owner token now) (succeed_row result now) db"

definition held :: "byte_string \<Rightarrow> byte_string \<Rightarrow> byte_string \<Rightarrow> uuid \<Rightarrow> timestamp \<Rightarrow> database \<Rightarrow> bool" where
  "held d j owner token now db \<longleftrightarrow> (\<exists>r\<in>set (db_jobs db). held_row d j owner token now r)"

lemma held_rows_unique:
  assumes "db_inv db"
  shows "rows_affected (held_row d j owner token now) db = (if held d j owner token now db then 1 else 0)"
proof -
  have "distinct (map job_key (db_jobs db))" using assms by (simp add: db_inv_def tables_ok_def)
  then show ?thesis
  proof (induction "db_jobs db" arbitrary: db)
    case Nil
    then show ?case by (simp add: rows_affected_def held_def flip: Nil.hyps)
  next
    case (Cons r rows)
    let ?db' = "db\<lparr>db_jobs := rows\<rparr>"
    have d: "distinct (map job_key (r # rows))" using Cons.prems by (simp only: Cons.hyps(2))
    then have IH: "rows_affected (held_row d j owner token now) ?db' = (if held d j owner token now ?db' then 1 else 0)"
      by (intro Cons.hyps(1)) simp_all
    have "\<not> held d j owner token now ?db'" if "held_row d j owner token now r"
    proof
      assume "held d j owner token now ?db'"
      then obtain r' where "r' \<in> set rows" "held_row d j owner token now r'" by (auto simp: held_def)
      with that have "job_key r' = job_key r" by (metis held_row_leased)
      with d \<open>r' \<in> set rows\<close> show False by (metis distinct.simps(2) image_eqI list.simps(9) set_map)
    qed
    with IH show ?case
      by (auto simp: rows_affected_def held_def simp flip: Cons.hyps(2))
  qed
qed

lemma store_complete_eq:
  assumes "db_inv db"
  shows "store_complete d j owner token result now db =
     (if 4096 < length result then (db, Inl InvalidConfiguration)
      else if \<not> (pg_text d \<and> pg_text j \<and> pg_text owner \<and> pg_text result) then (db, Inl (Database InvalidText))
      else if \<not> held d j owner token now db then (db, Inl StoreLeaseConflict)
      else (insert_event d j ''succeeded'' owner now
              (release_statement d j now (marked d j owner token result now db)), Inr ()))"
  by (simp add: store_complete_def complete_statement_def transaction_def ensure_compare_and_set_def
      held_rows_unique [OF assms] marked_def policy_defs)

lemma blocked_marked:
  assumes inv: "db_inv db" and c: "c \<in> set (db_jobs db)" "held_row d j owner token now c"
    and "blocked db x y" "\<not> blocked (marked d j owner token result now db) x y"
  shows "x = d \<and> (\<exists>e\<in>set (db_dependencies db). dp_dag_id e = x \<and> dp_parent_id e = j \<and> dp_child_id e = y)"
proof -
  from assms(4) obtain p r where p: "\<lparr>dp_dag_id = x, dp_parent_id = p, dp_child_id = y\<rparr> \<in> set (db_dependencies db)"
    "r \<in> set (db_jobs db)" "job_key r = (x, p)" "jb_state r \<noteq> state_name Succeeded"
    unfolding blocked_def by blast
  have "held_row d j owner token now r"
  proof (rule ccontr)
    assume no: "\<not> held_row d j owner token now r"
    then have "r \<in> set (db_jobs (marked d j owner token result now db))"
      using p(2) by (force simp: marked_def)
    moreover have "db_dependencies (marked d j owner token result now db) = db_dependencies db" by (simp add: marked_def)
    ultimately have "blocked (marked d j owner token result now db) x y"
      unfolding blocked_def using p(1,3,4) by (intro exI [of _ p] conjI bexI [of _ r]) simp_all
    with assms(5) show False by blast
  qed
  then have "(x, p) = (d, j)" using p(3) held_row_leased by metis
  with p(1) show ?thesis by force
qed

lemma blocked_marked_sub:
  assumes "blocked (marked d j owner token result now db) x y"
  shows "blocked db x y"
  by (rule blocked_mono [OF assms]) (auto simp: marked_def split: if_splits)

lemma released_iff:
  "released_row d j db child \<longleftrightarrow> jb_dag_id child = d \<and> jb_state child = state_name Pending \<and>
     (\<exists>e\<in>set (db_dependencies db). dp_dag_id e = jb_dag_id child \<and> dp_parent_id e = j \<and> dp_child_id e = jb_id child) \<and>
     \<not> blocked db (jb_dag_id child) (jb_id child)"
  by (simp add: released_row_s open_parent_blocked)

lemma blocked_released: "blocked (release_statement d j now db) x y = blocked db x y"
  unfolding release_statement_def by (rule blocked_update) (simp add: released_iff)

lemma tables_ok_update:
  "tables_ok db \<Longrightarrow> (\<And>r. job_key (f r) = job_key r) \<Longrightarrow> tables_ok (update_jobs p f db)"
  by (rule tables_ok_cong [of db]) simp_all

lemma row_ok_running:
  "row_ok db r \<Longrightarrow> \<not> terminal_name (jb_state r) \<Longrightarrow> g \<in> set (db_dags db) \<Longrightarrow> dg_id g = jb_dag_id r \<Longrightarrow> dg_state g = ''running''"
  unfolding row_ok_def by blast

lemma row_ok_released:
  assumes "row_ok db r" "jb_state r = state_name Pending" "\<not> blocked db' (jb_dag_id r) (jb_id r)"
    "db_dags db' = db_dags db"
  shows "row_ok db' (release_row now r)"
proof -
  have "\<not> terminal_name (jb_state r)" using assms(2) by (simp add: terminal_name_def)
  then have "dg_state g = ''running''" if "g \<in> set (db_dags db')" "dg_id g = jb_dag_id r" for g
    using row_ok_running [OF assms(1)] that assms(4) by simp
  moreover have "row_inv (release_row now r)" using assms(1,2) by (intro row_inv_release) (simp_all add: row_ok_def)
  ultimately show ?thesis using assms(3) by (auto simp: row_ok_def)
qed

lemma db_inv_completed:
  assumes inv: "db_inv db" and held: "held d j owner token now db" and len: "length result \<le> 4096"
  shows "db_inv (release_statement d j now (marked d j owner token result now db))"
proof -
  let ?db1 = "marked d j owner token result now db"
  let ?db2 = "release_statement d j now ?db1"
  from held obtain c where c: "c \<in> set (db_jobs db)" "held_row d j owner token now c" by (auto simp: held_def)
  have tables: "tables_ok ?db2"
    using inv by (simp add: release_statement_def marked_def tables_ok_update db_inv_def)
  have row: "row_ok ?db2 r'" if "r' \<in> set (db_jobs ?db2)" for r'
  proof -
    from that obtain r1 where r1: "r1 \<in> set (db_jobs ?db1)"
      "r' = (if released_row d j ?db1 r1 then release_row now r1 else r1)"
      by (auto simp: release_statement_def)
    from r1(1) obtain r where r: "r \<in> set (db_jobs db)"
      "r1 = (if held_row d j owner token now r then succeed_row result now r else r)"
      by (auto simp: marked_def)
    have ok: "row_ok db r" using inv r(1) by (simp add: db_inv_def)
    have dags: "db_dags ?db2 = db_dags db" "db_dags ?db1 = db_dags db"
      by (simp_all add: release_statement_def marked_def)
    show ?thesis
    proof (cases "held_row d j owner token now r")
      case True
      then have leased: "jb_state r = state_name Leased" by (simp add: held_row_leased)
      have "r' = succeed_row result now r"
        using True r(2) r1(2) by (simp add: released_iff)
      moreover have "row_inv (succeed_row result now r)"
        using ok leased len by (intro row_inv_succeed) (simp_all add: row_ok_def)
      moreover have "\<not> blocked db (jb_dag_id r) (jb_id r)" using ok leased by (simp add: row_ok_def)
      then have "\<not> blocked ?db2 (jb_dag_id r) (jb_id r)"
        using blocked_marked_sub by (auto simp: blocked_released)
      ultimately show ?thesis by (simp add: row_ok_def terminal_name_def)
    next
      case False
      with r(2) have r1r: "r1 = r" by simp
      show ?thesis
      proof (cases "released_row d j ?db1 r")
        case True
        then have "row_ok ?db2 (release_row now r)"
          by (intro row_ok_released [OF ok]) (auto simp: released_iff blocked_released dags)
        with True r1(2) r1r show ?thesis by simp
      next
        case unreleased: False
        have "blocked ?db1 (jb_dag_id r) (jb_id r)" if pend: "jb_state r = state_name Pending"
        proof (rule ccontr)
          assume nb: "\<not> blocked ?db1 (jb_dag_id r) (jb_id r)"
          have "blocked db (jb_dag_id r) (jb_id r)" using ok pend by (simp add: row_ok_def)
          from blocked_marked [OF inv c this nb] pend nb unreleased show False
            by (auto simp: released_iff marked_def)
        qed
        moreover have "\<not> blocked db x y \<Longrightarrow> \<not> blocked ?db1 x y" for x y using blocked_marked_sub by blast
        ultimately show ?thesis
          using ok unreleased r1(2) r1r by (simp add: row_ok_def blocked_released dags)
      qed
    qed
  qed
  with tables show ?thesis by (simp add: db_inv_def)
qed

lemma db_inv_complete:
  assumes "db_inv db"
  shows "db_inv (fst (store_complete d j owner token result now db))"
  using assms db_inv_completed by (simp add: store_complete_eq)

section \<open>Submission\<close>

lemma identifier_text: "identifier_check s \<Longrightarrow> pg_text s"
proof -
  have "\<not> identifier_byte (CHR 0x00)" by (simp add: identifier_byte_def is_ascii_alphanumeric_def Let_def)
  then show "identifier_check s \<Longrightarrow> pg_text s"
    by (auto simp: identifier_check_def pg_text_def list_all_iff)
qed

lemma insert_jobs_spec:
  assumes "\<And>job. job \<in> set jobs \<Longrightarrow> js_max_attempts job \<le> 20 \<and> job_row_check (submitted_row d counts now job)"
    "distinct (map js_id jobs)" "pg_text d" "d \<in> dg_id ` set (db_dags db)"
    "\<And>r. r \<in> set (db_jobs db) \<Longrightarrow> jb_dag_id r = d \<Longrightarrow> jb_id r \<notin> js_id ` set jobs"
  shows "insert_jobs d counts now jobs db =
    (if \<forall>job\<in>set jobs. pg_text (js_payload job)
     then Inr (db\<lparr>db_jobs := db_jobs db @ map (submitted_row d counts now) jobs\<rparr>)
     else Inl (Database InvalidText))"
  using assms
proof (induction jobs arbitrary: db)
  case (Cons job jobs)
  let ?r = "submitted_row d counts now job"
  have fields: "jb_dag_id ?r = d" "jb_id ?r = js_id job" "jb_payload ?r = js_payload job"
    by (simp_all add: submitted_row_def)
  have check: "job_row_check ?r" "js_max_attempts job \<le> 20" using Cons.prems(1) [of job] by simp_all
  have "pg_text (js_id job)"
    using identifier_text check(1) by (simp add: job_row_check_def submitted_row_def)
  moreover have "\<not> (\<exists>r'\<in>set (db_jobs db). jb_dag_id r' = d \<and> jb_id r' = js_id job)"
    using Cons.prems(5) by force
  ultimately have ins: "insert_job ?r db =
      (if pg_text (js_payload job) then Inr (db\<lparr>db_jobs := db_jobs db @ [?r]\<rparr>) else Inl (Database InvalidText))"
    using check(1) Cons.prems(3,4) by (auto simp: insert_job_def fields)
  show ?case
  proof (cases "pg_text (js_payload job)")
    case True
    have "insert_jobs d counts now jobs (db\<lparr>db_jobs := db_jobs db @ [?r]\<rparr>) =
      (if \<forall>job\<in>set jobs. pg_text (js_payload job)
       then Inr (db\<lparr>db_jobs := (db_jobs db @ [?r]) @ map (submitted_row d counts now) jobs\<rparr>)
       else Inl (Database InvalidText))"
    proof -
      have "jb_id r \<notin> js_id ` set jobs" if "r \<in> set (db_jobs db @ [?r])" "jb_dag_id r = d" for r
        using that Cons.prems(2) Cons.prems(5) [of r] fields(2) by (cases "r = ?r") auto
      then show ?thesis using Cons.prems(1-4) by (subst Cons.IH) simp_all
    qed
    then show ?thesis using True ins check(2) by simp
  next
    case False
    then show ?thesis using ins check(2) by simp
  qed
qed simp

definition edge_row :: "byte_string \<Rightarrow> dependency \<Rightarrow> dependency_row" where
  "edge_row d e = \<lparr>dp_dag_id = d, dp_parent_id = dep_from e, dp_child_id = dep_to e\<rparr>"

lemma edge_row_inj: "edge_row d e = edge_row d e' \<Longrightarrow> e = e'"
  by (simp add: edge_row_def)

lemma insert_dependencies_Cons:
  "insert_dependencies d (e # edges) db =
     (case insert_dependency (edge_row d e) db of Inl err \<Rightarrow> Inl err | Inr db' \<Rightarrow> insert_dependencies d edges db')"
  by (simp add: edge_row_def)

declare insert_dependencies.simps(2) [simp del]

lemma insert_dependencies_spec:
  assumes "pg_text d" "\<And>e. e \<in> set edges \<Longrightarrow> dep_from e \<noteq> dep_to e \<and>
      (d, dep_from e) \<in> job_key ` set (db_jobs db) \<and> (d, dep_to e) \<in> job_key ` set (db_jobs db) \<and>
      pg_text (dep_from e) \<and> pg_text (dep_to e)"
    "\<And>e. e \<in> set edges \<Longrightarrow> edge_row d e \<notin> set (db_dependencies db)"
  shows "insert_dependencies d edges db =
    (if distinct edges then Inr (db\<lparr>db_dependencies := db_dependencies db @ map (edge_row d) edges\<rparr>)
     else Inl (Database UniqueViolation))"
proof -
  have "insert_dependencies d edges (db\<lparr>db_dependencies := db_dependencies db @ map (edge_row d) seen\<rparr>) =
    (if distinct edges \<and> set edges \<inter> set seen = {}
     then Inr (db\<lparr>db_dependencies := db_dependencies db @ map (edge_row d) seen @ map (edge_row d) edges\<rparr>)
     else Inl (Database UniqueViolation))" for seen
    using assms(2,3)
  proof (induction edges arbitrary: seen)
    case (Cons e edges)
    let ?db = "db\<lparr>db_dependencies := db_dependencies db @ map (edge_row d) seen\<rparr>"
    note e = Cons.prems(1) [of e, simplified]
    have keys: "\<exists>r\<in>set (db_jobs db). jb_dag_id r = d \<and> jb_id r = dep_from e"
      "\<exists>r\<in>set (db_jobs db). jb_dag_id r = d \<and> jb_id r = dep_to e"
      using e by (auto simp: job_key_def)
    have mem: "edge_row d e \<in> set (db_dependencies ?db) \<longleftrightarrow> e \<in> set seen"
      using Cons.prems(2) [of e] edge_row_inj by auto
    have ins: "insert_dependency (edge_row d e) ?db =
        (if e \<in> set seen then Inl (Database UniqueViolation)
         else Inr (db\<lparr>db_dependencies := db_dependencies db @ map (edge_row d) (seen @ [e])\<rparr>))"
    proof -
      have sel: "dp_dag_id (edge_row d e) = d" "dp_parent_id (edge_row d e) = dep_from e" "dp_child_id (edge_row d e) = dep_to e"
        by (simp_all add: edge_row_def)
      have "(\<exists>r\<in>set (db_jobs ?db). jb_dag_id r = d \<and> jb_id r = dep_from e) = True"
        "(\<exists>r\<in>set (db_jobs ?db). jb_dag_id r = d \<and> jb_id r = dep_to e) = True" using keys by simp_all
      then show ?thesis unfolding insert_dependency_def sel mem using e assms(1) by simp
    qed
    show ?case
    proof (cases "e \<in> set seen")
      case True
      then show ?thesis using ins by (simp add: insert_dependencies_Cons)
    next
      case False
      have "insert_dependencies d edges (db\<lparr>db_dependencies := db_dependencies db @ map (edge_row d) (seen @ [e])\<rparr>) =
        (if distinct edges \<and> set edges \<inter> set (seen @ [e]) = {}
         then Inr (db\<lparr>db_dependencies := db_dependencies db @ map (edge_row d) (seen @ [e]) @ map (edge_row d) edges\<rparr>)
         else Inl (Database UniqueViolation))"
        using Cons.prems by (intro Cons.IH) auto
      then show ?thesis using ins False by (auto simp: insert_dependencies_Cons)
    qed
  qed simp
  from this [of "[]"] show ?thesis by simp
qed

definition admitted_tables :: "dag_spec \<Rightarrow> timestamp \<Rightarrow> database \<Rightarrow> database" where
  "admitted_tables spec now db =
     db\<lparr>db_dags := db_dags db @ [\<lparr>dg_id = ds_id spec, dg_state = ''running'', dg_updated_at = now\<rparr>],
        db_jobs := db_jobs db @ map (submitted_row (ds_id spec) (dependency_counts spec) now) (ds_jobs spec),
        db_dependencies := db_dependencies db @ map (edge_row (ds_id spec)) (ds_dependencies spec)\<rparr>"

lemma identifier_check_iff: "identifier_check s \<longleftrightarrow> validate_identifier s 64 = Inr ()"
  by (auto simp: identifier_check_def validate_identifier_def)

lemma submitted_row_check:
  assumes "job_well_formed job"
  shows "job_row_check (submitted_row d counts now job)"
  using assms
  by (auto simp: job_row_check_s submitted_row_s job_well_formed_def identifier_check_iff policy_defs
      validate_payload_def split: if_splits)

lemma submitted_row_inv:
  assumes "job_well_formed job"
  shows "row_inv (submitted_row d counts now job)"
  unfolding row_inv_def using submitted_row_check [OF assms] by (simp add: submitted_row_s)

lemma submitted_key: "job_key (submitted_row d counts now job) = (d, js_id job)"
  by (simp add: submitted_row_s job_key_def)

lemma store_submit_tables:
  assumes inv: "tables_ok db" and v: "validate spec = Some (Inr order)"
  shows "store_submit spec now db = Some
    (if ds_id spec \<in> dg_id ` set (db_dags db) then (db, Inl (Database UniqueViolation))
     else if \<exists>job\<in>set (ds_jobs spec). \<not> pg_text (js_payload job) then (db, Inl (Database InvalidText))
     else if \<not> distinct (ds_dependencies spec) then (db, Inl (Database UniqueViolation))
     else (admitted_tables spec now db, Inr ()))"
proof -
  let ?d = "ds_id spec" and ?counts = "dependency_counts spec"
  let ?row = "submitted_row ?d ?counts now"
  note wf = validate_Inr_well_formed [OF v]
  have ident: "identifier_check ?d" using wf by (simp add: dag_well_formed_def identifier_check_iff policy_defs)
  note enc = identifier_text [OF ident]
  show ?thesis
  proof (cases "?d \<in> dg_id ` set (db_dags db)")
    case True
    with v ident enc show ?thesis by (simp add: store_submit_def transaction_def insert_dag_def)
  next
    case new: False
    let ?db1 = "db\<lparr>db_dags := db_dags db @ [\<lparr>dg_id = ?d, dg_state = ''running'', dg_updated_at = now\<rparr>]\<rparr>"
    have dag: "insert_dag ?d now db = Inr ?db1" using ident enc new by (simp add: insert_dag_def)
    have jobs: "insert_jobs ?d ?counts now (ds_jobs spec) ?db1 =
        (if \<forall>job\<in>set (ds_jobs spec). pg_text (js_payload job)
         then Inr (?db1\<lparr>db_jobs := db_jobs ?db1 @ map ?row (ds_jobs spec)\<rparr>) else Inl (Database InvalidText))"
    proof (rule insert_jobs_spec)
      show "js_max_attempts job \<le> 20 \<and> job_row_check (?row job)" if "job \<in> set (ds_jobs spec)" for job
        using that wf submitted_row_check [of job] by (auto simp: dag_well_formed_def list_all_iff job_well_formed_def)
      show "jb_id r \<notin> js_id ` set (ds_jobs spec)" if "r \<in> set (db_jobs ?db1)" "jb_dag_id r = ?d" for r
      proof -
        have "jb_dag_id r \<in> dg_id ` set (db_dags db)" using that(1) inv by (auto simp: db_inv_def tables_ok_def)
        with that(2) new show ?thesis by simp
      qed
    qed (use wf enc in \<open>simp_all add: dag_well_formed_def\<close>)
    let ?db2 = "?db1\<lparr>db_jobs := db_jobs ?db1 @ map ?row (ds_jobs spec)\<rparr>"
    have deps: "insert_dependencies ?d (ds_dependencies spec) ?db2 =
        (if distinct (ds_dependencies spec) then Inr (?db2\<lparr>db_dependencies := db_dependencies ?db2 @ map (edge_row ?d) (ds_dependencies spec)\<rparr>)
         else Inl (Database UniqueViolation))"
    proof (rule insert_dependencies_spec [OF enc])
      fix e
      assume e: "e \<in> set (ds_dependencies spec)"
      then have known: "dep_from e \<in> set (job_ids spec)" "dep_to e \<in> set (job_ids spec)"
        using edge_known_in [OF wf] by auto
      have "pg_text j \<and> (?d, j) \<in> job_key ` set (db_jobs ?db2)" if "j \<in> set (job_ids spec)" for j
      proof -
        from that obtain job where job: "job \<in> set (ds_jobs spec)" "js_id job = j" by auto
        then have "identifier_check j"
          using wf by (auto simp: dag_well_formed_def list_all_iff job_well_formed_def identifier_check_iff policy_defs)
        moreover have "(?d, j) \<in> job_key ` (?row ` set (ds_jobs spec))"
          using job by (force simp: submitted_key)
        ultimately show ?thesis using identifier_text by auto
      qed
      moreover have "dep_from e \<noteq> dep_to e" using validate_Inr_no_self_loop [OF v] e by blast
      ultimately show "dep_from e \<noteq> dep_to e \<and> (?d, dep_from e) \<in> job_key ` set (db_jobs ?db2) \<and>
          (?d, dep_to e) \<in> job_key ` set (db_jobs ?db2) \<and> pg_text (dep_from e) \<and> pg_text (dep_to e)"
        using known by blast
      show "edge_row ?d e \<notin> set (db_dependencies ?db2)"
      proof
        assume "edge_row ?d e \<in> set (db_dependencies ?db2)"
        then have "(?d, dep_from e) \<in> job_key ` set (db_jobs db)"
          using inv by (auto simp: db_inv_def tables_ok_def edge_row_def)
        then have "?d \<in> jb_dag_id ` set (db_jobs db)" by (auto simp: job_key_def)
        with inv new show False by (auto simp: db_inv_def tables_ok_def)
      qed
    qed
    have adm: "admitted_tables spec now db = ?db2\<lparr>db_dependencies := db_dependencies ?db2 @ map (edge_row ?d) (ds_dependencies spec)\<rparr>"
      by (simp add: admitted_tables_def)
    show ?thesis
    proof (cases "\<forall>job\<in>set (ds_jobs spec). pg_text (js_payload job)")
      case False
      with new v dag jobs show ?thesis by (simp add: store_submit_def transaction_def)
    next
      case True
      with jobs have jobs': "insert_jobs ?d ?counts now (ds_jobs spec) ?db1 = Inr ?db2" by simp
      have "store_submit spec now db = Some (transaction (\<lambda>_.
          case insert_dependencies ?d (ds_dependencies spec) ?db2 of Inl e \<Rightarrow> Inl e | Inr db3 \<Rightarrow> Inr (db3, ())) db)"
        using v dag jobs' by (simp add: store_submit_def transaction_def)
      with new True deps adm show ?thesis by (auto simp: transaction_def)
    qed
  qed
qed

lemma store_submit_eq:
  assumes "db_inv db" "validate spec = Some (Inr order)"
  shows "store_submit spec now db = Some
    (if ds_id spec \<in> dg_id ` set (db_dags db) then (db, Inl (Database UniqueViolation))
     else if \<exists>job\<in>set (ds_jobs spec). \<not> pg_text (js_payload job) then (db, Inl (Database InvalidText))
     else if \<not> distinct (ds_dependencies spec) then (db, Inl (Database UniqueViolation))
     else (admitted_tables spec now db, Inr ()))"
  by (rule store_submit_tables) (use assms in \<open>simp_all add: db_inv_def\<close>)

lemma submitted_not_old:
  assumes inv: "tables_ok db" and new: "d \<notin> dg_id ` set (db_dags db)" and r: "r \<in> set (db_jobs db)"
  shows "jb_dag_id r \<noteq> d"
proof -
  have "jb_dag_id ` set (db_jobs db) \<subseteq> dg_id ` set (db_dags db)" using inv by (simp add: db_inv_def tables_ok_def)
  with r have "jb_dag_id r \<in> dg_id ` set (db_dags db)" by blast
  with new show ?thesis by metis
qed

lemma blocked_admitted:
  assumes inv: "tables_ok db" and new: "ds_id spec \<notin> dg_id ` set (db_dags db)"
    and wf: "dag_well_formed spec"
  shows "d \<noteq> ds_id spec \<Longrightarrow> blocked (admitted_tables spec now db) d j = blocked db d j"
    "blocked (admitted_tables spec now db) (ds_id spec) j \<longleftrightarrow> in_degree spec j \<noteq> 0"
proof -
  let ?d = "ds_id spec" and ?db' = "admitted_tables spec now db"
  have deps: "set (db_dependencies ?db') = set (db_dependencies db) \<union> edge_row ?d ` set (ds_dependencies spec)"
    and jobs: "set (db_jobs ?db') = set (db_jobs db) \<union> submitted_row ?d (dependency_counts spec) now ` set (ds_jobs spec)"
    by (simp_all add: admitted_tables_def)
  have old_job: "jb_dag_id r \<noteq> ?d" if "r \<in> set (db_jobs db)" for r
    using submitted_not_old [OF inv new that] .
  have old_dep: "dp_dag_id e \<noteq> ?d" if "e \<in> set (db_dependencies db)" for e
  proof -
    from that inv have "(dp_dag_id e, dp_parent_id e) \<in> job_key ` set (db_jobs db)" by (simp add: db_inv_def tables_ok_def)
    then obtain r where "r \<in> set (db_jobs db)" "jb_dag_id r = dp_dag_id e" by (auto simp: job_key_def)
    with old_job show ?thesis by metis
  qed
  show "blocked ?db' d j = blocked db d j" if "d \<noteq> ?d"
    using that unfolding blocked_def deps jobs by (auto simp: edge_row_def submitted_key)
  show "blocked ?db' ?d j \<longleftrightarrow> in_degree spec j \<noteq> 0"
  proof
    assume "blocked ?db' ?d j"
    then obtain p where "\<lparr>dp_dag_id = ?d, dp_parent_id = p, dp_child_id = j\<rparr> \<in> set (db_dependencies ?db')"
      unfolding blocked_def by blast
    with old_dep have "\<exists>e\<in>set (ds_dependencies spec). dep_to e = j"
      unfolding deps by (force simp: edge_row_def)
    then show "in_degree spec j \<noteq> 0" by (simp add: in_degree_def filter_empty_conv)
  next
    assume "in_degree spec j \<noteq> 0"
    then obtain e where e: "e \<in> set (ds_dependencies spec)" "dep_to e = j"
      by (auto simp: in_degree_def filter_empty_conv)
    then obtain job where job: "job \<in> set (ds_jobs spec)" "js_id job = dep_from e"
      using edge_known_in [OF wf] by force
    have "edge_row ?d e \<in> set (db_dependencies ?db')" using e by (simp add: deps)
    moreover have "submitted_row ?d (dependency_counts spec) now job \<in> set (db_jobs ?db')" using job by (simp add: jobs)
    moreover have "jb_state (submitted_row ?d (dependency_counts spec) now job) \<noteq> state_name Succeeded"
      by (simp add: submitted_row_s)
    ultimately show "blocked ?db' ?d j"
      unfolding blocked_def edge_row_def using e(2) job(2) submitted_key by metis
  qed
qed

text \<open>A submitted row is well formed, and ready exactly when nothing is before it.\<close>

lemma submitted_row_facts:
  fixes now :: timestamp
  assumes wf: "dag_well_formed spec" and job: "job \<in> set (ds_jobs spec)"
  defines "r \<equiv> submitted_row (ds_id spec) (dependency_counts spec) now job"
  shows "row_inv r" "jb_state r = (if in_degree spec (js_id job) = 0 then state_name Ready else state_name Pending)"
    "jb_dag_id r = ds_id spec" "jb_id r = js_id job"
proof -
  have "job_well_formed job" using wf job by (auto simp: dag_well_formed_def list_all_iff)
  then show "row_inv r" unfolding r_def by (rule submitted_row_inv)
  show "jb_state r = (if in_degree spec (js_id job) = 0 then state_name Ready else state_name Pending)"
    "jb_dag_id r = ds_id spec" "jb_id r = js_id job"
    using job by (auto simp: r_def submitted_row_s dependency_counts_get)
qed

lemma db_inv_admitted:
  assumes inv: "db_inv db" and v: "validate spec = Some (Inr order)"
    and new: "ds_id spec \<notin> dg_id ` set (db_dags db)" and dist: "distinct (ds_dependencies spec)"
  shows "db_inv (admitted_tables spec now db)"
proof -
  let ?d = "ds_id spec" and ?db' = "admitted_tables spec now db" and ?row = "submitted_row (ds_id spec) (dependency_counts spec) now"
  note wf = validate_Inr_well_formed [OF v]
  have t: "tables_ok db" using inv by (simp add: db_inv_def)
  note blocked = blocked_admitted [OF t new wf, where now = now]
  have dags: "db_dags ?db' = db_dags db @ [\<lparr>dg_id = ?d, dg_state = ''running'', dg_updated_at = now\<rparr>]"
    and deps: "db_dependencies ?db' = db_dependencies db @ map (edge_row ?d) (ds_dependencies spec)"
    and jobs: "db_jobs ?db' = db_jobs db @ map ?row (ds_jobs spec)"
    by (simp_all add: admitted_tables_def)
  have old: "jb_dag_id r \<noteq> ?d" if "r \<in> set (db_jobs db)" for r
    using submitted_not_old [OF t new that] .
  have keys: "map job_key (map ?row (ds_jobs spec)) = map (Pair ?d) (job_ids spec)" by (simp add: submitted_key)
  have "tables_ok ?db'" unfolding tables_ok_def
  proof (intro conjI ballI)
    show "distinct (map dg_id (db_dags ?db'))" using t new by (simp add: dags tables_ok_def)
    have "distinct (map (Pair ?d) (job_ids spec))"
      using wf by (simp add: dag_well_formed_def distinct_map inj_on_def)
    moreover have "job_key ` set (db_jobs db) \<inter> Pair ?d ` set (job_ids spec) = {}"
      using old by (auto simp: job_key_def)
    ultimately show "distinct (map job_key (db_jobs ?db'))"
      using t unfolding jobs map_append keys by (simp add: tables_ok_def image_image)
    have "edge_row ?d e \<notin> set (db_dependencies db)" for e
    proof
      assume "edge_row ?d e \<in> set (db_dependencies db)"
      then have "(?d, dep_from e) \<in> job_key ` set (db_jobs db)" using t by (auto simp: tables_ok_def edge_row_def)
      then obtain r where "r \<in> set (db_jobs db)" "jb_dag_id r = ?d" by (auto simp: job_key_def)
      with old show False by metis
    qed
    then show "distinct (db_dependencies ?db')"
      using t dist by (auto simp: deps tables_ok_def distinct_map inj_on_def edge_row_inj)
    show "jb_dag_id ` set (db_jobs ?db') \<subseteq> dg_id ` set (db_dags ?db')"
      using t by (auto simp: jobs dags tables_ok_def submitted_row_s)
    fix e
    assume "e \<in> set (db_dependencies ?db')"
    then consider "e \<in> set (db_dependencies db)" | e0 where "e0 \<in> set (ds_dependencies spec)" "e = edge_row ?d e0"
      by (auto simp: deps)
    then have "(dp_dag_id e, dp_parent_id e) \<in> job_key ` set (db_jobs ?db') \<and>
        (dp_dag_id e, dp_child_id e) \<in> job_key ` set (db_jobs ?db') \<and> dp_parent_id e \<noteq> dp_child_id e"
    proof cases
      case 1
      with t have "(dp_dag_id e, dp_parent_id e) \<in> job_key ` set (db_jobs db)"
        "(dp_dag_id e, dp_child_id e) \<in> job_key ` set (db_jobs db)" "dp_parent_id e \<noteq> dp_child_id e"
        by (simp_all add: tables_ok_def)
      then show ?thesis by (simp add: jobs image_Un)
    next
      case 2
      have "(?d, j) \<in> job_key ` set (db_jobs ?db')" if "j \<in> set (job_ids spec)" for j
        using that by (force simp: jobs submitted_key)
      moreover have "dep_from e0 \<noteq> dep_to e0" using validate_Inr_no_self_loop [OF v] 2(1) by blast
      ultimately show ?thesis using edge_known_in [OF wf 2(1)] 2(2) by (simp add: edge_row_def)
    qed
    then show "(dp_dag_id e, dp_parent_id e) \<in> job_key ` set (db_jobs ?db')"
      "(dp_dag_id e, dp_child_id e) \<in> job_key ` set (db_jobs ?db')" "dp_parent_id e \<noteq> dp_child_id e" by auto
  qed
  moreover have "row_ok ?db' r" if "r \<in> set (db_jobs ?db')" for r
  proof (cases "r \<in> set (db_jobs db)")
    case True
    then have "row_ok db r" using inv by (simp add: db_inv_def)
    with old [OF True] show ?thesis by (simp add: row_ok_def blocked(1) dags)
  next
    case False
    with that obtain job where job: "job \<in> set (ds_jobs spec)" "r = ?row job" by (auto simp: jobs)
    note ri = submitted_row_facts [OF wf job(1), where now = now, folded job(2)]
    have "dg_state g = ''running''" if "g \<in> set (db_dags ?db')" "dg_id g = ?d" for g
    proof -
      have "g \<notin> set (db_dags db)" using that(2) new by (metis image_eqI)
      with that(1) show ?thesis by (simp add: dags)
    qed
    with ri show ?thesis by (auto simp: row_ok_def blocked(2))
  qed
  ultimately show ?thesis by (simp add: db_inv_def)
qed

lemma db_inv_submit:
  assumes inv: "db_inv db" and s: "store_submit spec now db = Some (db', r)"
  shows "db_inv db'"
proof -
  obtain v where v: "validate spec = Some v" using validate_total by blast
  show ?thesis
  proof (cases v)
    case (Inl e)
    with v s inv show ?thesis by (simp add: store_submit_def)
  next
    case (Inr order)
    with v have v': "validate spec = Some (Inr order)" by simp
    from s [unfolded store_submit_eq [OF inv v']] inv db_inv_admitted [OF inv v'] show ?thesis
      by (auto split: if_splits)
  qed
qed

end
