(* ===== verification/StoreMachine.thy ===== *)
theory StoreMachine
  imports StoreFlow SchedulerLifecycle
begin

text \<open>
  The store as a state machine: one rule per method, each a committed (or rolled back)
  transaction. Seen from one row a step is a short sequence of the micro-steps \<open>row_step\<close>, from
  which the lifecycle of a row, what it keeps, and the fencing of lease tokens follow. The UUIDs
  handed out so far are a ghost component of the state, on which \<open>Uuid::new_v4\<close> is assumed
  never to repeat itself.
\<close>

section \<open>Events and steps\<close>

datatype store_event =
    DbSubmit dag_spec timestamp
  | DbClaim "byte_string \<times> byte_string \<Rightarrow> bool" byte_string int uuid timestamp
  | DbHeartbeat byte_string byte_string byte_string uuid int timestamp
  | DbComplete byte_string byte_string byte_string uuid byte_string timestamp
  | DbFail byte_string byte_string byte_string uuid timestamp
  | DbReap timestamp
  | DbCancel byte_string timestamp

datatype store_reply =
    DbRejected store_error
  | DbDone
  | DbGranted "claimed_job option"
  | DbMoved job_state
  | DbCounted nat

definition db_reply_of :: "('a \<Rightarrow> store_reply) \<Rightarrow> store_error + 'a \<Rightarrow> store_reply" where
  "db_reply_of f r = (case r of Inl e \<Rightarrow> DbRejected e | Inr x \<Rightarrow> f x)"

inductive store_step ::
  "(byte_string \<Rightarrow> byte_string) \<Rightarrow> (uuid \<Rightarrow> byte_string) \<Rightarrow> database \<Rightarrow> store_event \<Rightarrow> store_reply \<Rightarrow> database \<Rightarrow> bool"
  for ck show_uuid where
  db_submit: "store_submit spec now db = Some (db', r) \<Longrightarrow>
    store_step ck show_uuid db (DbSubmit spec now) (db_reply_of (\<lambda>_. DbDone) r) db'"
| db_claim: "store_claim ck show_uuid locked owner l token now db = (db', r) \<Longrightarrow>
    store_step ck show_uuid db (DbClaim locked owner l token now) (db_reply_of DbGranted r) db'"
| db_heartbeat: "store_heartbeat d j owner token l now db = (db', r) \<Longrightarrow>
    store_step ck show_uuid db (DbHeartbeat d j owner token l now) (db_reply_of (\<lambda>_. DbDone) r) db'"
| db_complete: "store_complete d j owner token result now db = (db', r) \<Longrightarrow>
    store_step ck show_uuid db (DbComplete d j owner token result now) (db_reply_of (\<lambda>_. DbDone) r) db'"
| db_fail: "store_fail d j owner token now db = (db', r) \<Longrightarrow>
    store_step ck show_uuid db (DbFail d j owner token now) (db_reply_of DbMoved r) db'"
| db_reap: "store_reap now db = (db', n) \<Longrightarrow> store_step ck show_uuid db (DbReap now) (DbCounted n) db'"
| db_cancel: "store_cancel d now db = (db', r) \<Longrightarrow>
    store_step ck show_uuid db (DbCancel d now) (db_reply_of DbCounted r) db'"

inductive_cases store_step_cases: "store_step ck show_uuid db e r db'"

inductive store_runs :: "(byte_string \<Rightarrow> byte_string) \<Rightarrow> (uuid \<Rightarrow> byte_string) \<Rightarrow> database \<Rightarrow> database \<Rightarrow> bool"
  for ck show_uuid where
  store_runs_refl: "store_runs ck show_uuid db db"
| store_runs_step: "store_runs ck show_uuid db db' \<Longrightarrow> store_step ck show_uuid db' e r db'' \<Longrightarrow> store_runs ck show_uuid db db''"

definition store_reachable :: "(byte_string \<Rightarrow> byte_string) \<Rightarrow> (uuid \<Rightarrow> byte_string) \<Rightarrow> database \<Rightarrow> bool" where
  "store_reachable ck show_uuid db \<longleftrightarrow> store_runs ck show_uuid empty_database db"

lemma store_runs_trans: "store_runs ck sh db' db'' \<Longrightarrow> store_runs ck sh db db' \<Longrightarrow> store_runs ck sh db db''"
  by (induction rule: store_runs.induct) (auto intro: store_runs.intros)

lemma db_inv_step:
  assumes "db_inv db" "store_step ck show_uuid db e r db'"
  shows "db_inv db'"
  using assms(2)
proof (cases rule: store_step.cases)
  case (db_submit spec now r)
  then show ?thesis using db_inv_submit [OF assms(1)] by blast
next
  case (db_claim locked owner l token now r)
  then show ?thesis using db_inv_claim [OF assms(1)] by (metis fst_conv)
next
  case (db_heartbeat d j owner token l now r)
  then show ?thesis using db_inv_heartbeat [OF assms(1)] by (metis fst_conv)
next
  case (db_complete d j owner token result now r)
  then show ?thesis using db_inv_complete [OF assms(1)] by (metis fst_conv)
next
  case (db_fail d j owner token now r)
  then show ?thesis using db_inv_fail [OF assms(1)] by (metis fst_conv)
next
  case (db_reap now n)
  then show ?thesis using db_inv_reap [OF assms(1)] by (metis fst_conv store_reap_def)
next
  case (db_cancel d now r)
  then show ?thesis using db_inv_cancel [OF assms(1)] by (metis fst_conv)
qed

lemma db_inv_runs: "store_runs ck show_uuid db db' \<Longrightarrow> db_inv db \<Longrightarrow> db_inv db'"
  by (induction rule: store_runs.induct) (auto intro: db_inv_step)

lemma db_inv_reachable: "store_reachable ck show_uuid db \<Longrightarrow> db_inv db"
  unfolding store_reachable_def using db_inv_runs db_inv_empty by blast

section \<open>One row\<close>

inductive row_step :: "uuid set \<Rightarrow> job_row \<Rightarrow> job_row \<Rightarrow> bool" for tokens where
  row_lease: "jb_state r = state_name Ready \<or> jb_state r = state_name RetryWait \<Longrightarrow> token \<in> tokens \<Longrightarrow>
    row_step tokens r (lease_row owner token l now r)"
| row_renew: "jb_state r = state_name Leased \<Longrightarrow>
    row_step tokens r (r\<lparr>jb_lease_expires_at := Some t, jb_updated_at := now\<rparr>)"
| row_succeed: "jb_state r = state_name Leased \<Longrightarrow> row_step tokens r (succeed_row result now r)"
| row_release: "jb_state r = state_name Pending \<Longrightarrow> row_step tokens r (release_row now r)"
| row_requeue: "jb_state r = state_name Leased \<Longrightarrow> row_step tokens r (requeue_row now r)"
| row_cancel: "\<not> terminal_name (jb_state r) \<Longrightarrow> row_step tokens r (cancel_row now r)"

abbreviation row_steps :: "uuid set \<Rightarrow> job_row \<Rightarrow> job_row \<Rightarrow> bool" where
  "row_steps tokens \<equiv> (row_step tokens)\<^sup>*\<^sup>*"

lemma row_step_mono: "row_step T r r' \<Longrightarrow> T \<subseteq> T' \<Longrightarrow> row_step T' r r'"
  by (induction rule: row_step.induct) (auto intro: row_step.intros)

lemma row_steps_mono: "row_steps T r r' \<Longrightarrow> T \<subseteq> T' \<Longrightarrow> row_steps T' r r'"
  by (metis mono_rtranclp row_step_mono)

fun event_tokens :: "store_event \<Rightarrow> uuid set" where
  "event_tokens (DbClaim locked owner l token now) = {token}"
| "event_tokens e = {}"

text \<open>
  A step other than a submission rewrites the rows one by one; a submission appends rows and
  edges of a graph that is not in the tables.
\<close>

definition rows_rewritten :: "uuid set \<Rightarrow> database \<Rightarrow> database \<Rightarrow> bool" where
  "rows_rewritten tokens db db' \<longleftrightarrow>
     (\<exists>g. db_jobs db' = map g (db_jobs db) \<and> (\<forall>r\<in>set (db_jobs db). row_steps tokens r (g r))) \<and>
     db_dependencies db' = db_dependencies db \<and> map dg_id (db_dags db') = map dg_id (db_dags db)"

definition payload_ok :: "job_row \<Rightarrow> bool" where
  "payload_ok r \<longleftrightarrow> pg_text (jb_payload r) \<and> (\<exists>k. jb_kind r = kind_name k \<and> validate_payload k (jb_payload r) = Inr ())"

definition graph_added :: "database \<Rightarrow> database \<Rightarrow> bool" where
  "graph_added db db' \<longleftrightarrow>
     (\<exists>d rows edges. d \<notin> dg_id ` set (db_dags db) \<and> identifier_check d \<and> db_jobs db' = db_jobs db @ rows \<and>
        db_dependencies db' = db_dependencies db @ edges \<and> map dg_id (db_dags db') = map dg_id (db_dags db) @ [d] \<and>
        (\<forall>r\<in>set rows. jb_dag_id r = d \<and> jb_lease_token r = None \<and> payload_ok r) \<and> (\<forall>e\<in>set edges. dp_dag_id e = d))"

lemma rows_rewritten_refl [simp]: "rows_rewritten T db db"
  by (auto simp: rows_rewritten_def intro: exI [of _ id])

lemma rows_rewritten_update:
  assumes "\<And>r. r \<in> set (db_jobs db) \<Longrightarrow> p r \<Longrightarrow> row_steps T r (f r)"
  shows "rows_rewritten T db (update_jobs p f db)"
  unfolding rows_rewritten_def using assms by (auto intro!: exI [of _ "\<lambda>r. if p r then f r else r"])

lemma rows_rewritten_trans:
  assumes "rows_rewritten T db db'" "rows_rewritten T db' db''"
  shows "rows_rewritten T db db''"
proof -
  obtain g h where g: "db_jobs db' = map g (db_jobs db)" "\<forall>r\<in>set (db_jobs db). row_steps T r (g r)"
    and h: "db_jobs db'' = map h (db_jobs db')" "\<forall>r\<in>set (db_jobs db'). row_steps T r (h r)"
    using assms unfolding rows_rewritten_def by blast
  have "row_steps T r (h (g r))" if "r \<in> set (db_jobs db)" for r
    using that g h(2) by (metis image_eqI rtranclp_trans set_map)
  with g(1) h(1) assms show ?thesis
    by (auto simp: rows_rewritten_def intro!: exI [of _ "h \<circ> g"])
qed

lemma rows_rewritten_events [simp]:
  "rows_rewritten T db (db'\<lparr>db_events := es\<rparr>) = rows_rewritten T db db'"
  "rows_rewritten T db (insert_event d j e owner now db') = rows_rewritten T db db'"
  by (simp_all add: rows_rewritten_def insert_event_def)

lemma row_step_one: "row_step T r r' \<Longrightarrow> row_steps T r r'"
  by (rule r_into_rtranclp)

lemmas row_steps_one = row_step.intros [THEN row_step_one]

lemma reap_rewrites: "rows_rewritten T db (fst (reap_in_transaction now db))"
  unfolding reap_in_transaction_def fst_conv
  by (rule rows_rewritten_update) (simp add: expired_row_s row_steps_one)

lemma candidate_state: "candidate_row now db r \<Longrightarrow> jb_state r = state_name Ready \<or> jb_state r = state_name RetryWait"
  by (simp add: candidate_row_s)

lemma claim_rewrites:
  assumes tables: "tables_ok db" and c: "store_claim ck show_uuid locked owner l token now db = (db', r)"
  shows "rows_rewritten {token} db db'"
proof -
  let ?db1 = "fst (reap_in_transaction now db)"
  have key: "job_key (requeue_row now r) = job_key r" for r by simp
  have tables1: "tables_ok ?db1" unfolding reap_in_transaction_def fst_conv by (rule tables_ok_update [OF tables key])
  obtain st where st: "claim_statement ck locked owner token l now ?db1 = st" by simp
  have rewritten: "rows_rewritten {token} db db2" if "st = Inr (db2, x)" for db2 x
    using st [unfolded that]
  proof (cases rule: claim_statement_cases)
    case (claimed row)
    note row = eligible_row [OF claimed(2)]
    have "rows_rewritten {token} ?db1 (update_jobs (same_key row) (lease_row owner token l now) ?db1)"
    proof (rule rows_rewritten_update)
      fix r assume r: "r \<in> set (db_jobs ?db1)" "same_key row r"
      have "r = row"
        by (rule job_key_unique [OF _ r(1) row(1)]) (use tables1 r(2) in \<open>simp_all add: tables_ok_def job_key_def\<close>)
      then show "row_steps {token} r (lease_row owner token l now r)"
        using candidate_state [OF row(2)] by (intro row_steps_one) simp_all
    qed
    with claimed(4) show ?thesis using rows_rewritten_trans [OF reap_rewrites] by simp
  qed (simp_all add: reap_rewrites)
  show ?thesis
    using c rewritten st
    by (auto simp: store_claim_def transaction_def split: sum.splits option.splits prod.splits)
qed

lemma held_rewrites:
  assumes "\<And>r. jb_state r = state_name Leased \<Longrightarrow> row_step T r (f r)"
  shows "rows_rewritten T db (update_jobs (held_row d j owner token now) f db)"
  by (rule rows_rewritten_update) (use assms held_row_leased in \<open>blast intro: row_step_one\<close>)

lemma heartbeat_rewrites: "rows_rewritten T db (fst (store_heartbeat d j owner token l now db))"
  by (auto simp: store_heartbeat_def split: sum.split intro!: held_rewrites row_renew)

lemma complete_rewrites: "rows_rewritten T db (fst (store_complete d j owner token result now db))"
proof -
  have "rows_rewritten T db1 (release_statement d j now db1)" for db1
    unfolding release_statement_def by (rule rows_rewritten_update) (simp add: released_row_s row_steps_one)
  moreover have "rows_rewritten T db (update_jobs (held_row d j owner token now) (succeed_row result now) db)"
    by (rule held_rewrites) (rule row_succeed)
  ultimately have "rows_rewritten T db (release_statement d j now
      (update_jobs (held_row d j owner token now) (succeed_row result now) db))"
    by (metis rows_rewritten_trans)
  then show ?thesis
    by (auto simp: store_complete_def transaction_def complete_statement_def split: sum.split)
qed

lemma fail_rewrites: "rows_rewritten T db (fst (store_fail d j owner token now db))"
proof -
  have "rows_rewritten T db (update_jobs (held_row d j owner token now) (requeue_row now) db)"
    by (rule held_rewrites) (rule row_requeue)
  then show ?thesis
    by (auto simp: store_fail_def transaction_def split: sum.split list.split)
qed

lemma cancel_rewrites: "rows_rewritten T db (fst (store_cancel d now db))"
proof -
  have "rows_rewritten T db (cancelled_tables d now db)"
    unfolding rows_rewritten_def cancelled_tables_def
    by (auto intro!: exI [of _ "\<lambda>r. if cancellable_row d r then cancel_row now r else r"] row_steps_one simp: cancellable_iff)
  then show ?thesis by (simp add: store_cancel_eq)
qed

section \<open>Submissions keep the keys of the tables\<close>

lemma insert_job_Inr:
  "insert_job r db = Inr db' \<Longrightarrow> db' = db\<lparr>db_jobs := db_jobs db @ [r]\<rparr> \<and> job_key r \<notin> job_key ` set (db_jobs db) \<and>
    jb_dag_id r \<in> dg_id ` set (db_dags db) \<and> pg_text (jb_payload r)"
  by (auto simp: insert_job_def job_key_def split: if_splits)

lemma insert_jobs_Inr:
  assumes "insert_jobs d counts now jobs db = Inr db'" "tables_ok db"
  shows "db' = db\<lparr>db_jobs := db_jobs db @ map (submitted_row d counts now) jobs\<rparr> \<and>
    (\<forall>job\<in>set jobs. pg_text (js_payload job)) \<and> tables_ok db'"
  using assms
proof (induction jobs arbitrary: db)
  case (Cons job jobs)
  then obtain db1 where db1: "insert_job (submitted_row d counts now job) db = Inr db1"
    "insert_jobs d counts now jobs db1 = Inr db'" by (auto split: if_splits sum.splits)
  note ins = insert_job_Inr [OF db1(1)]
  have "tables_ok db1" using ins Cons.prems(2) by (simp add: tables_ok_def)
  note IH = Cons.IH [OF db1(2) this]
  have "pg_text (js_payload job)" using ins by (simp add: submitted_row_def)
  with IH have "\<forall>job\<in>set (job # jobs). pg_text (js_payload job)" by simp
  moreover have "db' = db\<lparr>db_jobs := db_jobs db @ map (submitted_row d counts now) (job # jobs)\<rparr>"
    using conjunct1 [OF IH] ins by simp
  ultimately show ?case using IH by blast
qed simp

lemma insert_dependency_Inr:
  "insert_dependency e db = Inr db' \<Longrightarrow> db' = db\<lparr>db_dependencies := db_dependencies db @ [e]\<rparr> \<and>
    dp_parent_id e \<noteq> dp_child_id e \<and> e \<notin> set (db_dependencies db) \<and>
    (dp_dag_id e, dp_parent_id e) \<in> job_key ` set (db_jobs db) \<and> (dp_dag_id e, dp_child_id e) \<in> job_key ` set (db_jobs db)"
  by (force simp: insert_dependency_def job_key_def split: if_splits)

lemma insert_dependencies_Inr:
  assumes "insert_dependencies d edges db = Inr db'" "tables_ok db"
  shows "db' = db\<lparr>db_dependencies := db_dependencies db @ map (edge_row d) edges\<rparr> \<and> tables_ok db'"
  using assms
proof (induction edges arbitrary: db)
  case (Cons e edges)
  then obtain db1 where db1: "insert_dependency (edge_row d e) db = Inr db1" "insert_dependencies d edges db1 = Inr db'"
    by (auto simp: insert_dependencies_Cons split: sum.splits)
  note ins = insert_dependency_Inr [OF db1(1)]
  have "tables_ok db1" using ins Cons.prems(2) by (simp add: tables_ok_def)
  note IH = Cons.IH [OF db1(2) this]
  from conjunct1 [OF IH] ins show ?case by (intro conjI conjunct2 [OF IH]) simp
qed simp

lemma insert_dag_Inr:
  "insert_dag d now db = Inr db' \<Longrightarrow> db' = db\<lparr>db_dags := db_dags db @ [\<lparr>dg_id = d, dg_state = ''running'', dg_updated_at = now\<rparr>]\<rparr> \<and>
    d \<notin> dg_id ` set (db_dags db) \<and> identifier_check d"
  by (auto simp: insert_dag_def split: if_splits)

lemma submit_adds:
  assumes tables: "tables_ok db" and s: "store_submit spec now db = Some (db', r)"
  shows "db' = db \<or> graph_added db db' \<and> tables_ok db'"
proof (cases r)
  case (Inl e)
  then have "db' = db" using s by (auto simp: store_submit_def transaction_def split: option.splits sum.splits)
  then show ?thesis ..
next
  case (Inr u)
  let ?d = "ds_id spec"
  from s Inr obtain db1 db2 where steps: "insert_dag ?d now db = Inr db1"
    "insert_jobs ?d (dependency_counts spec) now (ds_jobs spec) db1 = Inr db2"
    "insert_dependencies ?d (ds_dependencies spec) db2 = Inr db'"
    by (auto simp: store_submit_def transaction_def split: option.splits sum.splits)
  note dag = insert_dag_Inr [OF steps(1)]
  have t1: "tables_ok db1" using dag tables by (auto simp: tables_ok_def)
  note jobs = insert_jobs_Inr [OF steps(2) t1]
  have t2: "tables_ok db2" using jobs by blast
  note deps = insert_dependencies_Inr [OF steps(3) t2]
  from s Inr obtain order where v: "validate spec = Some (Inr order)"
    by (auto simp: store_submit_def split: option.splits sum.splits)
  have ok: "payload_ok (submitted_row ?d (dependency_counts spec) now job)" if "job \<in> set (ds_jobs spec)" for job
  proof -
    have "validate_payload (js_kind job) (js_payload job) = Inr ()"
      using validate_Inr_well_formed [OF v] that by (auto simp: dag_well_formed_def job_well_formed_def list_all_iff)
    with jobs that show ?thesis by (auto simp: payload_ok_def submitted_row_s)
  qed
  have "graph_added db db'"
    unfolding graph_added_def
  proof (intro exI conjI)
    show "?d \<notin> dg_id ` set (db_dags db)" "identifier_check ?d" using dag by blast+
    show "db_jobs db' = db_jobs db @ map (submitted_row ?d (dependency_counts spec) now) (ds_jobs spec)"
      "db_dependencies db' = db_dependencies db @ map (edge_row ?d) (ds_dependencies spec)"
      "map dg_id (db_dags db') = map dg_id (db_dags db) @ [?d]" using dag jobs deps by simp_all
    show "\<forall>r\<in>set (map (submitted_row ?d (dependency_counts spec) now) (ds_jobs spec)).
        jb_dag_id r = ?d \<and> jb_lease_token r = None \<and> payload_ok r" using ok by (auto simp: submitted_row_s)
  qed (simp_all add: edge_row_def)
  with deps show ?thesis by blast
qed

lemma row_step_key: "row_step T r r' \<Longrightarrow> job_key r' = job_key r"
  by (induction rule: row_step.induct) simp_all

lemma row_steps_key: "row_steps T r r' \<Longrightarrow> job_key r' = job_key r"
  by (induction rule: rtranclp_induct) (auto dest: row_step_key)

lemma rows_rewritten_tables:
  assumes "rows_rewritten T db db'" "tables_ok db"
  shows "tables_ok db'"
proof -
  from assms(1) obtain g where g: "db_jobs db' = map g (db_jobs db)" "\<forall>r\<in>set (db_jobs db). row_steps T r (g r)"
    and frame: "db_dependencies db' = db_dependencies db" "map dg_id (db_dags db') = map dg_id (db_dags db)"
    unfolding rows_rewritten_def by blast
  have "job_key (g r) = job_key r" if "r \<in> set (db_jobs db)" for r using g(2) that row_steps_key by blast
  then have "map job_key (db_jobs db') = map job_key (db_jobs db)" using g(1) by simp
  with assms(2) frame show ?thesis by (intro tables_ok_cong [of db db'])
qed

text \<open>Every step, on tables that satisfy the keys of the schema.\<close>

lemma store_step_effect:
  assumes tables: "tables_ok db" and step: "store_step ck show_uuid db e r db'"
  shows "rows_rewritten (event_tokens e) db db' \<or> graph_added db db' \<and> tables_ok db'"
  using step
proof (cases rule: store_step.cases)
  case (db_submit spec now r)
  with submit_adds [OF tables db_submit(3)] show ?thesis by auto
next
  case (db_claim locked owner l token now r)
  with claim_rewrites [OF tables db_claim(3)] show ?thesis by simp
next
  case (db_heartbeat d j owner token l now r)
  with heartbeat_rewrites show ?thesis by (metis fst_conv)
next
  case (db_complete d j owner token result now r)
  with complete_rewrites show ?thesis by (metis fst_conv)
next
  case (db_fail d j owner token now r)
  with fail_rewrites show ?thesis by (metis fst_conv)
next
  case (db_reap now n)
  with reap_rewrites show ?thesis by (metis fst_conv store_reap_def)
next
  case (db_cancel d now r)
  with cancel_rewrites show ?thesis by (metis fst_conv)
qed

lemma dag_ids_step:
  assumes tables: "tables_ok db" and step: "store_step ck show_uuid db e r db'"
    and ids: "\<forall>d\<in>dg_id ` set (db_dags db). identifier_check d"
  shows "\<forall>d\<in>dg_id ` set (db_dags db'). identifier_check d"
  using store_step_effect [OF tables step]
proof
  assume "rows_rewritten (event_tokens e) db db'"
  then have "map dg_id (db_dags db') = map dg_id (db_dags db)" by (simp add: rows_rewritten_def)
  from arg_cong [OF this, of set] ids show ?thesis by simp
next
  assume "graph_added db db' \<and> tables_ok db'"
  then obtain d where "map dg_id (db_dags db') = map dg_id (db_dags db) @ [d]" "identifier_check d"
    unfolding graph_added_def by blast
  from arg_cong [OF this(1), of set] this(2) ids show ?thesis by simp
qed

lemma tables_ok_step: "tables_ok db \<Longrightarrow> store_step ck show_uuid db e r db' \<Longrightarrow> tables_ok db'"
  using store_step_effect rows_rewritten_tables by blast

section \<open>Rows by key\<close>

definition job_row_at :: "database \<Rightarrow> byte_string \<times> byte_string \<Rightarrow> job_row option" where
  "job_row_at db i = find (\<lambda>r. job_key r = i) (db_jobs db)"

lemma find_Some_mem: "find P xs = Some x \<Longrightarrow> x \<in> set xs \<and> P x"
  by (induction xs) (auto split: if_splits)

lemma job_row_at_mem:
  assumes "job_row_at db i = Some r"
  shows "r \<in> set (db_jobs db) \<and> job_key r = i"
  using find_Some_mem [OF assms [unfolded job_row_at_def]] .

lemma job_row_at_iff:
  assumes tables: "tables_ok db"
  shows "job_row_at db i = Some r \<longleftrightarrow> r \<in> set (db_jobs db) \<and> job_key r = i"
proof
  show "r \<in> set (db_jobs db) \<and> job_key r = i" if "job_row_at db i = Some r" using job_row_at_mem [OF that] .
next
  assume r: "r \<in> set (db_jobs db) \<and> job_key r = i"
  then have "job_row_at db i \<noteq> None" unfolding job_row_at_def find_None_iff by blast
  then obtain r' where r': "job_row_at db i = Some r'" by blast
  have "distinct (map job_key (db_jobs db))" using tables by (simp add: tables_ok_def)
  from job_key_unique [OF this, of r' r] job_row_at_mem [OF r'] r have "r' = r" by simp
  with r' show "job_row_at db i = Some r" by simp
qed

lemma job_row_at_None: "job_row_at db i = None \<longleftrightarrow> i \<notin> job_key ` set (db_jobs db)"
  by (auto simp: job_row_at_def find_None_iff)

lemma step_row_evolves:
  assumes tables: "tables_ok db" and step: "store_step ck show_uuid db e r db'" and row: "job_row_at db i = Some row"
  shows "\<exists>row'. job_row_at db' i = Some row' \<and> row_steps (event_tokens e) row row'"
proof -
  have tables': "tables_ok db'" by (rule tables_ok_step [OF tables step])
  from row have mem: "row \<in> set (db_jobs db)" "job_key row = i" using job_row_at_iff [OF tables] by simp_all
  from store_step_effect [OF tables step] show ?thesis
  proof
    assume "rows_rewritten (event_tokens e) db db'"
    then obtain g where g: "db_jobs db' = map g (db_jobs db)" "\<forall>r\<in>set (db_jobs db). row_steps (event_tokens e) r (g r)"
      unfolding rows_rewritten_def by blast
    then have "g row \<in> set (db_jobs db')" "row_steps (event_tokens e) row (g row)" using mem(1) by simp_all
    moreover from this(2) have "job_key (g row) = i" using row_steps_key mem(2) by metis
    ultimately show ?thesis using job_row_at_iff [OF tables'] by blast
  next
    assume "graph_added db db' \<and> tables_ok db'"
    then have "row \<in> set (db_jobs db')" using mem(1) by (auto simp: graph_added_def)
    then show ?thesis using job_row_at_iff [OF tables'] mem(2) by blast
  qed
qed

lemma step_row_new:
  assumes tables: "tables_ok db" and step: "store_step ck show_uuid db e r db'"
    and old: "job_row_at db i = None" and row: "job_row_at db' i = Some row"
  shows "jb_lease_token row = None"
proof -
  have mem: "row \<in> set (db_jobs db')" "job_key row = i"
    using row job_row_at_iff [OF tables_ok_step [OF tables step]] by simp_all
  from store_step_effect [OF tables step] show ?thesis
  proof
    assume "rows_rewritten (event_tokens e) db db'"
    then obtain g where g: "db_jobs db' = map g (db_jobs db)" "\<forall>r\<in>set (db_jobs db). row_steps (event_tokens e) r (g r)"
      unfolding rows_rewritten_def by blast
    from mem(1) g(1) obtain r0 where "r0 \<in> set (db_jobs db)" "row = g r0" by auto
    with g(2) mem(2) have "i \<in> job_key ` set (db_jobs db)" using row_steps_key by (metis image_eqI)
    with old show ?thesis by (simp add: job_row_at_None)
  next
    assume "graph_added db db' \<and> tables_ok db'"
    then obtain rows where "db_jobs db' = db_jobs db @ rows" "\<forall>r\<in>set rows. jb_lease_token r = None"
      unfolding graph_added_def by blast
    with mem old show ?thesis by (auto simp: job_row_at_None)
  qed
qed

text \<open>The edges of a graph in the tables never change.\<close>

lemma step_edges:
  assumes tables: "tables_ok db" and step: "store_step ck show_uuid db e r db'" and d: "d \<in> dg_id ` set (db_dags db)"
  shows "\<lparr>dp_dag_id = d, dp_parent_id = p, dp_child_id = c\<rparr> \<in> set (db_dependencies db') \<longleftrightarrow>
    \<lparr>dp_dag_id = d, dp_parent_id = p, dp_child_id = c\<rparr> \<in> set (db_dependencies db)"
  using store_step_effect [OF tables step]
proof
  assume "rows_rewritten (event_tokens e) db db'"
  then show ?thesis by (simp add: rows_rewritten_def)
next
  assume "graph_added db db' \<and> tables_ok db'"
  then obtain d' edges where "d' \<notin> dg_id ` set (db_dags db)" "db_dependencies db' = db_dependencies db @ edges"
    "\<forall>e\<in>set edges. dp_dag_id e = d'" unfolding graph_added_def by blast
  with d show ?thesis by auto
qed

section \<open>What the micro-steps keep\<close>

lemma row_step_lifecycle:
  assumes "row_step T r r'" "jb_state r = state_name st"
  shows "\<exists>st'. jb_state r' = state_name st' \<and> lifecycle\<^sup>*\<^sup>* st st'"
  using assms
proof (induction rule: row_step.induct)
  case (row_requeue r now)
  then show ?case using requeue_state [of now r] lifecycle_one(5,6) by auto
next
  case (row_cancel r now)
  then have "\<not> is_terminal st" by (auto simp: terminal_name_def is_terminal_def split: job_state.splits)
  then show ?case using lifecycle_one(7) by auto
qed (auto intro: lifecycle_one)

lemma row_steps_lifecycle:
  assumes "row_steps T r r'" "jb_state r = state_name st"
  shows "\<exists>st'. jb_state r' = state_name st' \<and> lifecycle\<^sup>*\<^sup>* st st'"
  using assms
proof (induction rule: rtranclp_induct)
  case (step r' r'')
  then show ?case using row_step_lifecycle [OF step.hyps(2)] by (metis rtranclp_trans)
qed auto

lemma row_step_frame:
  assumes "row_step T r r'"
  shows "jb_kind r' = jb_kind r \<and> jb_payload r' = jb_payload r \<and> jb_max_attempts r' = jb_max_attempts r \<and>
    jb_priority r' = jb_priority r \<and> jb_attempts r \<le> jb_attempts r' \<and> job_key r' = job_key r"
  using assms
  by (induction rule: row_step.induct)
    (simp_all, simp_all add: lease_row_def succeed_row_def release_row_def requeue_row_def cancel_row_def)

lemma row_step_unfinished:
  assumes "row_step T r r'"
  shows "\<not> terminal_name (jb_state r)"
  using assms
  by (induction rule: row_step.induct) (auto simp: terminal_name_def)

lemma row_steps_finished:
  assumes "row_steps T r r'" "terminal_name (jb_state r)"
  shows "r' = r"
  using assms by (induction rule: rtranclp_induct) (auto dest: row_step_unfinished)

lemma row_step_token:
  assumes "row_step T r r'" "jb_lease_token r' = Some t"
  shows "jb_lease_token r = Some t \<or> t \<in> T"
  using assms
  by (induction rule: row_step.induct)
    (auto simp: lease_row_def succeed_row_def release_row_def requeue_row_def cancel_row_def)

lemma row_steps_token:
  assumes "row_steps T r r'" "jb_lease_token r' = Some t"
  shows "jb_lease_token r = Some t \<or> t \<in> T"
  using assms by (induction rule: rtranclp_induct) (auto dest: row_step_token)

end
