(* ===== verification/JobBoard.thy ===== *)
theory JobBoard
  imports SchedulerProgress
begin

text \<open>
  The contract that both implementations of the orchestrator promise to a client that watches
  job states: \<open>status\<close> is the visible state of a job, \<open>needs\<close> its parents. What a client may
  conclude from it is proved once; the in-memory scheduler provides it here, the PostgreSQL
  store in \<open>StoreBoard\<close>. The part of it that survives when the store's methods are no longer
  atomic is the contract \<open>job_history\<close>.
\<close>

locale job_history =
  fixes inv :: "'s \<Rightarrow> bool"
    and step :: "'s \<Rightarrow> 's \<Rightarrow> bool"
    and status :: "'s \<Rightarrow> 'i \<Rightarrow> job_state option"
    and needs :: "'s \<Rightarrow> 'i \<Rightarrow> 'i set"
  assumes inv_step: "inv s \<Longrightarrow> step s s' \<Longrightarrow> inv s'"
    and status_step: "inv s \<Longrightarrow> step s s' \<Longrightarrow> status s i = Some st \<Longrightarrow>
      \<exists>st'. status s' i = Some st' \<and> lifecycle\<^sup>*\<^sup>* st st'"
    and needs_step: "inv s \<Longrightarrow> step s s' \<Longrightarrow> status s i \<noteq> None \<Longrightarrow> needs s' i = needs s i"
    and needs_met: "inv s \<Longrightarrow> status s i = Some st \<Longrightarrow> st \<noteq> Pending \<Longrightarrow> st \<noteq> Cancelled \<Longrightarrow>
      p \<in> needs s i \<Longrightarrow> status s p = Some Succeeded"
begin

lemma inv_steps: "step\<^sup>*\<^sup>* s s' \<Longrightarrow> inv s \<Longrightarrow> inv s'"
  by (induction rule: rtranclp_induct) (auto intro: inv_step)

lemma status_steps:
  assumes "step\<^sup>*\<^sup>* s s'" "inv s" "status s i = Some st"
  shows "\<exists>st'. status s' i = Some st' \<and> lifecycle\<^sup>*\<^sup>* st st'"
  using assms
proof (induction rule: rtranclp_induct)
  case (step s' s'')
  then show ?case using status_step [OF inv_steps [OF step.hyps(1)] step.hyps(2)] by (metis rtranclp_trans)
qed auto

lemma needs_steps:
  assumes "step\<^sup>*\<^sup>* s s'" "inv s" "status s i \<noteq> None"
  shows "needs s' i = needs s i"
  using assms
proof (induction rule: rtranclp_induct)
  case (step s' s'')
  have "status s' i \<noteq> None" using status_steps [OF step.hyps(1) step.prems(1)] step.prems(2) by blast
  then show ?case using needs_step [OF inv_steps [OF step.hyps(1) step.prems(1)] step.hyps(2)] step.IH step.prems by simp
qed simp

text \<open>A finished job stays as it is.\<close>

lemma terminal_final:
  assumes "step\<^sup>*\<^sup>* s s'" "inv s" "status s i = Some st" "is_terminal st"
  shows "status s' i = Some st"
  using status_steps [OF assms(1-3)] lifecycle_star_terminal [OF _ assms(4)] by blast

text \<open>A job that starts has all the parents it ever had succeeded.\<close>

lemma started_after_parents:
  assumes "step\<^sup>*\<^sup>* s s'" "inv s" "status s i \<noteq> None" "p \<in> needs s i"
    "status s' i = Some st" "st \<noteq> Pending" "st \<noteq> Cancelled"
  shows "status s' p = Some Succeeded"
  using needs_met [OF inv_steps [OF assms(1,2)] assms(5-7)] needs_steps [OF assms(1-3)] assms(4) by simp

text \<open>A parent that can no longer succeed blocks its children for good.\<close>

lemma dead_parent_blocks:
  assumes "step\<^sup>*\<^sup>* s s'" "inv s" "status s i \<noteq> None" "p \<in> needs s i"
    "status s p = Some st" "is_terminal st" "st \<noteq> Succeeded"
  shows "status s' i = Some Pending \<or> status s' i = Some Cancelled"
proof -
  obtain st' where st': "status s' i = Some st'" using status_steps [OF assms(1,2)] assms(3) by blast
  have "status s' p = Some st" by (rule terminal_final [OF assms(1,2,5,6)])
  with started_after_parents [OF assms(1-4) st'] assms(7) st' show ?thesis by auto
qed

end

text \<open>A board moreover never forgets a job: a pending one has a parent to wait for.\<close>

locale job_board = job_history +
  assumes pending_waits_for: "inv s \<Longrightarrow> status s i = Some Pending \<Longrightarrow>
      \<exists>p\<in>needs s i. status s p \<noteq> None \<and> status s p \<noteq> Some Succeeded"

section \<open>The in-memory scheduler\<close>

definition sched_status :: "scheduler \<Rightarrow> byte_string \<times> byte_string \<Rightarrow> job_state option" where
  "sched_status s = (\<lambda>(d, j). map_option jr_state (job_at s d j))"

definition sched_needs :: "scheduler \<Rightarrow> byte_string \<times> byte_string \<Rightarrow> (byte_string \<times> byte_string) set" where
  "sched_needs s = (\<lambda>(d, j). {(d', p). d' = d \<and> j \<in> set (dependents_at s d p)})"

definition some_step :: "scheduler \<Rightarrow> scheduler \<Rightarrow> bool" where
  "some_step s s' \<longleftrightarrow> (\<exists>e r. sched_step s e r s')"

interpretation sched_board: job_board sched_inv some_step sched_status sched_needs
proof unfold_locales
  fix s s' :: scheduler and i p :: "byte_string \<times> byte_string" and st
  show "sched_inv s \<Longrightarrow> some_step s s' \<Longrightarrow> sched_inv s'"
    by (auto simp: some_step_def intro: sched_inv_step)
  obtain d j where i: "i = (d, j)" by (cases i)
  show "\<exists>st'. sched_status s' i = Some st' \<and> lifecycle\<^sup>*\<^sup>* st st'"
    if "sched_inv s" "some_step s s'" "sched_status s i = Some st"
  proof -
    from that(3) obtain job where job: "job_at s d j = Some job" "jr_state job = st" by (auto simp: i sched_status_def)
    from that(2) sched_step_evolves [OF that(1)] have "job_evolves d j s s'" by (auto simp: some_step_def)
    with job(1) obtain job' where "job_at s' d j = Some job'" "job_steps d j (sc_sequence s) (sc_sequence s') job job'"
      by (auto simp: job_evolves_def)
    with job_steps_lifecycle job(2) show ?thesis by (auto simp: i sched_status_def)
  qed
  show "sched_needs s' i = sched_needs s i" if "sched_inv s" "some_step s s'" "sched_status s i \<noteq> None"
    using that sched_step_frame [OF that(1)]
    by (fastforce simp: i sched_status_def sched_needs_def some_step_def dependents_at_def)
  note deps = unmet_0_iff [OF struct_inv_dependents_wf [OF sched_inv_struct]]
  show "sched_status s p = Some Succeeded"
    if inv: "sched_inv s" and st: "sched_status s i = Some st" "st \<noteq> Pending" "st \<noteq> Cancelled" and p: "p \<in> sched_needs s i"
  proof -
    from st(1) obtain job where job: "job_at s d j = Some job" "jr_state job = st" by (auto simp: i sched_status_def)
    have "unmet s d j = 0" using sched_inv_job(1,3) [OF inv job(1)] job(2) st(2,3) by (simp add: job_inv_def Let_def)
    with p deps [OF inv] show ?thesis
      by (auto simp: i sched_needs_def sched_status_def succeeded_def split: option.splits)
  qed
  show "\<exists>p\<in>sched_needs s i. sched_status s p \<noteq> None \<and> sched_status s p \<noteq> Some Succeeded"
    if inv: "sched_inv s" and st: "sched_status s i = Some Pending"
  proof -
    from st obtain job where job: "job_at s d j = Some job" "jr_state job = Pending" by (auto simp: i sched_status_def)
    have "unmet s d j \<noteq> 0" using sched_inv_job(1,3) [OF inv job(1)] job(2) by (simp add: job_inv_def Let_def)
    then have "\<not> (\<forall>q. j \<in> set (dependents_at s d q) \<longrightarrow> succeeded s d q)" by (simp add: deps [OF inv])
    then obtain q where q: "j \<in> set (dependents_at s d q)" "\<not> succeeded s d q" by blast
    have "job_at s d q \<noteq> None" using dependents_known(1) [OF sched_inv_struct [OF inv] q(1)] by blast
    with q show ?thesis by (intro bexI [of _ "(d, q)"]) (auto simp: i sched_needs_def sched_status_def succeeded_def)
  qed
qed

end
