(* ===== verification/StoreBoard.thy ===== *)
theory StoreBoard
  imports StoreMachine JobBoard
begin

text \<open>The store provides the two contracts: the board of job states and the fencing of leases.\<close>

section \<open>The board\<close>

lemma parse_state_Inr: "parse_state v = Inr st \<longleftrightarrow> v = state_name st"
proof
  show "parse_state v = Inr st \<Longrightarrow> v = state_name st"
    unfolding parse_state_def by (auto simp: state_literals split: if_splits)
qed simp

definition row_status :: "database \<Rightarrow> byte_string \<times> byte_string \<Rightarrow> job_state option" where
  "row_status db i =
     (case job_row_at db i of
        None \<Rightarrow> None
      | Some r \<Rightarrow> (case parse_state (jb_state r) of Inl e \<Rightarrow> None | Inr st \<Rightarrow> Some st))"

lemma row_status_iff: "row_status db i = Some st \<longleftrightarrow> (\<exists>r. job_row_at db i = Some r \<and> jb_state r = state_name st)"
proof -
  have "(case parse_state v of Inl e \<Rightarrow> None | Inr st \<Rightarrow> Some st) = Some st \<longleftrightarrow> v = state_name st" for v
    using parse_state_Inr by (auto split: sum.splits)
  then show ?thesis by (simp add: row_status_def split: option.split)
qed

definition row_needs :: "database \<Rightarrow> byte_string \<times> byte_string \<Rightarrow> (byte_string \<times> byte_string) set" where
  "row_needs db = (\<lambda>(d, j). {(d', p). d' = d \<and> \<lparr>dp_dag_id = d, dp_parent_id = p, dp_child_id = j\<rparr> \<in> set (db_dependencies db)})"

definition some_store_step :: "(byte_string \<Rightarrow> byte_string) \<Rightarrow> (uuid \<Rightarrow> byte_string) \<Rightarrow> database \<Rightarrow> database \<Rightarrow> bool" where
  "some_store_step ck show_uuid db db' \<longleftrightarrow> (\<exists>e r. store_step ck show_uuid db e r db')"

lemma store_runs_steps: "store_runs ck show_uuid db db' \<Longrightarrow> (some_store_step ck show_uuid)\<^sup>*\<^sup>* db db'"
proof (induction rule: store_runs.induct)
  case (store_runs_step db db' e r db'')
  then have "some_store_step ck show_uuid db' db''" by (auto simp: some_store_step_def)
  with store_runs_step.IH show ?case by (rule rtranclp.rtrancl_into_rtrancl)
qed simp

lemma db_inv_tables: "db_inv db \<Longrightarrow> tables_ok db"
  by (simp add: db_inv_def)

lemma db_inv_row_ok: "db_inv db \<Longrightarrow> job_row_at db i = Some r \<Longrightarrow> row_ok db r \<and> job_key r = i"
  using job_row_at_mem by (auto simp: db_inv_def)

lemma job_row_at_dag: "tables_ok db \<Longrightarrow> job_row_at db (d, j) = Some r \<Longrightarrow> d \<in> dg_id ` set (db_dags db)"
proof -
  assume t: "tables_ok db" and "job_row_at db (d, j) = Some r"
  then have "r \<in> set (db_jobs db)" "jb_dag_id r = d" using job_row_at_mem by (auto simp: job_key_def)
  moreover have "jb_dag_id ` set (db_jobs db) \<subseteq> dg_id ` set (db_dags db)" using t by (simp add: tables_ok_def)
  ultimately show ?thesis by blast
qed

lemma row_status_Succeeded:
  assumes "tables_ok db" "q \<in> set (db_jobs db)" "job_key q = i"
  shows "row_status db i = Some Succeeded \<longleftrightarrow> jb_state q = state_name Succeeded"
  using assms job_row_at_iff [OF assms(1), of i q] by (simp add: row_status_iff)

interpretation store_board: job_board db_inv "some_store_step ck show_uuid" row_status row_needs for ck show_uuid
proof unfold_locales
  fix db db' :: database and i p :: "byte_string \<times> byte_string" and st
  show "db_inv db \<Longrightarrow> some_store_step ck show_uuid db db' \<Longrightarrow> db_inv db'"
    by (auto simp: some_store_step_def intro: db_inv_step)
  obtain d j where i: "i = (d, j)" by (cases i)
  show "\<exists>st'. row_status db' i = Some st' \<and> lifecycle\<^sup>*\<^sup>* st st'"
    if "db_inv db" "some_store_step ck show_uuid db db'" "row_status db i = Some st"
  proof -
    from that(3) obtain r where r: "job_row_at db i = Some r" "jb_state r = state_name st" by (auto simp: row_status_iff)
    from that(2) obtain e x where "store_step ck show_uuid db e x db'" by (auto simp: some_store_step_def)
    from step_row_evolves [OF db_inv_tables [OF that(1)] this r(1)] obtain r' where
      "job_row_at db' i = Some r'" "row_steps (event_tokens e) r r'" by blast
    with row_steps_lifecycle [OF _ r(2)] show ?thesis unfolding row_status_iff by blast
  qed
  show "row_needs db' i = row_needs db i"
    if "db_inv db" "some_store_step ck show_uuid db db'" "row_status db i \<noteq> None"
  proof -
    from that(3) obtain r where "job_row_at db (d, j) = Some r"
      by (auto simp: i row_status_def split: option.splits)
    then have "d \<in> dg_id ` set (db_dags db)" by (rule job_row_at_dag [OF db_inv_tables [OF that(1)]])
    with that(2) step_edges [OF db_inv_tables [OF that(1)]] show ?thesis
      by (auto simp: i row_needs_def some_store_step_def)
  qed
  show "row_status db p = Some Succeeded"
    if inv: "db_inv db" and st: "row_status db i = Some st" "st \<noteq> Pending" "st \<noteq> Cancelled" and p: "p \<in> row_needs db i"
  proof -
    from st(1) obtain r where r: "job_row_at db i = Some r" "jb_state r = state_name st" by (auto simp: row_status_iff)
    from db_inv_row_ok [OF inv r(1)] st(2,3) r(2) have nb: "\<not> blocked db d j" by (auto simp: row_ok_def i job_key_def)
    from p obtain q where q: "p = (d, q)" "\<lparr>dp_dag_id = d, dp_parent_id = q, dp_child_id = j\<rparr> \<in> set (db_dependencies db)"
      by (auto simp: i row_needs_def)
    with inv have "p \<in> job_key ` set (db_jobs db)" by (force simp: db_inv_def tables_ok_def)
    then obtain pr where pr: "pr \<in> set (db_jobs db)" "job_key pr = p" by blast
    have "jb_state pr = state_name Succeeded" using nb q pr unfolding blocked_def by blast
    with row_status_Succeeded [OF db_inv_tables [OF inv] pr] show ?thesis by simp
  qed
  show "\<exists>p\<in>row_needs db i. row_status db p \<noteq> None \<and> row_status db p \<noteq> Some Succeeded"
    if inv: "db_inv db" and st: "row_status db i = Some Pending"
  proof -
    from st obtain r where r: "job_row_at db i = Some r" "jb_state r = state_name Pending" by (auto simp: row_status_iff)
    from db_inv_row_ok [OF inv r(1)] r(2) have "blocked db d j" by (auto simp: row_ok_def i job_key_def)
    then obtain q pr where q: "\<lparr>dp_dag_id = d, dp_parent_id = q, dp_child_id = j\<rparr> \<in> set (db_dependencies db)"
      "pr \<in> set (db_jobs db)" "job_key pr = (d, q)" "jb_state pr \<noteq> state_name Succeeded" unfolding blocked_def by blast
    have "jb_state pr \<in> state_names" using db_inv_row [OF inv q(2)] by (simp add: row_inv_def job_row_check_s)
    then obtain st' where st': "jb_state pr = state_name st'" by (auto simp: state_names_def)
    have "job_row_at db (d, q) = Some pr" using job_row_at_iff [OF db_inv_tables [OF inv]] q(2,3) by simp
    with st' have "row_status db (d, q) = Some st'" by (simp add: row_status_iff)
    with q st' show ?thesis by (intro bexI [of _ "(d, q)"]) (auto simp: i row_needs_def)
  qed
qed

section \<open>Fencing\<close>

text \<open>The tables with the UUIDs drawn so far; a claim draws one that was not drawn before.\<close>

type_synonym fenced_database = "database \<times> uuid set"

definition fenced_inv :: "fenced_database \<Rightarrow> bool" where
  "fenced_inv = (\<lambda>(db, used). db_inv db \<and> (\<forall>r\<in>set (db_jobs db). \<forall>t. jb_lease_token r = Some t \<longrightarrow> t \<in> used))"

definition fenced_step :: "(byte_string \<Rightarrow> byte_string) \<Rightarrow> (uuid \<Rightarrow> byte_string) \<Rightarrow> fenced_database \<Rightarrow> fenced_database \<Rightarrow> bool" where
  "fenced_step ck show_uuid = (\<lambda>(db, used) (db', used').
     \<exists>e r. store_step ck show_uuid db e r db' \<and> event_tokens e \<inter> used = {} \<and> used' = used \<union> event_tokens e)"

definition row_holder :: "fenced_database \<Rightarrow> byte_string \<times> byte_string \<Rightarrow> uuid option" where
  "row_holder = (\<lambda>(db, used) i. Option.bind (job_row_at db i) jb_lease_token)"

definition uuid_drawn :: "fenced_database \<Rightarrow> byte_string \<times> byte_string \<Rightarrow> uuid \<Rightarrow> bool" where
  "uuid_drawn = (\<lambda>(db, used) i t. t \<in> used)"

lemma fenced_holder_step:
  assumes tables: "tables_ok db" and step: "store_step ck show_uuid db e x db'"
    and held: "job_row_at db' i = Some r'" "jb_lease_token r' = Some t"
  shows "(\<exists>r. job_row_at db i = Some r \<and> jb_lease_token r = Some t) \<or> t \<in> event_tokens e"
proof (cases "job_row_at db i")
  case None
  from step_row_new [OF tables step None held(1)] held(2) show ?thesis by simp
next
  case (Some r)
  from step_row_evolves [OF tables step Some] held(1) have "row_steps (event_tokens e) r r'" by auto
  from row_steps_token [OF this held(2)] Some show ?thesis by blast
qed

lemma fenced_inv_step:
  assumes "fenced_inv s" "fenced_step ck show_uuid s s'"
  shows "fenced_inv s'"
proof -
  obtain db used db' used' where s: "s = (db, used)" "s' = (db', used')" by (cases s, cases s') blast
  from assms obtain e x where inv: "db_inv db" and used: "\<forall>r\<in>set (db_jobs db). \<forall>t. jb_lease_token r = Some t \<longrightarrow> t \<in> used"
    and step: "store_step ck show_uuid db e x db'" and used': "used' = used \<union> event_tokens e"
    unfolding s fenced_inv_def fenced_step_def by auto
  have inv': "db_inv db'" by (rule db_inv_step [OF inv step])
  have "t \<in> used'" if "r \<in> set (db_jobs db')" "jb_lease_token r = Some t" for r t
  proof -
    have "job_row_at db' (job_key r) = Some r" using job_row_at_iff [OF db_inv_tables [OF inv']] that(1) by simp
    from fenced_holder_step [OF db_inv_tables [OF inv] step this that(2)] used used' show ?thesis
      using job_row_at_mem by blast
  qed
  with inv' show ?thesis unfolding s fenced_inv_def by simp
qed

interpretation pg_fence: token_fencing fenced_inv "fenced_step ck show_uuid" row_holder uuid_drawn for ck show_uuid
proof unfold_locales
  fix s s' :: fenced_database and i :: "byte_string \<times> byte_string" and t
  show "fenced_inv s \<Longrightarrow> fenced_step ck show_uuid s s' \<Longrightarrow> fenced_inv s'" by (rule fenced_inv_step)
  show "fenced_inv s \<Longrightarrow> fenced_step ck show_uuid s s' \<Longrightarrow> uuid_drawn s i t \<Longrightarrow> uuid_drawn s' i t"
    by (auto simp: fenced_step_def uuid_drawn_def)
  show "uuid_drawn s i t" if "fenced_inv s" "row_holder s i = Some t"
  proof -
    obtain db used where s: "s = (db, used)" by (cases s)
    from that(2) obtain r where r: "job_row_at db i = Some r" "jb_lease_token r = Some t"
      unfolding s row_holder_def by (auto simp: bind_eq_Some_conv)
    from job_row_at_mem [OF r(1)] that(1) r(2) show ?thesis unfolding s fenced_inv_def uuid_drawn_def by auto
  qed
  show "row_holder s i = Some t \<or> \<not> uuid_drawn s i t"
    if inv: "fenced_inv s" and step: "fenced_step ck show_uuid s s'" and held: "row_holder s' i = Some t"
  proof -
    obtain db used db' used' where s: "s = (db, used)" "s' = (db', used')" by (cases s, cases s') blast
    from inv step obtain e x where inv: "db_inv db" and step: "store_step ck show_uuid db e x db'"
      and fresh: "event_tokens e \<inter> used = {}" unfolding s fenced_inv_def fenced_step_def by auto
    from held obtain r' where "job_row_at db' i = Some r'" "jb_lease_token r' = Some t"
      unfolding s row_holder_def by (auto simp: bind_eq_Some_conv)
    from fenced_holder_step [OF db_inv_tables [OF inv] step this] fresh show ?thesis
      unfolding s row_holder_def uuid_drawn_def by (auto simp: bind_eq_Some_conv)
  qed
qed

lemma not_holder_not_held:
  assumes "db_inv db" "row_holder (db, used) (d, j) \<noteq> Some token"
  shows "\<not> held d j owner token now db"
proof
  assume "held d j owner token now db"
  then obtain r where r: "r \<in> set (db_jobs db)" "held_row d j owner token now r" by (auto simp: held_def)
  then have "job_row_at db (d, j) = Some r" using job_row_at_iff [OF db_inv_tables [OF assms(1)]] held_row_leased by blast
  with r(2) assms(2) show False by (simp add: row_holder_def held_row_def)
qed

end
