(* ===== verification/StoreRace.thy ===== *)
theory StoreRace
  imports StoreBoard
begin

text \<open>
  Two completions of the same DAG at the level of their statements. At PostgreSQL's default
  isolation a statement sees what is committed and what its own transaction wrote; a row that
  another open transaction wrote is locked until that transaction ends. \<open>ss_writes\<close> holds the
  row versions a session has written and not yet committed. Arguments the method refuses (a
  result over the limit, a text with a zero byte) roll the session back before it writes.
\<close>

section \<open>Rows by key under updates\<close>

lemma find_map_key:
  assumes "\<And>r. job_key (g r) = job_key r"
  shows "find (\<lambda>r. job_key r = i) (map g rows) = map_option g (find (\<lambda>r. job_key r = i) rows)"
  by (induction rows) (simp_all add: assms)

lemma job_row_at_update:
  assumes "\<And>r. job_key (f r) = job_key r"
  shows "job_row_at (update_jobs p f db) i = map_option (\<lambda>r. if p r then f r else r) (job_row_at db i)"
  unfolding job_row_at_def update_jobs_sel by (rule find_map_key) (simp add: assms)

lemma job_row_at_events [simp]:
  "job_row_at (db\<lparr>db_events := es\<rparr>) i = job_row_at db i"
  "job_row_at (insert_event d j e owner now db) i = job_row_at db i"
  by (simp_all add: job_row_at_def insert_event_def)

lemma held_key_state: "held_row d j owner token now r \<Longrightarrow> job_key r = (d, j) \<and> jb_state r = state_name Leased"
  using held_row_leased by blast

section \<open>A pending row\<close>

text \<open>A pending row only changes when it is cancelled or one of its parents is completed.\<close>

lemma pending_row_reap:
  assumes "job_row_at db i = Some row" "jb_state row = state_name Pending"
  shows "job_row_at (fst (reap_in_transaction now db)) i = Some row"
proof -
  have "\<not> expired_row now row" using assms(2) by (simp add: expired_row_s)
  then show ?thesis unfolding reap_in_transaction_def fst_conv by (simp add: job_row_at_update assms(1))
qed

lemma pending_row_held:
  assumes "job_row_at db i = Some row" "jb_state row = state_name Pending" "\<And>r. job_key (f r) = job_key r"
  shows "job_row_at (update_jobs (held_row d j owner token now) f db) i = Some row"
proof -
  have "\<not> held_row d j owner token now row" using assms(2) held_key_state by auto
  then show ?thesis by (simp add: job_row_at_update assms)
qed

lemma pending_row_claim:
  assumes tables: "tables_ok db" and row: "job_row_at db i = Some row" "jb_state row = state_name Pending"
    and c: "store_claim ck show_uuid locked owner l token now db = (db', r)"
  shows "job_row_at db' i = Some row"
proof -
  let ?db1 = "fst (reap_in_transaction now db)"
  have row1: "job_row_at ?db1 i = Some row" by (rule pending_row_reap [OF row])
  have tables1: "tables_ok ?db1" by (rule rows_rewritten_tables [OF reap_rewrites tables])
  obtain st where st: "claim_statement ck locked owner token l now ?db1 = st" by simp
  have kept: "job_row_at db2 i = Some row" if "st = Inr (db2, x)" for db2 x
    using st [unfolded that]
  proof (cases rule: claim_statement_cases)
    case (claimed c)
    have "\<not> same_key c row"
    proof
      assume "same_key c row"
      then have "job_key row = job_key c" by (simp add: job_key_def)
      moreover have "job_row_at ?db1 (job_key c) = Some c"
        using job_row_at_iff [OF tables1] eligible_row(1) [OF claimed(2)] by blast
      ultimately have "row = c" using row1 job_row_at_mem [OF row1] by simp
      with eligible_row(2) [OF claimed(2)] row(2) show False by (auto dest: candidate_state)
    qed
    then show ?thesis using claimed(4) by (auto simp: job_row_at_update row1)
  qed (simp_all add: row1)
  show ?thesis
    using c kept st row by (auto simp: store_claim_def transaction_def split: sum.splits option.splits prod.splits)
qed

lemma step_pending_row:
  assumes tables: "tables_ok db" and step: "store_step ck show_uuid db e x db'"
    and row: "job_row_at db (d, c) = Some row" "jb_state row = state_name Pending"
  shows "job_row_at db' (d, c) = Some row \<or> (\<exists>now. job_row_at db' (d, c) = Some (cancel_row now row)) \<or>
    (\<exists>p owner token now. held d p owner token now db \<and> (d, p) \<in> row_needs db (d, c))"
  using step
proof (cases rule: store_step.cases)
  case (db_submit spec now r)
  from submit_adds [OF tables db_submit(3)] have "db' = db \<or> (\<exists>rows. db_jobs db' = db_jobs db @ rows) \<and> tables_ok db'"
    by (auto simp: graph_added_def)
  then have "row \<in> set (db_jobs db')" "tables_ok db'" using job_row_at_mem [OF row(1)] tables by auto
  then show ?thesis using job_row_at_iff job_row_at_mem [OF row(1)] by blast
next
  case (db_claim locked owner l token now r)
  from pending_row_claim [OF tables row db_claim(3)] show ?thesis by blast
next
  case (db_heartbeat d' j owner token l now r)
  have "job_row_at (update_jobs (held_row d' j owner token now)
      (\<lambda>r. r\<lparr>jb_lease_expires_at := Some (now + l * millisecond), jb_updated_at := now\<rparr>) db) (d, c) = Some row"
    by (rule pending_row_held [OF row]) simp
  with db_heartbeat(3) row(1) show ?thesis by (auto simp: store_heartbeat_def split: sum.splits if_splits)
next
  case (db_complete d' j owner token result now r)
  let ?db1 = "update_jobs (held_row d' j owner token now) (succeed_row result now) db"
  have row1: "job_row_at ?db1 (d, c) = Some row" by (rule pending_row_held [OF row]) simp
  show ?thesis
  proof (cases "released_row d' j ?db1 row \<and> held d' j owner token now db")
    case True
    then have d: "d' = d" and "\<exists>e\<in>set (db_dependencies db). dp_dag_id e = d \<and> dp_parent_id e = j \<and> dp_child_id e = c"
      using job_row_at_mem [OF row(1)] by (auto simp: released_iff job_key_def)
    then have "(d, j) \<in> row_needs db (d, c)" by (auto simp: row_needs_def)
        (metis (full_types) dependency_row.surjective old.unit.exhaust)
    with True d show ?thesis by blast
  next
    case False
    have "rows_affected (held_row d' j owner token now) db \<noteq> 1" if "\<not> held d' j owner token now db"
      using that by (simp add: rows_affected_def held_def filter_empty_conv)
    moreover have "job_row_at (release_statement d' j now ?db1) (d, c) = Some row" if "\<not> released_row d' j ?db1 row"
      unfolding release_statement_def using that by (simp add: job_row_at_update row1)
    ultimately have "job_row_at db' (d, c) = Some row"
      using db_complete(3) False row(1)
      by (auto simp: store_complete_def transaction_def complete_statement_def ensure_compare_and_set_def split: if_splits sum.splits)
    then show ?thesis ..
  qed
next
  case (db_fail d' j owner token now r)
  have "job_row_at (update_jobs (held_row d' j owner token now) (requeue_row now) db) (d, c) = Some row"
    by (rule pending_row_held [OF row]) simp
  with db_fail(3) row(1) show ?thesis
    by (auto simp: store_fail_def transaction_def split: sum.splits if_splits list.splits)
next
  case (db_reap now n)
  with pending_row_reap [OF row, of now] show ?thesis by (metis fst_conv store_reap_def)
next
  case (db_cancel d' now r)
  have "job_row_at (cancelled_tables d' now db) (d, c) = Some (if cancellable_row d' row then cancel_row now row else row)"
  proof -
    have "job_row_at (db\<lparr>db_dags := g\<rparr>) (d, c) = Some row" for g using row(1) by (simp add: job_row_at_def)
    then show ?thesis unfolding cancelled_tables_def by (simp add: job_row_at_update)
  qed
  with db_cancel(3) row(1) show ?thesis by (auto simp: store_cancel_eq split: if_splits)
qed

section \<open>Sessions\<close>

record completion =
  cp_job :: byte_string
  cp_owner :: byte_string
  cp_token :: uuid
  cp_result :: byte_string
  cp_now :: timestamp

datatype phase = Begun | Marked | Released | Committed | RolledBack

type_synonym row_versions = "byte_string \<times> byte_string \<Rightarrow> job_row option"

record session =
  ss_call :: completion
  ss_phase :: phase
  ss_writes :: row_versions

definition begin_session :: "completion \<Rightarrow> session" where
  "begin_session c = \<lparr>ss_call = c, ss_phase = Begun, ss_writes = Map.empty\<rparr>"

definition overlay :: "row_versions \<Rightarrow> database \<Rightarrow> database" where
  "overlay w db = db\<lparr>db_jobs := map (\<lambda>r. case w (job_key r) of None \<Rightarrow> r | Some r' \<Rightarrow> r') (db_jobs db)\<rparr>"

text \<open>The row versions that an \<open>UPDATE\<close> writes on a view.\<close>

definition written :: "(job_row \<Rightarrow> bool) \<Rightarrow> (job_row \<Rightarrow> job_row) \<Rightarrow> database \<Rightarrow> row_versions" where
  "written p f view i = (case job_row_at view i of None \<Rightarrow> None | Some r \<Rightarrow> if p r then Some (f r) else None)"

definition call_held :: "byte_string \<Rightarrow> completion \<Rightarrow> job_row \<Rightarrow> bool" where
  "call_held d c = held_row d (cp_job c) (cp_owner c) (cp_token c) (cp_now c)"

definition mark_writes :: "byte_string \<Rightarrow> completion \<Rightarrow> database \<Rightarrow> row_versions" where
  "mark_writes d c view = written (call_held d c) (succeed_row (cp_result c) (cp_now c)) view"

definition release_writes :: "byte_string \<Rightarrow> completion \<Rightarrow> database \<Rightarrow> row_versions" where
  "release_writes d c view = written (released_row d (cp_job c) view) (release_row (cp_now c)) view"

text \<open>
  The arguments a completion gets past the check of the result's length and past the database,
  which stores no zero byte; the \<open>CHECK\<close> of the column \<open>result\<close> has the same limit.
\<close>

definition completion_ok :: "byte_string \<Rightarrow> completion \<Rightarrow> bool" where
  "completion_ok d c \<longleftrightarrow>
     length (cp_result c) \<le> MAX_PAYLOAD_BYTES \<and>
     pg_text d \<and> pg_text (cp_job c) \<and> pg_text (cp_owner c) \<and> pg_text (cp_result c)"

text \<open>
  One statement of a session, while the other session holds the row locks \<open>locks\<close>. A statement
  that would write a locked row waits: it has no step. The audit event is written with the commit.
\<close>

inductive session_step :: "byte_string \<Rightarrow> (byte_string \<times> byte_string) set \<Rightarrow> database \<times> session \<Rightarrow> database \<times> session \<Rightarrow> bool"
  for d locks where
  session_refused: "ss_phase s = Begun \<Longrightarrow> \<not> completion_ok d (ss_call s) \<Longrightarrow>
    session_step d locks (db, s) (db, s\<lparr>ss_phase := RolledBack, ss_writes := Map.empty\<rparr>)"
| session_mark: "ss_phase s = Begun \<Longrightarrow> completion_ok d (ss_call s) \<Longrightarrow>
    rows_affected (call_held d (ss_call s)) (overlay (ss_writes s) db) = 1 \<Longrightarrow>
    w = mark_writes d (ss_call s) (overlay (ss_writes s) db) \<Longrightarrow> dom w \<inter> locks = {} \<Longrightarrow>
    session_step d locks (db, s) (db, s\<lparr>ss_phase := Marked, ss_writes := ss_writes s ++ w\<rparr>)"
| session_conflict: "ss_phase s = Begun \<Longrightarrow> completion_ok d (ss_call s) \<Longrightarrow>
    rows_affected (call_held d (ss_call s)) (overlay (ss_writes s) db) \<noteq> 1 \<Longrightarrow>
    session_step d locks (db, s) (db, s\<lparr>ss_phase := RolledBack, ss_writes := Map.empty\<rparr>)"
| session_release: "ss_phase s = Marked \<Longrightarrow> w = release_writes d (ss_call s) (overlay (ss_writes s) db) \<Longrightarrow>
    dom w \<inter> locks = {} \<Longrightarrow>
    session_step d locks (db, s) (db, s\<lparr>ss_phase := Released, ss_writes := ss_writes s ++ w\<rparr>)"
| session_commit: "ss_phase s = Released \<Longrightarrow>
    session_step d locks (db, s)
      (insert_event d (cp_job (ss_call s)) ''succeeded'' (cp_owner (ss_call s)) (cp_now (ss_call s)) (overlay (ss_writes s) db),
       s\<lparr>ss_phase := Committed, ss_writes := Map.empty\<rparr>)"

inductive race_step :: "byte_string \<Rightarrow> database \<times> session \<times> session \<Rightarrow> database \<times> session \<times> session \<Rightarrow> bool" for d where
  race_left: "session_step d (dom (ss_writes t)) (db, s) (db', s') \<Longrightarrow> race_step d (db, s, t) (db', s', t)"
| race_right: "session_step d (dom (ss_writes s)) (db, t) (db', t') \<Longrightarrow> race_step d (db, s, t) (db', s, t')"

section \<open>Views\<close>

definition keyed :: "row_versions \<Rightarrow> bool" where
  "keyed w \<longleftrightarrow> (\<forall>i r. w i = Some r \<longrightarrow> job_key r = i)"

lemma keyed_empty [simp]: "keyed Map.empty"
  by (simp add: keyed_def)

lemma keyed_add [simp]: "keyed w \<Longrightarrow> keyed w' \<Longrightarrow> keyed (w ++ w')"
  by (auto simp: keyed_def map_add_Some_iff)

lemma keyed_written: "(\<And>r. job_key (f r) = job_key r) \<Longrightarrow> keyed (written p f db)"
  using job_row_at_mem by (auto simp: keyed_def written_def split: option.splits if_splits)

lemma keyed_writes [simp]: "keyed (mark_writes d c db)" "keyed (release_writes d c db)"
  by (simp_all add: mark_writes_def release_writes_def keyed_written)

lemma overlay_empty [simp]: "overlay Map.empty db = db"
  by (simp add: overlay_def)

lemma overlay_key: "keyed w \<Longrightarrow> job_key (case w (job_key r) of None \<Rightarrow> r | Some r' \<Rightarrow> r') = job_key r"
  by (cases "w (job_key r)") (simp_all add: keyed_def del: split_paired_All)

lemma job_row_at_overlay:
  assumes "keyed w"
  shows "job_row_at (overlay w db) i = map_option (\<lambda>r. case w i of None \<Rightarrow> r | Some r' \<Rightarrow> r') (job_row_at db i)"
proof -
  have "job_row_at (overlay w db) i =
      map_option (\<lambda>r. case w (job_key r) of None \<Rightarrow> r | Some r' \<Rightarrow> r') (job_row_at db i)"
    unfolding job_row_at_def by (simp add: overlay_def find_map_key [OF overlay_key [OF assms]])
  then show ?thesis using job_row_at_mem [of db i] by (cases "job_row_at db i") auto
qed

lemma overlay_sel [simp]:
  "db_dependencies (overlay w db) = db_dependencies db" "db_dags (overlay w db) = db_dags db"
  "db_events (overlay w db) = db_events db"
  by (simp_all add: overlay_def)

lemma tables_ok_overlay:
  assumes "keyed w" "tables_ok db"
  shows "tables_ok (overlay w db)"
  by (rule tables_ok_cong [OF assms(2)]) (simp_all add: overlay_def overlay_key [OF assms(1)])

lemma overlay_add:
  assumes "keyed w"
  shows "overlay (w ++ w') db = overlay w' (overlay w db)"
  using overlay_key [OF assms] by (auto simp: overlay_def map_add_def split: option.split)

lemma overlay_written:
  assumes tables: "tables_ok db" and key: "\<And>r. job_key (f r) = job_key r"
  shows "overlay (written p f db) db = update_jobs p f db"
proof -
  have "(case written p f db (job_key r) of None \<Rightarrow> r | Some r' \<Rightarrow> r') = (if p r then f r else r)"
    if "r \<in> set (db_jobs db)" for r
  proof -
    have "job_row_at db (job_key r) = Some r" using job_row_at_iff [OF tables] that by simp
    then show ?thesis by (simp add: written_def)
  qed
  then show ?thesis by (simp add: overlay_def update_jobs_def cong: map_cong)
qed

section \<open>A session alone\<close>

lemma held_call: "held d (cp_job c) (cp_owner c) (cp_token c) (cp_now c) db \<longleftrightarrow> (\<exists>r\<in>set (db_jobs db). call_held d c r)"
  by (simp add: held_def call_held_def)

lemma mark_view:
  assumes "tables_ok db"
  shows "overlay (mark_writes d c db) db = marked d (cp_job c) (cp_owner c) (cp_token c) (cp_result c) (cp_now c) db"
  unfolding mark_writes_def marked_def call_held_def by (rule overlay_written [OF assms]) simp

lemma release_view:
  assumes "tables_ok view"
  shows "overlay (release_writes d c view) view = release_statement d (cp_job c) (cp_now c) view"
  unfolding release_writes_def release_statement_def by (rule overlay_written [OF assms]) simp

text \<open>The writes of a session after its two statements, on the tables \<open>db\<close>.\<close>

definition marking :: "byte_string \<Rightarrow> completion \<Rightarrow> database \<Rightarrow> row_versions" where
  "marking d c db = mark_writes d c db"

definition releasing :: "byte_string \<Rightarrow> completion \<Rightarrow> database \<Rightarrow> row_versions" where
  "releasing d c db = release_writes d c (overlay (marking d c db) db)"

definition committed :: "byte_string \<Rightarrow> completion \<Rightarrow> row_versions \<Rightarrow> database \<Rightarrow> database" where
  "committed d c w db = insert_event d (cp_job c) ''succeeded'' (cp_owner c) (cp_now c) (overlay w db)"

definition session_at :: "completion \<Rightarrow> phase \<Rightarrow> row_versions \<Rightarrow> session" where
  "session_at c ph w = \<lparr>ss_call = c, ss_phase = ph, ss_writes = w\<rparr>"

lemma begin_session_at: "begin_session c = session_at c Begun Map.empty"
  by (simp add: begin_session_def session_at_def)

lemma session_at_writes [simp]: "ss_writes (session_at c ph w) = w"
  by (simp add: session_at_def)

lemma session_marks:
  assumes "db_inv db" "completion_ok d c" "\<exists>r\<in>set (db_jobs db). call_held d c r" "dom (marking d c db) \<inter> locks = {}"
  shows "session_step d locks (db, session_at c Begun Map.empty) (db, session_at c Marked (marking d c db))"
proof -
  let ?s = "session_at c Begun Map.empty"
  have "rows_affected (call_held d c) db = 1"
    using held_rows_unique [OF assms(1)] assms(3) by (simp add: call_held_def held_def)
  then have "session_step d locks (db, ?s) (db, ?s\<lparr>ss_phase := Marked, ss_writes := ss_writes ?s ++ marking d c db\<rparr>)"
    by (intro session_mark) (simp_all add: session_at_def marking_def assms(2) assms(4) [unfolded marking_def])
  then show ?thesis by (simp add: session_at_def)
qed

lemma session_releases:
  assumes "dom (releasing d c db) \<inter> locks = {}"
  shows "session_step d locks (db, session_at c Marked (marking d c db))
    (db, session_at c Released (marking d c db ++ releasing d c db))"
proof -
  let ?s = "session_at c Marked (marking d c db)"
  have "session_step d locks (db, ?s) (db, ?s\<lparr>ss_phase := Released, ss_writes := ss_writes ?s ++ releasing d c db\<rparr>)"
    by (intro session_release) (simp_all add: session_at_def releasing_def assms [unfolded releasing_def])
  then show ?thesis by (simp add: session_at_def)
qed

lemma session_commits:
  "session_step d locks (db, session_at c Released w) (committed d c w db, session_at c Committed Map.empty)"
  using session_commit [of "session_at c Released w" d locks db] by (simp add: session_at_def committed_def)

text \<open>Undisturbed, the statements of a session are the method \<open>complete\<close>.\<close>

lemma session_alone:
  assumes inv: "db_inv db" and held: "held d (cp_job c) (cp_owner c) (cp_token c) (cp_now c) db"
    and accepted: "completion_ok d c"
  shows "(session_step d {})\<^sup>*\<^sup>* (db, begin_session c)
    (fst (store_complete d (cp_job c) (cp_owner c) (cp_token c) (cp_result c) (cp_now c) db), session_at c Committed Map.empty)"
proof -
  note tables = db_inv_tables [OF inv]
  note ok = accepted [unfolded completion_ok_def MAX_PAYLOAD_BYTES_def]
  have mark: "overlay (marking d c db) db = marked d (cp_job c) (cp_owner c) (cp_token c) (cp_result c) (cp_now c) db"
    unfolding marking_def by (rule mark_view [OF tables])
  have tables': "tables_ok (overlay (marking d c db) db)" by (rule tables_ok_overlay [OF _ tables]) (simp add: marking_def)
  have "overlay (marking d c db ++ releasing d c db) db =
      release_statement d (cp_job c) (cp_now c) (overlay (marking d c db) db)"
    unfolding releasing_def by (simp add: overlay_add marking_def release_view [OF tables', unfolded marking_def])
  then have "fst (store_complete d (cp_job c) (cp_owner c) (cp_token c) (cp_result c) (cp_now c) db) =
      committed d c (marking d c db ++ releasing d c db) db"
    using held ok by (simp add: store_complete_eq [OF inv] committed_def mark)
  moreover have "session_step d {} (db, begin_session c) (db, session_at c Marked (marking d c db))"
    unfolding begin_session_at using held held_call by (intro session_marks [OF inv accepted]) simp_all
  moreover note session_releases [of d c db "{}"] session_commits [of d "{}" db c]
  ultimately show ?thesis by (metis (no_types, lifting) inf_bot_right rtranclp.simps)
qed

section \<open>The race\<close>

lemma marking_Some:
  assumes "marking d c db i = Some r'"
  shows "i = (d, cp_job c) \<and> (\<exists>r. job_row_at db i = Some r \<and> call_held d c r \<and> jb_state r = state_name Leased
    \<and> r' = succeed_row (cp_result c) (cp_now c) r)"
proof -
  from assms obtain r where r: "job_row_at db i = Some r" "call_held d c r" "r' = succeed_row (cp_result c) (cp_now c) r"
    by (auto simp: marking_def mark_writes_def written_def split: option.splits if_splits)
  with held_key_state [of d "cp_job c" "cp_owner c" "cp_token c" "cp_now c" r] job_row_at_mem [OF r(1)] show ?thesis
    by (auto simp: call_held_def)
qed

lemma job_row_at_marking:
  "job_row_at (overlay (marking d c db) db) i = map_option (\<lambda>r. case marking d c db i of None \<Rightarrow> r | Some r' \<Rightarrow> r') (job_row_at db i)"
  by (rule job_row_at_overlay) (simp add: marking_def)

lemma releasing_Some:
  assumes "releasing d c db i \<noteq> None"
  shows "\<exists>r. job_row_at db i = Some r \<and> jb_state r = state_name Pending \<and> \<not> open_parent (overlay (marking d c db) db) r"
proof -
  from assms obtain v where v: "job_row_at (overlay (marking d c db) db) i = Some v"
    "released_row d (cp_job c) (overlay (marking d c db) db) v"
    by (auto simp: releasing_def release_writes_def written_def split: option.splits if_splits)
  then have st: "jb_state v = state_name Pending" by (simp add: released_row_s)
  from v(1) obtain r where r: "job_row_at db i = Some r" "v = (case marking d c db i of None \<Rightarrow> r | Some r' \<Rightarrow> r')"
    by (auto simp: job_row_at_marking)
  have "marking d c db i = None"
  proof (rule ccontr)
    assume "marking d c db i \<noteq> None"
    then obtain r' where "marking d c db i = Some r'" by blast
    with marking_Some [OF this] r(2) st show False by auto
  qed
  with r v(2) st show ?thesis by (auto simp: released_row_s)
qed

text \<open>A child with an open parent other than the completed job is not released.\<close>

lemma not_releasing:
  assumes tables: "tables_ok db" and q: "q \<in> row_needs db (d, c)" "job_row_at db q = Some qr" "jb_state qr \<noteq> state_name Succeeded"
    and other: "q \<noteq> (d, cp_job call)"
  shows "releasing d call db (d, c) = None"
proof (rule ccontr)
  assume "releasing d call db (d, c) \<noteq> None"
  from releasing_Some [OF this] obtain r where r: "job_row_at db (d, c) = Some r"
    "\<not> open_parent (overlay (marking d call db) db) r" by blast
  have "marking d call db q = None"
  proof (rule ccontr)
    assume "marking d call db q \<noteq> None"
    then obtain r' where "marking d call db q = Some r'" by blast
    from marking_Some [OF this] other show False by blast
  qed
  then have "job_row_at (overlay (marking d call db) db) q = Some qr" using q(2) by (simp add: job_row_at_marking)
  from job_row_at_mem [OF this] have "qr \<in> set (db_jobs (overlay (marking d call db) db))" "job_key qr = q" by simp_all
  moreover obtain p where p: "q = (d, p)" "\<lparr>dp_dag_id = d, dp_parent_id = p, dp_child_id = c\<rparr> \<in> set (db_dependencies db)"
    using q(1) by (auto simp: row_needs_def)
  ultimately have "blocked (overlay (marking d call db) db) d c"
    unfolding blocked_def using q(3) by (intro exI [of _ p]) auto
  moreover have "jb_dag_id r = d" "jb_id r = c" using job_row_at_mem [OF r(1)] by (simp_all add: job_key_def)
  ultimately show False using r(2) by (simp add: open_parent_blocked)
qed

lemma quiet_row:
  assumes "job_row_at db i = Some r" "jb_state r \<noteq> state_name Leased" "jb_state r \<noteq> state_name Pending"
  shows "marking d c db i = None" "releasing d c db i = None"
proof -
  show "marking d c db i = None"
  proof (rule ccontr)
    assume "marking d c db i \<noteq> None"
    then obtain r' where "marking d c db i = Some r'" by blast
    from marking_Some [OF this] assms(1,2) show False by auto
  qed
  show "releasing d c db i = None"
  proof (rule ccontr)
    assume "releasing d c db i \<noteq> None"
    from releasing_Some [OF this] assms(1,3) show False by auto
  qed
qed

lemma marking_other: "i \<noteq> (d, cp_job c) \<Longrightarrow> marking d c db i = None"
  using marking_Some by (metis not_None_eq)

lemma leased_not_releasing: "job_row_at db i = Some r \<Longrightarrow> jb_state r = state_name Leased \<Longrightarrow> releasing d c db i = None"
  using releasing_Some by (metis job_state.distinct(5) option.inject state_name_inj)

lemma job_row_at_committed:
  assumes "keyed w"
  shows "job_row_at (committed d c w db) i = map_option (\<lambda>r. case w i of None \<Rightarrow> r | Some r' \<Rightarrow> r') (job_row_at db i)"
  unfolding committed_def by (simp add: job_row_at_overlay [OF assms])

lemma keyed_session_writes [simp]: "keyed (marking d c db)" "keyed (releasing d c db)"
  by (simp_all add: marking_def releasing_def)

text \<open>
  Both sessions mark their job, then both look for children to release, then both commit. No row
  is written by both, so nobody waits.
\<close>

lemma race_schedule:
  assumes inv: "db_inv db" and a: "ra \<in> set (db_jobs db)" "call_held d a ra" and b: "rb \<in> set (db_jobs db)" "call_held d b rb"
    and ok: "completion_ok d a" "completion_ok d b" and ne: "cp_job a \<noteq> cp_job b"
    and free: "\<And>i. releasing d a db i = None \<or> releasing d b db i = None"
  shows "(race_step d)\<^sup>*\<^sup>* (db, begin_session a, begin_session b)
    (committed d b (marking d b db ++ releasing d b db) (committed d a (marking d a db ++ releasing d a db) db),
     session_at a Committed Map.empty, session_at b Committed Map.empty)"
proof -
  let ?A0 = "session_at a Begun Map.empty" and ?B0 = "session_at b Begun Map.empty"
  let ?A1 = "session_at a Marked (marking d a db)" and ?B1 = "session_at b Marked (marking d b db)"
  let ?wA = "marking d a db ++ releasing d a db" and ?wB = "marking d b db ++ releasing d b db"
  let ?A2 = "session_at a Released ?wA" and ?B2 = "session_at b Released ?wB"
  let ?A3 = "session_at a Committed Map.empty" and ?B3 = "session_at b Committed Map.empty"
  have marks: "marking d a db i = None \<or> marking d b db i = None" for i
  proof (cases "i = (d, cp_job a)")
    case True
    with ne have "i \<noteq> (d, cp_job b)" by simp
    from marking_other [OF this] show ?thesis ..
  next
    case False
    from marking_other [OF this] show ?thesis ..
  qed
  have cross: "releasing d c db i = None \<or> marking d c' db i = None" for c c' i
  proof (cases "marking d c' db i")
    case (Some r')
    with marking_Some [OF this] leased_not_releasing [of db i] show ?thesis by auto
  qed simp
  have dd: "dom w \<inter> dom w' = {}" if "\<And>i. w i = None \<or> w' i = None" for w w' :: row_versions
  proof (rule ccontr)
    assume "dom w \<inter> dom w' \<noteq> {}"
    then obtain i where "w i \<noteq> None" "w' i \<noteq> None" by blast
    with that [of i] show False by blast
  qed
  have disj: "dom (marking d b db) \<inter> dom (marking d a db) = {}" "dom (releasing d a db) \<inter> dom (marking d b db) = {}"
    "dom (releasing d b db) \<inter> dom ?wA = {}"
  proof -
    show "dom (marking d b db) \<inter> dom (marking d a db) = {}" by (rule dd) (subst disj_commute, rule marks)
    show "dom (releasing d a db) \<inter> dom (marking d b db) = {}" by (rule dd) (rule cross)
    have "dom (releasing d b db) \<inter> dom (marking d a db) = {}" by (rule dd) (rule cross)
    moreover have "dom (releasing d b db) \<inter> dom (releasing d a db) = {}" by (rule dd) (subst disj_commute, rule free)
    ultimately show "dom (releasing d b db) \<inter> dom ?wA = {}" by (simp add: dom_map_add Int_Un_distrib)
  qed
  have 1: "race_step d (db, ?A0, ?B0) (db, ?A1, ?B0)"
    by (rule race_left, rule session_marks [OF inv ok(1)]) (use a in auto)
  have 2: "race_step d (db, ?A1, ?B0) (db, ?A1, ?B1)"
    by (rule race_right, rule session_marks [OF inv ok(2)]) (use b disj(1) in auto)
  have 3: "race_step d (db, ?A1, ?B1) (db, ?A2, ?B1)"
    by (rule race_left, rule session_releases) (use disj(2) in auto)
  have 4: "race_step d (db, ?A2, ?B1) (db, ?A2, ?B2)"
    by (rule race_right, rule session_releases) (use disj(3) in auto)
  have 5: "race_step d (db, ?A2, ?B2) (committed d a ?wA db, ?A3, ?B2)"
    by (rule race_left, rule session_commits)
  have 6: "race_step d (committed d a ?wA db, ?A3, ?B2) (committed d b ?wB (committed d a ?wA db), ?A3, ?B3)"
    by (rule race_right, rule session_commits)
  show ?thesis unfolding begin_session_at
    by (rule converse_rtranclp_into_rtranclp [of "race_step d", OF 1] converse_rtranclp_into_rtranclp [of "race_step d", OF 2]
        converse_rtranclp_into_rtranclp [of "race_step d", OF 3] converse_rtranclp_into_rtranclp [of "race_step d", OF 4]
        converse_rtranclp_into_rtranclp [of "race_step d", OF 5] r_into_rtranclp [of "race_step d", OF 6])+
qed

section \<open>Stranded children\<close>

definition stranded :: "byte_string \<Rightarrow> byte_string \<Rightarrow> database \<Rightarrow> bool" where
  "stranded d c db \<longleftrightarrow> tables_ok db \<and> (\<exists>row. job_row_at db (d, c) = Some row \<and>
     (jb_state row = state_name Cancelled \<or>
      jb_state row = state_name Pending \<and> (\<forall>q\<in>row_needs db (d, c). row_status db q = Some Succeeded)))"

lemma step_status_terminal:
  assumes "tables_ok db" "store_step ck show_uuid db e x db'" "row_status db i = Some st" "is_terminal st"
  shows "row_status db' i = Some st"
proof -
  from assms(3) obtain r where r: "job_row_at db i = Some r" "jb_state r = state_name st" by (auto simp: row_status_iff)
  from step_row_evolves [OF assms(1,2) r(1)] obtain r' where r': "job_row_at db' i = Some r'" "row_steps (event_tokens e) r r'" by blast
  have "terminal_name (jb_state r)" using r(2) assms(4) by (cases st) (simp_all add: terminal_name_def)
  with row_steps_finished [OF r'(2)] r r' show ?thesis by (auto simp: row_status_iff)
qed

lemma stranded_step:
  assumes st: "stranded d c db" and step: "store_step ck show_uuid db e x db'"
  shows "stranded d c db'"
proof -
  from st obtain row where tables: "tables_ok db" and row: "job_row_at db (d, c) = Some row"
    and alt: "jb_state row = state_name Cancelled \<or>
      jb_state row = state_name Pending \<and> (\<forall>q\<in>row_needs db (d, c). row_status db q = Some Succeeded)"
    by (auto simp: stranded_def)
  have tables': "tables_ok db'" by (rule tables_ok_step [OF tables step])
  from alt show ?thesis
  proof
    assume "jb_state row = state_name Cancelled"
    with row have "row_status db (d, c) = Some Cancelled" by (simp add: row_status_iff)
    from step_status_terminal [OF tables step this] tables' show ?thesis by (auto simp: stranded_def row_status_iff)
  next
    assume pend: "jb_state row = state_name Pending \<and> (\<forall>q\<in>row_needs db (d, c). row_status db q = Some Succeeded)"
    have "row_needs db' (d, c) = row_needs db (d, c)"
      using step_edges [OF tables step job_row_at_dag [OF tables row]] by (simp add: row_needs_def)
    then have needs: "\<forall>q\<in>row_needs db' (d, c). row_status db' q = Some Succeeded"
      using pend step_status_terminal [OF tables step] by simp
    from step_pending_row [OF tables step row] pend consider "job_row_at db' (d, c) = Some row"
      | now where "job_row_at db' (d, c) = Some (cancel_row now row)"
      | p owner token now where "held d p owner token now db" "(d, p) \<in> row_needs db (d, c)" by blast
    then show ?thesis
    proof cases
      case 1
      with pend needs tables' show ?thesis by (auto simp: stranded_def)
    next
      case 2
      with tables' show ?thesis by (auto simp: stranded_def)
    next
      case 3
      from 3(1) obtain r where r: "r \<in> set (db_jobs db)" "held_row d p owner token now r" by (auto simp: held_def)
      then have "job_row_at db (d, p) = Some r" "jb_state r = state_name Leased"
        using job_row_at_iff [OF tables] held_key_state by blast+
      with pend 3(2) show ?thesis by (auto simp: row_status_iff)
    qed
  qed
qed

lemma stranded_runs: "store_runs ck show_uuid db db' \<Longrightarrow> stranded d c db \<Longrightarrow> stranded d c db'"
  by (induction rule: store_runs.induct) (auto intro: stranded_step)

lemma stranded_status: "stranded d c db \<Longrightarrow> row_status db (d, c) = Some Pending \<or> row_status db (d, c) = Some Cancelled"
  by (auto simp: stranded_def row_status_iff)

section \<open>The tables after the race\<close>

definition after_race :: "byte_string \<Rightarrow> completion \<Rightarrow> completion \<Rightarrow> database \<Rightarrow> database" where
  "after_race d a b db =
     committed d b (marking d b db ++ releasing d b db) (committed d a (marking d a db ++ releasing d a db) db)"

lemma held_call_row:
  assumes "db_inv db" "r \<in> set (db_jobs db)" "call_held d x r"
  shows "job_row_at db (d, cp_job x) = Some r" "jb_state r = state_name Leased" "marking d x db (d, cp_job x) \<noteq> None"
proof -
  have k: "job_key r = (d, cp_job x)" "jb_state r = state_name Leased"
    using assms(3) held_key_state by (auto simp: call_held_def)
  then show "job_row_at db (d, cp_job x) = Some r" using job_row_at_iff [OF db_inv_tables [OF assms(1)]] assms(2) by blast
  then show "jb_state r = state_name Leased" "marking d x db (d, cp_job x) \<noteq> None"
    using k assms(3) by (simp_all add: marking_def mark_writes_def written_def)
qed

text \<open>A session releases children of its own job only, and none that also waits for a leased job.\<close>

lemma releasing_edge:
  assumes "releasing d x db i \<noteq> None"
  shows "(d, cp_job x) \<in> row_needs db i"
proof -
  from assms obtain v where v: "job_row_at (overlay (marking d x db) db) i = Some v"
    "released_row d (cp_job x) (overlay (marking d x db) db) v"
    by (auto simp: releasing_def release_writes_def written_def split: option.splits if_splits)
  from v(2) obtain e where e: "e \<in> set (db_dependencies db)" "dp_dag_id e = jb_dag_id v" "dp_parent_id e = cp_job x"
    "dp_child_id e = jb_id v" "jb_dag_id v = d" by (auto simp: released_iff)
  then have "e = \<lparr>dp_dag_id = d, dp_parent_id = cp_job x, dp_child_id = jb_id v\<rparr>" by simp
  with e(1) job_row_at_mem [OF v(1)] e(5) show ?thesis by (auto simp: row_needs_def job_key_def)
qed

lemma releasing_waits:
  assumes inv: "db_inv db" and r: "r \<in> set (db_jobs db)" "call_held d y r"
    and "cp_job x \<noteq> cp_job y" "(d, cp_job y) \<in> row_needs db i"
  shows "releasing d x db i = None"
proof -
  obtain e where i: "i = (d, e)" using assms(5) by (cases i) (auto simp: row_needs_def)
  note row = held_call_row [OF inv r]
  show ?thesis unfolding i
    by (rule not_releasing [OF db_inv_tables [OF inv] assms(5) [unfolded i] row(1)]) (use row(2) assms(4) in auto)
qed

lemma releases_disjoint:
  assumes "db_inv db" "ra \<in> set (db_jobs db)" "call_held d a ra" "rb \<in> set (db_jobs db)" "call_held d b rb"
    and "cp_job a \<noteq> cp_job b"
  shows "releasing d a db i = None \<or> releasing d b db i = None"
  using releasing_edge [of d b db i] releasing_waits [OF assms(1,4,5,6), of i] by blast

lemma job_row_at_after_race:
  "job_row_at (after_race d a b db) i = map_option (\<lambda>r.
     case (marking d b db ++ releasing d b db) i of
       None \<Rightarrow> (case (marking d a db ++ releasing d a db) i of None \<Rightarrow> r | Some r' \<Rightarrow> r')
     | Some r' \<Rightarrow> r') (job_row_at db i)"
  unfolding after_race_def by (simp add: job_row_at_committed option.map_comp comp_def)

lemma after_race_unchanged:
  assumes "\<And>x. marking d x db i = None" "releasing d a db i = None" "releasing d b db i = None"
  shows "job_row_at (after_race d a b db) i = job_row_at db i"
  using assms by (simp add: job_row_at_after_race map_add_def option.map_ident)

lemma after_race_child:
  assumes inv: "db_inv db" and a: "ra \<in> set (db_jobs db)" "call_held d a ra" and b: "rb \<in> set (db_jobs db)" "call_held d b rb"
    and ne: "cp_job a \<noteq> cp_job b" and row: "job_row_at db i = Some row" "jb_state row = state_name Pending"
    and needs: "(d, cp_job a) \<in> row_needs db i" "(d, cp_job b) \<in> row_needs db i"
  shows "job_row_at (after_race d a b db) i = Some row"
proof -
  have "marking d x db i = None" for x
  proof (rule ccontr)
    assume "marking d x db i \<noteq> None"
    then obtain r' where "marking d x db i = Some r'" by blast
    from marking_Some [OF this] row show False by auto
  qed
  moreover have "releasing d a db i = None" "releasing d b db i = None"
    using releasing_waits [OF inv b ne needs(2)] releasing_waits [OF inv a ne [symmetric] needs(1)] .
  ultimately show ?thesis using row(1) by (simp add: after_race_unchanged)
qed

lemma after_race_parents:
  assumes inv: "db_inv db" and a: "ra \<in> set (db_jobs db)" "call_held d a ra" and b: "rb \<in> set (db_jobs db)" "call_held d b rb"
    and ne: "cp_job a \<noteq> cp_job b"
  shows "row_status (after_race d a b db) (d, cp_job a) = Some Succeeded"
    "row_status (after_race d a b db) (d, cp_job b) = Some Succeeded"
proof -
  note ra = held_call_row [OF inv a] and rb = held_call_row [OF inv b]
  obtain ma mb where m: "marking d a db (d, cp_job a) = Some ma" "marking d b db (d, cp_job b) = Some mb"
    using ra(3) rb(3) by blast
  have st: "jb_state ma = state_name Succeeded" "jb_state mb = state_name Succeeded"
    using marking_Some [OF m(1)] marking_Some [OF m(2)] by auto
  note quiet = leased_not_releasing [OF ra(1,2)] leased_not_releasing [OF rb(1,2)]
  have "marking d b db (d, cp_job a) = None" by (rule marking_other) (use ne in simp)
  then have "job_row_at (after_race d a b db) (d, cp_job a) = Some ma"
    using ra(1) quiet(1) m(1) by (simp add: job_row_at_after_race map_add_def)
  moreover have "job_row_at (after_race d a b db) (d, cp_job b) = Some mb"
    using rb(1) quiet(2) m(2) by (simp add: job_row_at_after_race map_add_def)
  ultimately show "row_status (after_race d a b db) (d, cp_job a) = Some Succeeded"
    "row_status (after_race d a b db) (d, cp_job b) = Some Succeeded" using st by (simp_all add: row_status_iff)
qed

lemma after_race_tables:
  assumes "tables_ok db"
  shows "tables_ok (after_race d a b db)" "row_needs (after_race d a b db) i = row_needs db i"
proof -
  have ev: "tables_ok (insert_event d j e owner now x) = tables_ok x" for j e owner now x
    by (simp add: insert_event_def tables_ok_def)
  show "tables_ok (after_race d a b db)"
    unfolding after_race_def committed_def ev by (intro tables_ok_overlay) (simp_all add: ev assms tables_ok_overlay)
  show "row_needs (after_race d a b db) i = row_needs db i"
    by (simp add: row_needs_def after_race_def committed_def insert_event_def)
qed

text \<open>After the race both jobs have succeeded, and their common child waits for a parent for ever.\<close>

lemma race_strands:
  assumes inv: "db_inv db" and a: "ra \<in> set (db_jobs db)" "call_held d a ra" and b: "rb \<in> set (db_jobs db)" "call_held d b rb"
    and ok: "completion_ok d a" "completion_ok d b" and ne: "cp_job a \<noteq> cp_job b"
    and child: "row_status db (d, c) = Some Pending" "(d, cp_job a) \<in> row_needs db (d, c)" "(d, cp_job b) \<in> row_needs db (d, c)"
    and others: "\<And>q. q \<in> row_needs db (d, c) \<Longrightarrow> q \<noteq> (d, cp_job a) \<Longrightarrow> q \<noteq> (d, cp_job b) \<Longrightarrow> row_status db q = Some Succeeded"
  defines "db' \<equiv> after_race d a b db"
  shows "(race_step d)\<^sup>*\<^sup>* (db, begin_session a, begin_session b) (db', session_at a Committed Map.empty, session_at b Committed Map.empty)"
    "row_status db' (d, cp_job a) = Some Succeeded" "row_status db' (d, cp_job b) = Some Succeeded"
    "row_status db' (d, c) = Some Pending" "stranded d c db'"
proof -
  note tables = after_race_tables [OF db_inv_tables [OF inv], of d a b, folded db'_def]
  show "(race_step d)\<^sup>*\<^sup>* (db, begin_session a, begin_session b)
      (db', session_at a Committed Map.empty, session_at b Committed Map.empty)"
    unfolding db'_def after_race_def by (rule race_schedule [OF inv a b ok ne releases_disjoint [OF inv a b ne]])
  show parents: "row_status db' (d, cp_job a) = Some Succeeded" "row_status db' (d, cp_job b) = Some Succeeded"
    unfolding db'_def by (rule after_race_parents [OF inv a b ne])+
  from child(1) obtain row where row: "job_row_at db (d, c) = Some row" "jb_state row = state_name Pending" by (auto simp: row_status_iff)
  have row': "job_row_at db' (d, c) = Some row"
    unfolding db'_def by (rule after_race_child [OF inv a b ne row child(2,3)])
  then show "row_status db' (d, c) = Some Pending" using row(2) by (simp add: row_status_iff)
  have "row_status db' q = Some Succeeded" if q: "q \<in> row_needs db' (d, c)" for q
  proof (cases "q = (d, cp_job a) \<or> q = (d, cp_job b)")
    case True
    with parents show ?thesis by blast
  next
    case False
    then have "row_status db q = Some Succeeded" using others [of q] q tables(2) by blast
    then obtain r where r: "job_row_at db q = Some r" "jb_state r = state_name Succeeded" by (auto simp: row_status_iff)
    from quiet_row [OF r(1)] r(2) have "marking d x db q = None" "releasing d x db q = None" for x by simp_all
    then have "job_row_at db' q = Some r" using r(1) by (simp add: db'_def after_race_unchanged)
    with r(2) show ?thesis by (simp add: row_status_iff)
  qed
  with row' row(2) tables(1) show "stranded d c db'" unfolding stranded_def by blast
qed

end
