(* ===== verification/StoreAnswers.thy ===== *)
theory StoreAnswers
  imports StoreRace EffectProperties
begin

text \<open>
  The answers of the store on tables that satisfy the invariant: the compare-and-set methods,
  the snapshot, and the enumeration of all graphs page by page.
\<close>

section \<open>Answers\<close>

lemma snapshot_row_reads:
  assumes "row_inv r"
  shows "\<exists>st. jb_state r = state_name st \<and> snapshot_row r = Inr
    \<lparr>sn_id = jb_id r, sn_state = st, sn_attempts = nat (jb_attempts r), sn_max_attempts = nat (jb_max_attempts r),
     sn_available_at_ms = unix_millis (timestamp_nanos (jb_available_at r)), sn_lease_owner = jb_lease_owner r,
     sn_lease_expires_at_ms = map_option (\<lambda>t. unix_millis (timestamp_nanos t)) (jb_lease_expires_at r),
     sn_result = jb_result r\<rparr>"
proof -
  have check: "job_row_check r" by (rule row_inv_check [OF assms])
  then have "jb_state r \<in> state_names" "0 \<le> jb_attempts r" "1 \<le> jb_max_attempts r" by (simp_all add: job_row_check_s)
  then obtain st where "jb_state r = state_name st" by (auto simp: state_names_def)
  with \<open>0 \<le> jb_attempts r\<close> \<open>1 \<le> jb_max_attempts r\<close> show ?thesis by (simp add: snapshot_row_def)
qed

definition snapshot_of_row :: "job_row \<Rightarrow> job_snapshot" where
  "snapshot_of_row r = projr (snapshot_row r)"

lemma snapshot_rows_read:
  assumes "\<And>r. r \<in> set rows \<Longrightarrow> row_inv r"
  shows "snapshot_rows rows = Inr (map snapshot_of_row rows)"
  using assms
proof (induction rows)
  case (Cons r rows)
  then obtain sn where "snapshot_row r = Inr sn" using snapshot_row_reads [of r] by auto
  with Cons show ?case by (simp add: snapshot_of_row_def)
qed simp

lemma store_snapshot_eq:
  assumes "db_inv db"
  shows "store_snapshot ck d db =
    (if \<not> pg_text d then Inl (Database InvalidText)
     else if d \<notin> dg_id ` set (db_dags db) then Inl NotFound
     else Inr \<lparr>dsn_id = d, dsn_jobs = map snapshot_of_row
       (sort_key (\<lambda>r. ck (jb_id r)) (filter (\<lambda>r. jb_dag_id r = d) (db_jobs db)))\<rparr>)"
proof -
  have "snapshot_rows (sort_key (\<lambda>r. ck (jb_id r)) (filter (\<lambda>r. jb_dag_id r = d) (db_jobs db))) =
      Inr (map snapshot_of_row (sort_key (\<lambda>r. ck (jb_id r)) (filter (\<lambda>r. jb_dag_id r = d) (db_jobs db))))"
    by (rule snapshot_rows_read) (use db_inv_row [OF assms] in auto)
  then show ?thesis by (simp add: store_snapshot_def)
qed

lemma claim_answers:
  assumes "db_inv db"
  shows "snd (store_claim ck show_uuid locked owner l token now db) = Inl InvalidConfiguration \<or>
    snd (store_claim ck show_uuid locked owner l token now db) = Inl (Database InvalidText) \<or>
    (\<exists>granted. snd (store_claim ck show_uuid locked owner l token now db) = Inr granted)"
proof -
  obtain db' r where c: "store_claim ck show_uuid locked owner l token now db = (db', r)" by fastforce
  from assms c show ?thesis by (cases rule: store_claim_cases) (simp_all add: c)
qed

lemma store_fail_eq:
  assumes "db_inv db"
  shows "\<exists>st. store_fail d j owner token now db =
    (if \<not> (pg_text d \<and> pg_text j \<and> pg_text owner) then (db, Inl (Database InvalidText))
     else if \<not> held d j owner token now db then (db, Inl StoreLeaseConflict)
     else (insert_event d j (state_name st) owner now (update_jobs (held_row d j owner token now) (requeue_row now) db), Inr st))
   \<and> (\<forall>r\<in>set (db_jobs db). held_row d j owner token now r \<longrightarrow>
        st = (if jb_max_attempts r \<le> jb_attempts r then DeadLettered else RetryWait))"
proof (cases "filter (held_row d j owner token now) (db_jobs db)")
  case Nil
  then have "\<not> held d j owner token now db" "\<forall>r\<in>set (db_jobs db). \<not> held_row d j owner token now r"
    by (simp_all add: held_def filter_empty_conv)
  with Nil show ?thesis by (simp add: store_fail_def transaction_def)
next
  case (Cons r rs)
  then have "r \<in> set (filter (held_row d j owner token now) (db_jobs db))" by simp
  then have r: "r \<in> set (db_jobs db)" "held_row d j owner token now r" by simp_all
  then have h: "held d j owner token now db" by (auto simp: held_def)
  let ?st = "if jb_max_attempts r \<le> jb_attempts r then DeadLettered else RetryWait"
  have "jb_state (requeue_row now r) = state_name ?st" by (simp add: requeue_row_s)
  then have "store_fail d j owner token now db =
    (if \<not> (pg_text d \<and> pg_text j \<and> pg_text owner) then (db, Inl (Database InvalidText))
     else (insert_event d j (state_name ?st) owner now (update_jobs (held_row d j owner token now) (requeue_row now) db), Inr ?st))"
    using Cons by (simp add: store_fail_def transaction_def)
  moreover have "r' = r" if "r' \<in> set (db_jobs db)" "held_row d j owner token now r'" for r'
    using db_inv_unique [OF assms that(1) r(1)] held_row_leased [OF that(2)] held_row_leased [OF r(2)] by simp
  ultimately show ?thesis using h by (intro exI [of _ ?st]) auto
qed

lemma heartbeat_eq_held:
  assumes "db_inv db"
  shows "store_heartbeat d j owner token l now db =
    (if validate_owner_and_lease owner l \<noteq> Inr () then (db, Inl InvalidConfiguration)
     else if \<not> (pg_text d \<and> pg_text j \<and> pg_text owner) then (db, Inl (Database InvalidText))
     else if \<not> held d j owner token now db then (db, Inl StoreLeaseConflict)
     else (update_jobs (held_row d j owner token now)
             (\<lambda>r. r\<lparr>jb_lease_expires_at := Some (now + l * millisecond), jb_updated_at := now\<rparr>) db, Inr ()))"
proof -
  have "update_jobs (held_row d j owner token now) f db = db" if "\<not> held d j owner token now db" for f
  proof -
    have "map (\<lambda>r. if held_row d j owner token now r then f r else r) (db_jobs db) = db_jobs db"
      by (rule map_idI) (use that in \<open>simp add: held_def\<close>)
    then show ?thesis by (simp add: update_jobs_def)
  qed
  then show ?thesis
    by (auto simp: store_heartbeat_def validate_owner_and_lease_def ensure_compare_and_set_def held_rows_unique [OF assms])
qed

section \<open>Claims\<close>

lemma parse_kind_Inr: "parse_kind v = Inr k \<longleftrightarrow> v = kind_name k"
proof
  show "parse_kind v = Inr k \<Longrightarrow> v = kind_name k"
    unfolding parse_kind_def by (auto simp: kind_name_def split: if_splits)
qed simp

lemma claimed_row_fields:
  assumes "claimed_row show_uuid token (lease_row owner token l now r) = Inr cj"
  shows "cj_dag_id cj = jb_dag_id r \<and> cj_job_id cj = jb_id r \<and> jb_kind r = kind_name (cj_kind cj) \<and>
    cj_payload cj = jb_payload r \<and> int (cj_attempt cj) = jb_attempts r + 1 \<and> cj_lease_token cj = show_uuid token \<and>
    cj_lease_expires_at_ms cj = unix_millis (timestamp_nanos (now + l * millisecond))"
  using assms unfolding claimed_row_def by (auto simp: lease_row_def parse_kind_Inr split: sum.splits if_splits)

lemma reap_events [simp]: "db_events (fst (reap_in_transaction now db)) = db_events db"
  by (simp add: reap_in_transaction_def)

lemma eligible_parents:
  assumes inv: "db_inv db" and r: "r \<in> set (eligible_rows locked now db)" and p: "p \<in> row_needs db (job_key r)"
  shows "row_status db p = Some Succeeded"
proof -
  note row = eligible_row [OF r]
  have at: "job_row_at db (job_key r) = Some r" using job_row_at_iff [OF db_inv_tables [OF inv]] row(1) by simp
  from candidate_state [OF row(2)] obtain st where "jb_state r = state_name st" "st = Ready \<or> st = RetryWait" by blast
  with at have "row_status db (job_key r) = Some st" "st \<noteq> Pending" "st \<noteq> Cancelled" by (auto simp: row_status_iff)
  from store_board.needs_met [OF inv this p] show ?thesis .
qed

text \<open>The row that a claim leases, and nothing else.\<close>

lemma map_same_key:
  assumes inv: "db_inv db" and c: "c \<in> set (db_jobs db)"
  shows "db_jobs (update_jobs (same_key c) f db) = map (\<lambda>r. if r = c then f r else r) (db_jobs db)"
proof -
  have "same_key c r \<longleftrightarrow> r = c" if "r \<in> set (db_jobs db)" for r
    using db_inv_unique [OF inv that c] by (auto simp: job_key_def)
  then show ?thesis by simp
qed

section \<open>Completions\<close>

lemma needs_edge:
  "(d, j) \<in> row_needs db (d, x) \<longleftrightarrow>
    (\<exists>e\<in>set (db_dependencies db). dp_dag_id e = d \<and> dp_parent_id e = j \<and> dp_child_id e = x)"
proof
  assume "\<exists>e\<in>set (db_dependencies db). dp_dag_id e = d \<and> dp_parent_id e = j \<and> dp_child_id e = x"
  then obtain e where "e \<in> set (db_dependencies db)" "dp_dag_id e = d" "dp_parent_id e = j" "dp_child_id e = x" by blast
  moreover from this have "e = \<lparr>dp_dag_id = d, dp_parent_id = j, dp_child_id = x\<rparr>" by simp
  ultimately show "(d, j) \<in> row_needs db (d, x)" by (simp add: row_needs_def)
qed (force simp: row_needs_def)

lemma needs_row:
  assumes "tables_ok db" "p \<in> row_needs db i"
  shows "\<exists>r. job_row_at db p = Some r"
proof -
  from assms(2) obtain d j q where "i = (d, j)" "p = (d, q)"
    "\<lparr>dp_dag_id = d, dp_parent_id = q, dp_child_id = j\<rparr> \<in> set (db_dependencies db)"
    by (cases i) (auto simp: row_needs_def)
  with assms(1) have "p \<in> job_key ` set (db_jobs db)" by (force simp: tables_ok_def)
  then show ?thesis by (metis job_row_at_None not_None_eq)
qed

lemma blocked_iff:
  assumes "tables_ok db"
  shows "blocked db d x \<longleftrightarrow> (\<exists>p\<in>row_needs db (d, x). row_status db p \<noteq> Some Succeeded)"
proof
  assume "blocked db d x"
  then obtain p r where p: "\<lparr>dp_dag_id = d, dp_parent_id = p, dp_child_id = x\<rparr> \<in> set (db_dependencies db)"
    "r \<in> set (db_jobs db)" "job_key r = (d, p)" "jb_state r \<noteq> state_name Succeeded" unfolding blocked_def by blast
  with row_status_Succeeded [OF assms p(2,3)] show "\<exists>p\<in>row_needs db (d, x). row_status db p \<noteq> Some Succeeded"
    by (intro bexI [of _ "(d, p)"]) (auto simp: row_needs_def)
next
  assume "\<exists>p\<in>row_needs db (d, x). row_status db p \<noteq> Some Succeeded"
  then obtain p where p: "p \<in> row_needs db (d, x)" "row_status db p \<noteq> Some Succeeded" by blast
  from needs_row [OF assms p(1)] obtain r where r: "job_row_at db p = Some r" by blast
  from job_row_at_mem [OF r] have mem: "r \<in> set (db_jobs db)" "job_key r = p" by simp_all
  from p(1) obtain q where q: "p = (d, q)" "\<lparr>dp_dag_id = d, dp_parent_id = q, dp_child_id = x\<rparr> \<in> set (db_dependencies db)"
    by (auto simp: row_needs_def)
  with mem p(2) row_status_Succeeded [OF assms mem] show "blocked db d x" unfolding blocked_def by blast
qed

lemma row_needs_marked [simp]: "row_needs (marked d j owner token result now db) i = row_needs db i"
  by (simp add: row_needs_def marked_def)

lemma row_status_marked:
  assumes "c \<in> set (db_jobs db)" "held_row d j owner token now c" "tables_ok db"
  shows "row_status (marked d j owner token result now db) p = (if p = (d, j) then Some Succeeded else row_status db p)"
proof -
  let ?m = "marked d j owner token result now db"
  have at: "job_row_at ?m p = map_option (\<lambda>r. if held_row d j owner token now r then succeed_row result now r else r) (job_row_at db p)"
    unfolding marked_def by (rule job_row_at_update) simp
  show ?thesis
  proof (cases "p = (d, j)")
    case True
    have "job_row_at db p = Some c" using assms held_row_leased True job_row_at_iff by blast
    then have "job_row_at ?m p = Some (succeed_row result now c)" using at assms(2) by simp
    with True show ?thesis by (simp add: row_status_iff)
  next
    case False
    then have "\<not> held_row d j owner token now r" if "job_row_at db p = Some r" for r
      using job_row_at_mem [OF that] held_row_leased by metis
    then have "job_row_at ?m p = job_row_at db p" using at by (cases "job_row_at db p") simp_all
    with False show ?thesis by (simp add: row_status_def)
  qed
qed

lemma filter_unique_key: "distinct (map f xs) \<Longrightarrow> x \<in> set xs \<Longrightarrow> filter (\<lambda>y. f y = f x) xs = [x]"
proof (induction xs)
  case (Cons y ys)
  then have no: "f y \<noteq> f z" if "z \<in> set ys" for z using that by (metis distinct.simps(2) image_eqI list.simps(9) set_map)
  show ?case
  proof (cases "y = x")
    case True
    have "filter (\<lambda>z. f z = f x) ys = []" unfolding filter_empty_conv using no True by metis
    with True show ?thesis by simp
  next
    case False
    then have "x \<in> set ys" using Cons.prems(2) by simp
    with no [OF this] Cons.IH Cons.prems(1) show ?thesis by simp
  qed
qed simp

text \<open>A completed row and the rows it releases, described on the tables before the call.\<close>

definition completed_rows :: "byte_string \<Rightarrow> byte_string \<Rightarrow> byte_string \<Rightarrow> timestamp \<Rightarrow> database \<Rightarrow> job_row list" where
  "completed_rows d j result now db = map (\<lambda>r.
     if job_key r = (d, j) then succeed_row result now r
     else if jb_dag_id r = d \<and> jb_state r = ''pending'' \<and> (d, j) \<in> row_needs db (job_key r) \<and>
       (\<forall>p\<in>row_needs db (job_key r). p = (d, j) \<or> row_status db p = Some Succeeded) then release_row now r
     else r) (db_jobs db)"

lemma succeeded_row_mem:
  "c \<in> set (db_jobs db) \<Longrightarrow> job_key c = (d, j) \<Longrightarrow> succeed_row result now c \<in> set (completed_rows d j result now db)"
  unfolding completed_rows_def set_map by (rule image_eqI [where x = c]) simp_all

lemma completed_tables:
  assumes inv: "db_inv db" and c: "c \<in> set (db_jobs db)" "held_row d j owner token now c"
  shows "db_jobs (release_statement d j now (marked d j owner token result now db)) = completed_rows d j result now db"
proof -
  let ?m = "marked d j owner token result now db"
  have tables: "tables_ok ?m" unfolding marked_def by (rule tables_ok_update [OF db_inv_tables [OF inv]]) simp
  have held: "held_row d j owner token now r \<longleftrightarrow> job_key r = (d, j)" if "r \<in> set (db_jobs db)" for r
    using db_inv_unique [OF inv that c(1)] held_row_leased c(2) by metis
  have blocked: "blocked ?m d x \<longleftrightarrow> (\<exists>p\<in>row_needs db (d, x). p \<noteq> (d, j) \<and> row_status db p \<noteq> Some Succeeded)" for x
    unfolding blocked_iff [OF tables] row_needs_marked row_status_marked [OF c db_inv_tables [OF inv]] by auto
  have edge: "(\<exists>e\<in>set (db_dependencies ?m). dp_dag_id e = d \<and> dp_parent_id e = j \<and> dp_child_id e = x) \<longleftrightarrow>
      (d, j) \<in> row_needs db (d, x)" for x
    by (simp add: needs_edge marked_def)
  have released: "released_row d j ?m r \<longleftrightarrow> jb_dag_id r = d \<and> jb_state r = ''pending'' \<and> (d, j) \<in> row_needs db (job_key r) \<and>
       (\<forall>p\<in>row_needs db (job_key r). p = (d, j) \<or> row_status db p = Some Succeeded)" for r
  proof (cases "jb_dag_id r = d")
    case True
    then have "job_key r = (d, jb_id r)" by (simp add: job_key_def)
    with True show ?thesis using edge [of "jb_id r"] blocked [of "jb_id r"]
      by (simp add: released_iff state_literals)
  qed (simp add: released_iff)
  have final: "\<not> released_row d j ?m (succeed_row result now r)" for r by (simp add: released_iff)
  let ?g = "\<lambda>r. if held_row d j owner token now r then succeed_row result now r else r"
  have "db_jobs (release_statement d j now ?m) = map (\<lambda>r. if released_row d j ?m (?g r) then release_row now (?g r) else ?g r) (db_jobs db)"
    by (simp add: release_statement_def) (simp add: marked_def)
  also have "\<dots> = completed_rows d j result now db"
    unfolding completed_rows_def
  proof (rule map_cong [OF refl])
    fix r assume r: "r \<in> set (db_jobs db)"
    show "(if released_row d j ?m (?g r) then release_row now (?g r) else ?g r) =
      (if job_key r = (d, j) then succeed_row result now r
       else if jb_dag_id r = d \<and> jb_state r = ''pending'' \<and> (d, j) \<in> row_needs db (job_key r) \<and>
         (\<forall>p\<in>row_needs db (job_key r). p = (d, j) \<or> row_status db p = Some Succeeded) then release_row now r
       else r)"
      unfolding held [OF r] released [of r, symmetric] using final by (cases "job_key r = (d, j)") simp_all
  qed
  finally show ?thesis .
qed

section \<open>Retries\<close>

lemma default_delay: "retry_delay default_config a = min 60000 (1000 * 2 ^ min (a - 1) 16)"
proof -
  have small: "is_i64 (1000 * x)" if "0 < x" "x \<le> 65536" for x :: int
    using that by (simp add: is_i64_def machine_constants)
  have "i64_saturating_mul 1000 (2 ^ min (a - 1) 16) = 1000 * 2 ^ min (a - 1) 16"
    unfolding i64_saturating_mul_def by (rule i64_clamp_id [OF small [OF _ pow2_i64]]) simp
  then show ?thesis by (simp add: retry_delay_def default_config_def Let_def min.commute)
qed

lemma backoff_agrees: "backoff_ms (int a) = retry_delay default_config a"
proof -
  have "nat (min 16 (max 0 (int a - 1))) = min (a - 1) 16" by (cases a) auto
  then show ?thesis by (simp add: backoff_ms_def default_delay)
qed

lemma default_retry_bounds:
  assumes "is_i64 t" "t + 72000 \<le> I64_MAX"
  shows "t + retry_delay default_config a \<le> retry_at default_config j a t \<and>
    retry_at default_config j a t \<le> t + retry_delay default_config a + retry_delay default_config a div 5"
proof -
  define delay where "delay = retry_delay default_config a"
  have d: "0 \<le> delay" "delay \<le> 60000" by (simp_all add: delay_def default_delay)
  have sdiv: "delay sdiv 5 = delay div 5" using d(1) by (cases "delay = 0") (simp_all add: signed_divide_int_def sgn_if)
  let ?jit = "deterministic_jitter j (delay div 5)"
  have jit: "0 \<le> ?jit" "?jit \<le> delay div 5"
    using jitter_bounds [of j "delay div 5"] d(1) by (cases "0 < delay div 5"; simp)+
  have "retry_at default_config j a t = min I64_MAX (t + delay + ?jit)"
    unfolding retry_at_def Let_def delay_def [symmetric] sdiv by (rule i64_saturating_add_assoc_nonneg [OF assms(1) d(1) jit(1)])
  moreover have "t + delay + ?jit \<le> I64_MAX" using d jit assms(2) by linarith
  ultimately show ?thesis using jit by (simp add: delay_def)
qed

section \<open>Histories of a row\<close>

lemma store_runs_row:
  assumes "store_runs ck show_uuid db db'" "tables_ok db" "job_row_at db i = Some r"
  shows "tables_ok db' \<and> (\<exists>r'. job_row_at db' i = Some r' \<and> row_steps UNIV r r')"
  using assms
proof (induction rule: store_runs.induct)
  case (store_runs_step db db' e x db'')
  then obtain r' where tables: "tables_ok db'" and r': "job_row_at db' i = Some r'" "row_steps UNIV r r'" by blast
  from step_row_evolves [OF tables store_runs_step(2) r'(1)] obtain r'' where
    "job_row_at db'' i = Some r''" "row_steps (event_tokens e) r' r''" by blast
  with r'(2) row_steps_mono [of "event_tokens e" r' r'' UNIV] tables_ok_step [OF tables store_runs_step(2)] show ?case
    by (metis rtranclp_trans subset_UNIV)
qed auto

lemma row_steps_frame:
  assumes "row_steps T r r'"
  shows "jb_kind r' = jb_kind r \<and> jb_payload r' = jb_payload r \<and> jb_max_attempts r' = jb_max_attempts r \<and>
    jb_priority r' = jb_priority r \<and> jb_attempts r \<le> jb_attempts r'"
  using assms
proof (induction rule: rtranclp_induct)
  case (step r' r'')
  with row_step_frame [OF step.hyps(2)] show ?case by (metis order_trans)
qed simp

lemma payload_ok_step:
  assumes tables: "tables_ok db" and step: "store_step ck show_uuid db e x db'"
    and ok: "\<forall>r\<in>set (db_jobs db). payload_ok r"
  shows "\<forall>r\<in>set (db_jobs db'). payload_ok r"
  using store_step_effect [OF tables step]
proof
  assume "rows_rewritten (event_tokens e) db db'"
  then obtain g where g: "db_jobs db' = map g (db_jobs db)" "\<forall>r\<in>set (db_jobs db). row_steps (event_tokens e) r (g r)"
    unfolding rows_rewritten_def by blast
  have "payload_ok (g r)" if "r \<in> set (db_jobs db)" for r
  proof -
    have "jb_kind (g r) = jb_kind r \<and> jb_payload (g r) = jb_payload r"
      using row_steps_frame [of "event_tokens e" r "g r"] g(2) that by blast
    with ok that show ?thesis by (simp add: payload_ok_def)
  qed
  with g(1) show ?thesis by simp
next
  assume "graph_added db db' \<and> tables_ok db'"
  then obtain rows where "db_jobs db' = db_jobs db @ rows" "\<forall>r\<in>set rows. payload_ok r"
    unfolding graph_added_def by blast
  with ok show ?thesis by auto
qed

lemma payload_ok_reachable:
  assumes "store_reachable ck show_uuid db"
  shows "\<forall>r\<in>set (db_jobs db). payload_ok r"
proof -
  have "store_runs ck show_uuid db0 db \<Longrightarrow> db_inv db0 \<Longrightarrow> \<forall>r\<in>set (db_jobs db0). payload_ok r \<Longrightarrow>
      \<forall>r\<in>set (db_jobs db). payload_ok r" for db0 db
  proof (induction rule: store_runs.induct)
    case (store_runs_step db db' e r db'')
    show ?case
      by (rule payload_ok_step [OF db_inv_tables [OF db_inv_runs [OF store_runs_step(1) store_runs_step(4)]] store_runs_step(2)])
        (rule store_runs_step(3) [OF store_runs_step(4,5)])
  qed simp
  from this [OF assms [unfolded store_reachable_def] db_inv_empty] show ?thesis by (simp add: empty_database_def)
qed

section \<open>Pages\<close>

lemma insort_key_of_map: "insort_key f (g x) (map g xs) = map g (insort_key (\<lambda>y. f (g y)) x xs)"
  by (induction xs) simp_all

lemma sort_key_of_map: "sort_key f (map g xs) = map g (sort_key (\<lambda>x. f (g x)) xs)"
  by (induction xs) (simp_all add: insort_key_of_map)

text \<open>A client that asks for the next page after the last identifier it saw, until a page is empty.\<close>

fun list_pages :: "(byte_string \<Rightarrow> byte_string) \<Rightarrow> nat \<Rightarrow> database \<Rightarrow> nat \<Rightarrow> byte_string option \<Rightarrow> byte_string list" where
  "list_pages ck limit db 0 after = []"
| "list_pages ck limit db (Suc n) after =
     (case store_list_dags ck after limit db of
        Inl e \<Rightarrow> []
      | Inr [] \<Rightarrow> []
      | Inr page \<Rightarrow> page @ list_pages ck limit db n (Some (last page)))"

lemma strictly_sorted_key:
  assumes "distinct xs" "inj_on f (set xs)"
  shows "sorted_wrt (\<lambda>x y. f x < f y) (sort_key f xs)"
proof -
  have "distinct (map f (sort_key f xs))" using assms by (simp add: distinct_map)
  then have "sorted_wrt (<) (map f (sort_key f xs))" by (simp add: strict_sorted_iff)
  then show ?thesis by (simp add: sorted_wrt_map)
qed

lemma after_cursor:
  fixes f :: "'a \<Rightarrow> 'b::linorder"
  assumes "sorted_wrt (\<lambda>x y. f x < f y) (pre @ post)" "pre \<noteq> []"
  shows "filter (\<lambda>i. f (last pre) < f i) (pre @ post) = post"
proof -
  have all: "f x < f y" if "x \<in> set pre" "y \<in> set post" for x y
    using assms(1) that by (simp add: sorted_wrt_append)
  have "f x \<le> f (last pre)" if "x \<in> set pre" for x
  proof -
    have "sorted_wrt (\<lambda>x y. f x < f y) (butlast pre @ [last pre])" using assms by (simp add: sorted_wrt_append)
    moreover have "x \<in> set (butlast pre) \<or> x = last pre"
      using that assms(2) append_butlast_last_id [of pre] by (metis Un_iff empty_iff insert_iff list.set set_append)
    ultimately show ?thesis by (auto simp: sorted_wrt_append)
  qed
  then have "filter (\<lambda>i. f (last pre) < f i) pre = []" by (simp add: filter_empty_conv linorder_not_less)
  moreover have "filter (\<lambda>i. f (last pre) < f i) post = post" using all assms(2) by (simp add: filter_id_conv)
  ultimately show ?thesis by simp
qed

lemma list_dags_eq:
  assumes "1 \<le> limit" "limit \<le> 100" "pg_text a"
  shows "store_list_dags ck (Some a) limit db =
    Inr (take limit (filter (\<lambda>i. ck a < ck i) (sort_key ck (map dg_id (db_dags db)))))"
  using assms by (simp add: store_list_dags_def filter_sort)

lemma list_pages_after:
  assumes limit: "1 \<le> limit" "limit \<le> 100"
    and sorted: "sorted_wrt (\<lambda>x y. ck x < ck y) (sort_key ck (map dg_id (db_dags db)))"
    and encodable: "\<And>i. i \<in> dg_id ` set (db_dags db) \<Longrightarrow> pg_text i"
  shows "sort_key ck (map dg_id (db_dags db)) = pre @ post \<Longrightarrow> pre \<noteq> [] \<Longrightarrow> length post < n \<Longrightarrow>
    list_pages ck limit db n (Some (last pre)) = post"
proof (induction n arbitrary: pre post)
  case (Suc n)
  let ?L = "sort_key ck (map dg_id (db_dags db))"
  have "last pre \<in> set ?L" using Suc.prems(1,2) by simp
  then have "pg_text (last pre)" using encodable by simp
  from list_dags_eq [OF limit this] have page: "store_list_dags ck (Some (last pre)) limit db = Inr (take limit post)"
    using after_cursor [of ck pre post] sorted Suc.prems(1,2) by simp
  show ?case
  proof (cases post)
    case Nil
    with page show ?thesis by simp
  next
    case (Cons x xs)
    have ne: "take limit post \<noteq> []" using Cons limit(1) by simp
    have "list_pages ck limit db n (Some (last (pre @ take limit post))) = drop limit post"
      by (rule Suc.IH) (use Suc.prems Cons limit(1) in auto)
    moreover have "last (pre @ take limit post) = last (take limit post)" using ne by simp
    ultimately have "take limit post @ list_pages ck limit db n (Some (last (take limit post))) = post" by simp
    then show ?thesis using page ne by (cases "take limit post") auto
  qed
qed simp

lemma dag_ids_reachable:
  assumes "store_reachable ck show_uuid db"
  shows "\<forall>d\<in>dg_id ` set (db_dags db). identifier_check d"
proof -
  have "store_runs ck show_uuid db0 db \<Longrightarrow> db_inv db0 \<Longrightarrow> \<forall>d\<in>dg_id ` set (db_dags db0). identifier_check d \<Longrightarrow>
      \<forall>d\<in>dg_id ` set (db_dags db). identifier_check d" for db0 db
  proof (induction rule: store_runs.induct)
    case (store_runs_step db db' e r db'')
    show ?case
      by (rule dag_ids_step [OF db_inv_tables [OF db_inv_runs [OF store_runs_step(1) store_runs_step(4)]] store_runs_step(2)])
        (rule store_runs_step(3) [OF store_runs_step(4,5)])
  qed simp
  from this [OF assms [unfolded store_reachable_def] db_inv_empty] show ?thesis by (simp add: empty_database_def)
qed

lemma list_pages_all:
  assumes limit: "1 \<le> limit" "limit \<le> 100" and db: "store_reachable ck show_uuid db"
    and collation: "inj ck" "\<And>i. i \<noteq> [] \<Longrightarrow> ck [] < ck i" and fuel: "length (db_dags db) < n"
  shows "list_pages ck limit db n None = sort_key ck (map dg_id (db_dags db))"
proof -
  let ?L = "sort_key ck (map dg_id (db_dags db))"
  have ident: "identifier_check i" if "i \<in> dg_id ` set (db_dags db)" for i using dag_ids_reachable [OF db] that by blast
  have "distinct (map dg_id (db_dags db))" using db_inv_tables [OF db_inv_reachable [OF db]] by (simp add: tables_ok_def)
  then have sorted: "sorted_wrt (\<lambda>x y. ck x < ck y) ?L"
    by (intro strictly_sorted_key) (auto intro: inj_on_subset [OF collation(1)])
  have "filter (\<lambda>i. ck [] < ck i) ?L = ?L"
    unfolding filter_id_conv using ident collation(2) by (auto simp: identifier_check_def)
  then have page: "store_list_dags ck None limit db = Inr (take limit ?L)"
    using limit by (simp add: store_list_dags_def filter_sort pg_text_def)
  obtain m where n: "n = Suc m" using fuel by (cases n) auto
  show ?thesis
  proof (cases "?L = []")
    case True
    with page n show ?thesis by simp
  next
    case False
    then have ne: "take limit ?L \<noteq> []" using limit(1) by simp
    have "list_pages ck limit db m (Some (last (take limit ?L))) = drop limit ?L"
    proof (rule list_pages_after [OF limit sorted])
      show "pg_text i" if "i \<in> dg_id ` set (db_dags db)" for i using identifier_text [OF ident [OF that]] .
      show "length (drop limit ?L) < m" using fuel n limit(1) False by (cases "db_dags db") auto
    qed (use ne in simp_all)
    then have "take limit ?L @ list_pages ck limit db m (Some (last (take limit ?L))) = ?L" by simp
    then show ?thesis unfolding n using page ne by (cases "take limit ?L") auto
  qed
qed

end
