(* ===== verification/StoreExamples.thy ===== *)
theory StoreExamples
  imports StoreBoard SchedulerExamples
begin

text \<open>
  A concrete history of the store on which its properties are evaluated: the release graph is
  submitted, its first job claimed, then completed, failed or cancelled; and the diamond up to
  the point where both of its inner jobs are leased. Text sorts by its bytes.
\<close>

definition bytes :: "byte_string \<Rightarrow> byte_string" where
  "bytes s = s"

definition demo_uuid :: "uuid \<Rightarrow> byte_string" where
  "demo_uuid u = ''uuid''"

definition unlocked :: "byte_string \<times> byte_string \<Rightarrow> bool" where
  "unlocked i = False"

definition pg_submitted :: database where
  "pg_submitted = fst (the (store_submit release_demo 1000000 empty_database))"

definition pg_claimed :: database where
  "pg_claimed = fst (store_claim bytes demo_uuid unlocked worker 5000 1 2000000 pg_submitted)"

definition pg_completed :: database where
  "pg_completed = fst (store_complete ''release_demo'' ''prepare'' worker 1 ''RELEASE CANDIDATE'' 3000000 pg_claimed)"

definition pg_failed :: database where
  "pg_failed = fst (store_fail ''release_demo'' ''prepare'' worker 1 3000000 pg_claimed)"

definition pg_cancelled :: database where
  "pg_cancelled = fst (store_cancel ''release_demo'' 3000000 pg_claimed)"

lemma submit_pg: "store_submit release_demo 1000000 empty_database = Some (pg_submitted, Inr ())"
  by code_simp

lemma claim_pg:
  "store_claim bytes demo_uuid unlocked worker 5000 1 2000000 pg_submitted =
     (pg_claimed, Inr (Some \<lparr>cj_dag_id = ''release_demo'', cj_job_id = ''prepare'', cj_kind = Uppercase,
       cj_payload = ''release candidate'', cj_attempt = 1, cj_lease_token = ''uuid'', cj_lease_expires_at_ms = 7000\<rparr>))"
  by code_simp

lemma complete_pg:
  "store_complete ''release_demo'' ''prepare'' worker 1 ''RELEASE CANDIDATE'' 3000000 pg_claimed = (pg_completed, Inr ())"
  by code_simp

lemma fail_pg:
  "store_fail ''release_demo'' ''prepare'' worker 1 3000000 pg_claimed = (pg_failed, Inr RetryWait)"
  by code_simp

lemma cancel_pg: "store_cancel ''release_demo'' 3000000 pg_claimed = (pg_cancelled, Inr 3)"
  by code_simp

section \<open>The diamond with both inner jobs leased\<close>

definition forked_1 :: database where
  "forked_1 = fst (the (store_submit diamond 1000000 empty_database))"

definition forked_2 :: database where
  "forked_2 = fst (store_claim bytes demo_uuid unlocked worker 60000 2 2000000 forked_1)"

definition forked_3 :: database where
  "forked_3 = fst (store_complete ''diamond'' ''a'' worker 2 ''SAFE'' 3000000 forked_2)"

definition forked_4 :: database where
  "forked_4 = fst (store_claim bytes demo_uuid unlocked worker 60000 3 4000000 forked_3)"

definition forked :: database where
  "forked = fst (store_claim bytes demo_uuid unlocked ''worker-2'' 60000 4 5000000 forked_4)"

lemma submit_forked: "store_submit diamond 1000000 empty_database = Some (forked_1, Inr ())"
  by code_simp

section \<open>The history\<close>

lemma store_step_result:
  "store_step ck sh db (DbClaim locked owner l token now)
     (db_reply_of DbGranted (snd (store_claim ck sh locked owner l token now db))) (fst (store_claim ck sh locked owner l token now db))"
  "store_step ck sh db (DbComplete d j owner token result now)
     (db_reply_of (\<lambda>_. DbDone) (snd (store_complete d j owner token result now db))) (fst (store_complete d j owner token result now db))"
  "store_step ck sh db (DbFail d j owner token now)
     (db_reply_of DbMoved (snd (store_fail d j owner token now db))) (fst (store_fail d j owner token now db))"
  "store_step ck sh db (DbCancel d now)
     (db_reply_of DbCounted (snd (store_cancel d now db))) (fst (store_cancel d now db))"
  "store_step ck sh db (DbHeartbeat d j owner token l now)
     (db_reply_of (\<lambda>_. DbDone) (snd (store_heartbeat d j owner token l now db))) (fst (store_heartbeat d j owner token l now db))"
  "store_step ck sh db (DbReap now) (DbCounted (snd (store_reap now db))) (fst (store_reap now db))"
  by (simp_all add: store_step.intros)

lemmas store_runs_one = store_runs_step [OF store_runs_refl]

lemma runs_pg_submitted: "store_runs bytes demo_uuid empty_database pg_submitted"
  by (rule store_runs_one [OF db_submit [OF submit_pg]])

lemma runs_pg_claimed: "store_runs bytes demo_uuid pg_submitted pg_claimed"
  by (rule store_runs_one [OF db_claim [OF claim_pg]])

lemma runs_pg_completed: "store_runs bytes demo_uuid pg_claimed pg_completed"
  by (rule store_runs_one [OF db_complete [OF complete_pg]])

lemma runs_pg_failed: "store_runs bytes demo_uuid pg_claimed pg_failed"
  by (rule store_runs_one [OF db_fail [OF fail_pg]])

lemma runs_pg_cancelled: "store_runs bytes demo_uuid pg_claimed pg_cancelled"
  by (rule store_runs_one [OF db_cancel [OF cancel_pg]])

lemma reachable_pg:
  "store_reachable bytes demo_uuid empty_database" "store_reachable bytes demo_uuid pg_submitted"
  "store_reachable bytes demo_uuid pg_claimed" "store_reachable bytes demo_uuid pg_completed"
  "store_reachable bytes demo_uuid pg_failed" "store_reachable bytes demo_uuid pg_cancelled"
  unfolding store_reachable_def
  by (blast intro: store_runs_refl runs_pg_submitted runs_pg_claimed runs_pg_completed runs_pg_failed
      runs_pg_cancelled store_runs_trans)+

lemma runs_forked_3: "store_runs bytes demo_uuid empty_database forked_3"
proof -
  have 1: "store_runs bytes demo_uuid empty_database forked_1" by (rule store_runs_one [OF db_submit [OF submit_forked]])
  have 2: "store_runs bytes demo_uuid empty_database forked_2"
    unfolding forked_2_def by (rule store_runs_step [OF 1 store_step_result(1)])
  show "store_runs bytes demo_uuid empty_database forked_3"
    unfolding forked_3_def by (rule store_runs_step [OF 2 store_step_result(2)])
qed

lemma reachable_forked: "store_reachable bytes demo_uuid forked"
  unfolding store_reachable_def
proof -
  have 4: "store_runs bytes demo_uuid empty_database forked_4"
    unfolding forked_4_def by (rule store_runs_step [OF runs_forked_3 store_step_result(1)])
  show "store_runs bytes demo_uuid empty_database forked"
    unfolding forked_def by (rule store_runs_step [OF 4 store_step_result(1)])
qed

lemma reachable_forked_3: "store_reachable bytes demo_uuid forked_3"
  unfolding store_reachable_def by (rule runs_forked_3)

lemma pg_status:
  "row_status pg_submitted (''release_demo'', ''prepare'') = Some Ready"
  "row_status pg_submitted (''release_demo'', ''digest'') = Some Pending"
  "row_status pg_claimed (''release_demo'', ''prepare'') = Some Leased"
  "row_status pg_completed (''release_demo'', ''prepare'') = Some Succeeded"
  "row_status pg_completed (''release_demo'', ''digest'') = Some Ready"
  "row_status pg_failed (''release_demo'', ''prepare'') = Some RetryWait"
  "row_status pg_cancelled (''release_demo'', ''prepare'') = Some Cancelled"
  by code_simp+

lemma pg_held:
  "held ''release_demo'' ''prepare'' worker 1 3000000 pg_claimed"
  "\<not> held ''release_demo'' ''prepare'' worker 1 3000000 pg_failed"
  "\<not> held ''release_demo'' ''prepare'' worker 1 3000000 pg_completed"
  by code_simp+

lemma fenced_pg:
  "(fenced_step bytes demo_uuid)\<^sup>*\<^sup>* (empty_database, {}) (pg_failed, {1})"
  "row_holder (pg_failed, {1}) (''release_demo'', ''prepare'') \<noteq> Some 1"
proof -
  have 1: "fenced_step bytes demo_uuid (empty_database, {}) (pg_submitted, {})"
    unfolding fenced_step_def using db_submit [OF submit_pg] by force
  have 2: "fenced_step bytes demo_uuid (pg_submitted, {}) (pg_claimed, {1})"
    unfolding fenced_step_def using db_claim [OF claim_pg] by force
  have 3: "fenced_step bytes demo_uuid (pg_claimed, {1}) (pg_failed, {1})"
    unfolding fenced_step_def using db_fail [OF fail_pg] by force
  show "(fenced_step bytes demo_uuid)\<^sup>*\<^sup>* (empty_database, {}) (pg_failed, {1})"
    using 1 2 3 by (meson rtranclp.rtrancl_into_rtrancl rtranclp.rtrancl_refl)
  have "map_option jb_lease_token (job_row_at pg_failed (''release_demo'', ''prepare'')) = Some None" by code_simp
  then show "row_holder (pg_failed, {1}) (''release_demo'', ''prepare'') \<noteq> Some 1" by (auto simp: row_holder_def)
qed

end
