(* ===== verification/ClaimRace.thy ===== *)
theory ClaimRace
  imports StoreAnswers StoreExamples
begin

text \<open>
  Any number of workers that claim at the same time, statement by statement at READ COMMITTED:
  each session reaps (an \<open>UPDATE\<close>, which waits for row locks), then takes a candidate (\<open>FOR UPDATE
  SKIP LOCKED\<close>, which passes over the rows that other sessions have locked), then commits. A
  session sees the committed tables and its own writes; the rows it wrote are locked until it
  commits. The attempt counter of a candidate is below its limit, so incrementing it never overflows.
  The calls are those whose arguments passed the check before the transaction. An \<open>UPDATE\<close> takes its
  row locks in one step here, so deadlocks between two of them, which PostgreSQL resolves by
  aborting one, do not occur. \<open>claim_run\<close> proves the invariant over all interleavings and
  \<open>claim_alone\<close> that a session on its own does what the method \<open>claim\<close> does.
\<close>

section \<open>Sessions\<close>

record claim_call =
  cl_owner :: byte_string
  cl_lease_ms :: int
  cl_token :: uuid
  cl_now :: timestamp

datatype claim_phase = Arrived | Reaped | Took "(byte_string \<times> byte_string) option" | Claimed "(byte_string \<times> byte_string) option"

record claim_session =
  cs_call :: claim_call
  cs_phase :: claim_phase
  cs_writes :: row_versions

definition begin_claim :: "claim_call \<Rightarrow> claim_session" where
  "begin_claim call = \<lparr>cs_call = call, cs_phase = Arrived, cs_writes = Map.empty\<rparr>"

definition locked_by_others :: "(nat \<Rightarrow> claim_session) \<Rightarrow> nat \<Rightarrow> (byte_string \<times> byte_string) set" where
  "locked_by_others S k = (\<Union>l\<in>UNIV - {k}. dom (cs_writes (S l)))"

definition reap_writes :: "timestamp \<Rightarrow> database \<Rightarrow> row_versions" where
  "reap_writes now view = written (expired_row now) (requeue_row now) view"

definition best_candidate ::
  "(byte_string \<Rightarrow> byte_string) \<Rightarrow> (byte_string \<times> byte_string) set \<Rightarrow> timestamp \<Rightarrow> database \<Rightarrow> job_row option" where
  "best_candidate ck locks now view =
     (case sort_key (claim_order ck) (eligible_rows (\<lambda>i. i \<in> locks) now view) of [] \<Rightarrow> None | r # _ \<Rightarrow> Some r)"

definition leased_by :: "claim_call \<Rightarrow> job_row \<Rightarrow> job_row" where
  "leased_by call = lease_row (cl_owner call) (cl_token call) (cl_lease_ms call) (cl_now call)"

inductive claim_step ::
  "(byte_string \<Rightarrow> byte_string) \<Rightarrow> nat \<Rightarrow> database \<times> (nat \<Rightarrow> claim_session) \<Rightarrow> database \<times> (nat \<Rightarrow> claim_session) \<Rightarrow> bool"
  for ck n where
  claim_reap: "k < n \<Longrightarrow> cs_phase (S k) = Arrived \<Longrightarrow> w = reap_writes (cl_now (cs_call (S k))) db \<Longrightarrow>
    dom w \<inter> locked_by_others S k = {} \<Longrightarrow>
    claim_step ck n (db, S) (db, S(k := (S k)\<lparr>cs_phase := Reaped, cs_writes := w\<rparr>))"
| claim_none: "k < n \<Longrightarrow> cs_phase (S k) = Reaped \<Longrightarrow>
    best_candidate ck (locked_by_others S k) (cl_now (cs_call (S k))) (overlay (cs_writes (S k)) db) = None \<Longrightarrow>
    claim_step ck n (db, S) (db, S(k := (S k)\<lparr>cs_phase := Took None\<rparr>))"
| claim_some: "k < n \<Longrightarrow> cs_phase (S k) = Reaped \<Longrightarrow>
    best_candidate ck (locked_by_others S k) (cl_now (cs_call (S k))) (overlay (cs_writes (S k)) db) = Some r \<Longrightarrow>
    claim_step ck n (db, S) (db, S(k := (S k)\<lparr>cs_phase := Took (Some (job_key r)),
      cs_writes := (cs_writes (S k))(job_key r \<mapsto> leased_by (cs_call (S k)) r)\<rparr>))"
| claim_commit: "k < n \<Longrightarrow> cs_phase (S k) = Took g \<Longrightarrow>
    claim_step ck n (db, S)
      ((overlay (cs_writes (S k)) db)\<lparr>db_events := db_events db @
         (case g of None \<Rightarrow> [] | Some i \<Rightarrow>
            [claimed_event (cl_owner (cs_call (S k))) (cl_now (cs_call (S k))) (the (cs_writes (S k) i))])\<rparr>,
       S(k := (S k)\<lparr>cs_phase := Claimed g, cs_writes := Map.empty\<rparr>))"

definition job_granted :: "claim_session \<Rightarrow> (byte_string \<times> byte_string) option" where
  "job_granted s = (case cs_phase s of Took g \<Rightarrow> g | Claimed g \<Rightarrow> g | _ \<Rightarrow> None)"

section \<open>The invariant\<close>

text \<open>The lease that a call writes.\<close>

definition lease_of :: "claim_call \<Rightarrow> job_row \<Rightarrow> bool" where
  "lease_of call r \<longleftrightarrow> jb_state r = state_name Leased \<and> jb_lease_owner r = Some (cl_owner call) \<and>
     jb_lease_token r = Some (cl_token call) \<and> jb_lease_expires_at r = Some (cl_now call + cl_lease_ms call * millisecond)"

definition claims_inv :: "nat \<Rightarrow> (nat \<Rightarrow> claim_call) \<Rightarrow> database \<Rightarrow> (nat \<Rightarrow> claim_session) \<Rightarrow> bool" where
  "claims_inv n calls db S \<longleftrightarrow>
     tables_ok db \<and>
     (\<forall>k. cs_call (S k) = calls k \<and> keyed (cs_writes (S k)) \<and> (n \<le> k \<longrightarrow> cs_phase (S k) = Arrived)) \<and>
     (\<forall>k. cs_phase (S k) = Arrived \<or> (\<exists>g. cs_phase (S k) = Claimed g) \<longrightarrow> cs_writes (S k) = Map.empty) \<and>
     (\<forall>k i. cs_writes (S k) i \<noteq> None \<longrightarrow> job_row_at db i \<noteq> None) \<and>
     (\<forall>k l i. k \<noteq> l \<longrightarrow> cs_writes (S k) i = None \<or> cs_writes (S l) i = None) \<and>
     (\<forall>k i. cs_phase (S k) = Took (Some i) \<longrightarrow> (\<exists>r. cs_writes (S k) i = Some r \<and> lease_of (calls k) r)) \<and>
     (\<forall>k i. cs_phase (S k) = Claimed (Some i) \<longrightarrow> (\<exists>r. job_row_at db i = Some r \<and> lease_of (calls k) r)) \<and>
     (\<forall>k l i. cs_phase (S k) = Claimed (Some i) \<longrightarrow> cs_writes (S l) i = None) \<and>
     (\<forall>k l i. k \<noteq> l \<longrightarrow> job_granted (S k) = Some i \<longrightarrow> job_granted (S l) \<noteq> Some i)"

lemma claims_invD:
  assumes "claims_inv n calls db S"
  shows "tables_ok db" "cs_call (S k) = calls k" "keyed (cs_writes (S k))" "n \<le> k \<Longrightarrow> cs_phase (S k) = Arrived"
    "cs_phase (S k) = Arrived \<Longrightarrow> cs_writes (S k) = Map.empty" "cs_phase (S k) = Claimed g \<Longrightarrow> cs_writes (S k) = Map.empty"
    "cs_writes (S k) i \<noteq> None \<Longrightarrow> job_row_at db i \<noteq> None"
    "k \<noteq> l \<Longrightarrow> cs_writes (S k) i = None \<or> cs_writes (S l) i = None"
    "cs_phase (S k) = Took (Some i) \<Longrightarrow> \<exists>r. cs_writes (S k) i = Some r \<and> lease_of (calls k) r"
    "cs_phase (S k) = Claimed (Some i) \<Longrightarrow> \<exists>r. job_row_at db i = Some r \<and> lease_of (calls k) r"
    "cs_phase (S k) = Claimed (Some i) \<Longrightarrow> cs_writes (S l) i = None"
    "k \<noteq> l \<Longrightarrow> job_granted (S k) = Some i \<Longrightarrow> job_granted (S l) \<noteq> Some i"
proof -
  note 1 = assms [unfolded claims_inv_def]
  note 2 = 1 [THEN conjunct2] and 3 = 1 [THEN conjunct2, THEN conjunct2]
  note 4 = 3 [THEN conjunct2] and 5 = 3 [THEN conjunct2, THEN conjunct2]
  note 6 = 5 [THEN conjunct2] and 7 = 5 [THEN conjunct2, THEN conjunct2]
  note 8 = 7 [THEN conjunct2] and 9 = 7 [THEN conjunct2, THEN conjunct2]
  show "tables_ok db" by (rule 1 [THEN conjunct1])
  show "cs_call (S k) = calls k" by (rule 2 [THEN conjunct1, rule_format, THEN conjunct1])
  show "keyed (cs_writes (S k))" by (rule 2 [THEN conjunct1, rule_format, THEN conjunct2, THEN conjunct1])
  show "n \<le> k \<Longrightarrow> cs_phase (S k) = Arrived" by (rule 2 [THEN conjunct1, rule_format, THEN conjunct2, THEN conjunct2, THEN mp])
  show "cs_phase (S k) = Arrived \<Longrightarrow> cs_writes (S k) = Map.empty" by (rule 3 [THEN conjunct1, rule_format, OF disjI1])
  show "cs_phase (S k) = Claimed g \<Longrightarrow> cs_writes (S k) = Map.empty" by (rule 3 [THEN conjunct1, rule_format, OF disjI2, OF exI])
  show "cs_writes (S k) i \<noteq> None \<Longrightarrow> job_row_at db i \<noteq> None" by (rule 4 [THEN conjunct1, rule_format])
  show "k \<noteq> l \<Longrightarrow> cs_writes (S k) i = None \<or> cs_writes (S l) i = None" by (rule 5 [THEN conjunct1, rule_format])
  show "cs_phase (S k) = Took (Some i) \<Longrightarrow> \<exists>r. cs_writes (S k) i = Some r \<and> lease_of (calls k) r"
    by (rule 6 [THEN conjunct1, rule_format])
  show "cs_phase (S k) = Claimed (Some i) \<Longrightarrow> \<exists>r. job_row_at db i = Some r \<and> lease_of (calls k) r"
    by (rule 7 [THEN conjunct1, rule_format])
  show "cs_phase (S k) = Claimed (Some i) \<Longrightarrow> cs_writes (S l) i = None" by (rule 8 [THEN conjunct1, rule_format])
  show "k \<noteq> l \<Longrightarrow> job_granted (S k) = Some i \<Longrightarrow> job_granted (S l) \<noteq> Some i" by (rule 9 [rule_format])
qed

text \<open>One session moves: what is left to show about its new phase and writes.\<close>

lemma claims_inv_move:
  assumes inv: "claims_inv n calls db S" and k: "k < n"
    and s: "cs_call s = calls k" "keyed (cs_writes s)" "cs_phase s \<noteq> Arrived" "\<And>g. cs_phase s \<noteq> Claimed g"
    and rows: "\<And>i. cs_writes s i \<noteq> None \<Longrightarrow> job_row_at db i \<noteq> None"
    and free: "\<And>l i. l \<noteq> k \<Longrightarrow> cs_writes s i = None \<or> cs_writes (S l) i = None"
    and took: "\<And>i. cs_phase s = Took (Some i) \<Longrightarrow> \<exists>r. cs_writes s i = Some r \<and> lease_of (calls k) r"
    and kept: "\<And>l i. l \<noteq> k \<Longrightarrow> cs_phase (S l) = Claimed (Some i) \<Longrightarrow> cs_writes s i = None"
    and new: "\<And>l i. l \<noteq> k \<Longrightarrow> job_granted s = Some i \<Longrightarrow> job_granted (S l) \<noteq> Some i"
  shows "claims_inv n calls db (S(k := s))"
  unfolding claims_inv_def
proof (intro conjI allI impI)
  note D = claims_invD [OF inv]
  fix l m i
  let ?S = "S(k := s)"
  show "tables_ok db" by (rule D(1))
  show "cs_call (?S l) = calls l" "keyed (cs_writes (?S l))" using D(2,3) s(1,2) by simp_all
  show "n \<le> l \<Longrightarrow> cs_phase (?S l) = Arrived" using D(4) [of l] k by simp
  show "cs_phase (?S l) = Arrived \<or> (\<exists>g. cs_phase (?S l) = Claimed g) \<Longrightarrow> cs_writes (?S l) = Map.empty"
    using D(5,6) [of l] s(3,4) by (cases "l = k") auto
  show "cs_writes (?S l) i \<noteq> None \<Longrightarrow> job_row_at db i \<noteq> None" using D(7) [of l i] rows [of i] by (cases "l = k") simp_all
  show "l \<noteq> m \<Longrightarrow> cs_writes (?S l) i = None \<or> cs_writes (?S m) i = None"
    using D(8) [of l m i] free [of l i] free [of m i] by (cases "l = k"; cases "m = k") auto
  show "cs_phase (?S l) = Took (Some i) \<Longrightarrow> \<exists>r. cs_writes (?S l) i = Some r \<and> lease_of (calls l) r"
    using D(9) [of l i] took [of i] by (cases "l = k") simp_all
  show "cs_phase (?S l) = Claimed (Some i) \<Longrightarrow> \<exists>r. job_row_at db i = Some r \<and> lease_of (calls l) r"
    using D(10) [of l i] s(4) by (cases "l = k") simp_all
  show "cs_phase (?S l) = Claimed (Some i) \<Longrightarrow> cs_writes (?S m) i = None"
    using D(11) [of l i m] s(4) kept [of l i] by (cases "l = k"; cases "m = k") simp_all
  show "l \<noteq> m \<Longrightarrow> job_granted (?S l) = Some i \<Longrightarrow> job_granted (?S m) \<noteq> Some i"
    using D(12) [of l m i] new [of l i] new [of m i] by (cases "l = k"; cases "m = k") auto
qed

text \<open>No lease of the run has expired when another claim of the run starts.\<close>

definition fresh_leases :: "(nat \<Rightarrow> claim_call) \<Rightarrow> nat \<Rightarrow> bool" where
  "fresh_leases calls n \<longleftrightarrow> (\<forall>k<n. \<forall>l<n. cl_now (calls l) < cl_now (calls k) + cl_lease_ms (calls k) * millisecond)"

lemma job_granted_simps [simp]:
  "cs_phase s = Arrived \<Longrightarrow> job_granted s = None" "cs_phase s = Reaped \<Longrightarrow> job_granted s = None"
  "cs_phase s = Took g \<Longrightarrow> job_granted s = g" "cs_phase s = Claimed g \<Longrightarrow> job_granted s = g"
  by (simp_all add: job_granted_def)

lemma lease_of_leased: "lease_of call (leased_by call r)"
  by (simp add: lease_of_def leased_by_def lease_row_s)

lemma leased_by_key [simp]: "job_key (leased_by call r) = job_key r"
  by (simp add: leased_by_def)

lemma best_candidate_Some:
  assumes "best_candidate ck locks now view = Some r"
  shows "r \<in> set (db_jobs view)" "candidate_row now view r" "job_key r \<notin> locks"
proof -
  from assms have "r \<in> set (sort_key (claim_order ck) (eligible_rows (\<lambda>i. i \<in> locks) now view))"
    by (auto simp: best_candidate_def split: list.splits dest: sort_key_head(2))
  then have r: "r \<in> set (eligible_rows (\<lambda>i. i \<in> locks) now view)" by simp
  from eligible_row [OF r] show "r \<in> set (db_jobs view)" "candidate_row now view r" "job_key r \<notin> locks" by simp_all
qed

lemma best_candidate_None:
  "best_candidate ck locks now view = None \<longleftrightarrow> eligible_rows (\<lambda>i. i \<in> locks) now view = []"
  by (auto simp: best_candidate_def sort_key_head split: list.splits)

lemma keyed_upd: "keyed w \<Longrightarrow> job_key r = i \<Longrightarrow> keyed (w(i \<mapsto> r))"
  by (simp add: keyed_def)

lemma overlay_keys: "keyed w \<Longrightarrow> map job_key (db_jobs (overlay w db)) = map job_key (db_jobs db)"
  by (simp add: overlay_def overlay_key)

lemma lease_of_not_expired:
  "lease_of call r \<Longrightarrow> now < cl_now call + cl_lease_ms call * millisecond \<Longrightarrow> \<not> expired_row now r"
  by (simp add: lease_of_def expired_row_s)

lemma begin_claims_inv:
  assumes "tables_ok db"
  shows "claims_inv n calls db (\<lambda>k. begin_claim (calls k))"
  using assms by (simp add: claims_inv_def begin_claim_def)

lemma not_locked: "i \<notin> locked_by_others S k \<Longrightarrow> l \<noteq> k \<Longrightarrow> cs_writes (S l) i = None"
  by (auto simp: locked_by_others_def)

lemma claims_inv_reap:
  assumes inv: "claims_inv n calls db S" and fresh: "fresh_leases calls n"
    and k: "k < n" "w = reap_writes (cl_now (calls k)) db" "dom w \<inter> locked_by_others S k = {}"
  shows "claims_inv n calls db (S(k := (S k)\<lparr>cs_phase := Reaped, cs_writes := w\<rparr>))"
proof (rule claims_inv_move [OF inv k(1)]; simp?)
  note D = claims_invD [OF inv]
  show "cs_call (S k) = calls k" by (rule D(2))
  show "keyed w" unfolding k(2) reap_writes_def by (rule keyed_written) simp
  show "w i = None \<or> cs_writes (S l) i = None" if "l \<noteq> k" for l i
  proof (cases "w i")
    case (Some r)
    then have "i \<notin> locked_by_others S k" using k(3) by blast
    from not_locked [OF this that] show ?thesis ..
  qed simp
  show "\<exists>y. job_row_at db i = Some y" if "\<exists>y. w i = Some y" for i
    using that by (cases "job_row_at db i") (simp_all add: k(2) reap_writes_def written_def)
  show "w i = None" if "cs_phase (S l) = Claimed (Some i)" for l i
  proof -
    from that D(4) have "l < n" by (metis claim_phase.distinct(5) leI)
    with fresh k(1) have "cl_now (calls k) < cl_now (calls l) + cl_lease_ms (calls l) * millisecond"
      by (simp add: fresh_leases_def)
    moreover from D(10) [OF that] obtain r where "job_row_at db i = Some r" "lease_of (calls l) r" by blast
    ultimately show ?thesis using lease_of_not_expired by (simp add: k(2) reap_writes_def written_def)
  qed
qed

text \<open>The row a session takes was not leased by another session of the run.\<close>

lemma taken_row:
  assumes inv: "claims_inv n calls db S"
    and r: "best_candidate ck (locked_by_others S k) now (overlay (cs_writes (S k)) db) = Some r"
  shows "job_row_at (overlay (cs_writes (S k)) db) (job_key r) = Some r"
    "jb_state r = state_name Ready \<or> jb_state r = state_name RetryWait"
    "job_row_at db (job_key r) \<noteq> None" "cs_phase (S l) \<noteq> Claimed (Some (job_key r))"
proof -
  note D = claims_invD [OF inv] and c = best_candidate_Some [OF r]
  have tables: "tables_ok (overlay (cs_writes (S k)) db)" by (rule tables_ok_overlay [OF D(3,1)])
  show at: "job_row_at (overlay (cs_writes (S k)) db) (job_key r) = Some r" using job_row_at_iff [OF tables] c(1) by simp
  show st: "jb_state r = state_name Ready \<or> jb_state r = state_name RetryWait" by (rule candidate_state [OF c(2)])
  note view = job_row_at_overlay [OF D(3), of k db "job_key r"]
  show "job_row_at db (job_key r) \<noteq> None" using at view by (cases "job_row_at db (job_key r)") simp_all
  show "cs_phase (S l) \<noteq> Claimed (Some (job_key r))"
  proof
    assume l: "cs_phase (S l) = Claimed (Some (job_key r))"
    from D(10) [OF l] obtain r' where r': "job_row_at db (job_key r) = Some r'" "lease_of (calls l) r'" by blast
    with at view D(11) [OF l, of k] have "r = r'" by simp
    with r'(2) st show False by (auto simp: lease_of_def)
  qed
qed

lemma claims_inv_none:
  assumes inv: "claims_inv n calls db S" and k: "k < n" "cs_phase (S k) = Reaped"
  shows "claims_inv n calls db (S(k := (S k)\<lparr>cs_phase := Took None\<rparr>))"
proof (rule claims_inv_move [OF inv k(1)])
  note D = claims_invD [OF inv]
  let ?s = "(S k)\<lparr>cs_phase := Took None\<rparr>"
  show "cs_call ?s = calls k" "keyed (cs_writes ?s)" using D(2,3) by simp_all
  show "cs_writes ?s i \<noteq> None \<Longrightarrow> job_row_at db i \<noteq> None" for i using D(7) [of k i] by simp
  show "l \<noteq> k \<Longrightarrow> cs_writes ?s i = None \<or> cs_writes (S l) i = None" for l i using D(8) [of k l i] by auto
  show "cs_phase (S l) = Claimed (Some i) \<Longrightarrow> cs_writes ?s i = None" for l i using D(11) [of l i k] by simp
qed simp_all

lemma claims_inv_some:
  assumes inv: "claims_inv n calls db S" and k: "k < n" "cs_phase (S k) = Reaped"
    and r: "best_candidate ck (locked_by_others S k) now (overlay (cs_writes (S k)) db) = Some r"
  shows "claims_inv n calls db (S(k := (S k)\<lparr>cs_phase := Took (Some (job_key r)),
      cs_writes := (cs_writes (S k))(job_key r \<mapsto> leased_by (calls k) r)\<rparr>))"
proof (rule claims_inv_move [OF inv k(1)])
  note D = claims_invD [OF inv] and taken = taken_row [OF inv r]
  note free = not_locked [OF best_candidate_Some(3) [OF r]]
  let ?s = "(S k)\<lparr>cs_phase := Took (Some (job_key r)), cs_writes := (cs_writes (S k))(job_key r \<mapsto> leased_by (calls k) r)\<rparr>"
  show "cs_call ?s = calls k" "keyed (cs_writes ?s)" using D(2,3) keyed_upd by simp_all
  show "cs_writes ?s i \<noteq> None \<Longrightarrow> job_row_at db i \<noteq> None" for i
    using D(7) [of k i] taken(3) by (cases "i = job_key r") simp_all
  show "l \<noteq> k \<Longrightarrow> cs_writes ?s i = None \<or> cs_writes (S l) i = None" for l i
    using D(8) [of k l i] free [of l] by (cases "i = job_key r") auto
  show "cs_phase ?s = Took (Some i) \<Longrightarrow> \<exists>r'. cs_writes ?s i = Some r' \<and> lease_of (calls k) r'" for i
    using lease_of_leased by (cases "i = job_key r") simp_all
  show "cs_phase (S l) = Claimed (Some i) \<Longrightarrow> cs_writes ?s i = None" for l i
    using D(11) [of l i k] taken(4) [of l] by (cases "i = job_key r") simp_all
  show "job_granted (S l) \<noteq> Some i" if "l \<noteq> k" "job_granted ?s = Some i" for l i
  proof
    assume g: "job_granted (S l) = Some i"
    have i: "i = job_key r" using that(2) by simp
    show False
    proof (cases "cs_phase (S l)")
      case (Took h)
      with g i D(9) [of l "job_key r"] free [OF that(1)] show False by simp
    next
      case (Claimed h)
      with g i taken(4) [of l] show False by simp
    qed (use g in simp_all)
  qed
qed simp_all

lemma job_row_at_commit:
  assumes "keyed w"
  shows "job_row_at ((overlay w db)\<lparr>db_events := es\<rparr>) i = map_option (\<lambda>r. case w i of None \<Rightarrow> r | Some r' \<Rightarrow> r') (job_row_at db i)"
  using job_row_at_overlay [OF assms] by simp

lemma claims_inv_commit:
  assumes inv: "claims_inv n calls db S" and k: "k < n" "cs_phase (S k) = Took g"
  shows "claims_inv n calls ((overlay (cs_writes (S k)) db)\<lparr>db_events := es\<rparr>)
    (S(k := (S k)\<lparr>cs_phase := Claimed g, cs_writes := Map.empty\<rparr>))" (is "claims_inv n calls ?db ?S")
  unfolding claims_inv_def
proof (intro conjI allI impI)
  note D = claims_invD [OF inv]
  fix l m i
  note at = job_row_at_commit [OF D(3) [of k], where db = db and es = es]
  show "tables_ok ?db"
    using tables_ok_overlay [OF D(3) [of k] D(1)] by (rule tables_ok_cong) simp_all
  show "cs_call (?S l) = calls l" "keyed (cs_writes (?S l))" using D(2,3) by simp_all
  show "n \<le> l \<Longrightarrow> cs_phase (?S l) = Arrived" using D(4) [of l] k(1) by simp
  show "cs_phase (?S l) = Arrived \<or> (\<exists>g. cs_phase (?S l) = Claimed g) \<Longrightarrow> cs_writes (?S l) = Map.empty"
    using D(5,6) [of l] by (cases "l = k") auto
  show "cs_writes (?S l) i \<noteq> None \<Longrightarrow> job_row_at ?db i \<noteq> None"
    using D(7) [of l i] at [of i] by (cases "l = k") simp_all
  show "l \<noteq> m \<Longrightarrow> cs_writes (?S l) i = None \<or> cs_writes (?S m) i = None"
    using D(8) [of l m i] by (cases "l = k"; cases "m = k") simp_all
  show "cs_phase (?S l) = Took (Some i) \<Longrightarrow> \<exists>r. cs_writes (?S l) i = Some r \<and> lease_of (calls l) r"
    using D(9) [of l i] by (cases "l = k") simp_all
  show "\<exists>r. job_row_at ?db i = Some r \<and> lease_of (calls l) r" if "cs_phase (?S l) = Claimed (Some i)"
  proof (cases "l = k")
    case True
    with that k(2) have "cs_phase (S k) = Took (Some i)" by simp
    from D(9) [OF this] obtain r where r: "cs_writes (S k) i = Some r" "lease_of (calls k) r" by blast
    with D(7) [of k i] True at [of i] show ?thesis by (cases "job_row_at db i") simp_all
  next
    case False
    with that have c: "cs_phase (S l) = Claimed (Some i)" by simp
    from D(10) [OF c] D(11) [OF c, of k] at [of i] show ?thesis by auto
  qed
  show "cs_writes (?S m) i = None" if "cs_phase (?S l) = Claimed (Some i)"
  proof (cases "m = k \<or> l \<noteq> k")
    case True
    with that D(11) [of l i m] show ?thesis by (cases "m = k") simp_all
  next
    case False
    with that k(2) have "cs_phase (S k) = Took (Some i)" by simp
    from D(9) [OF this] D(8) [of k m i] False show ?thesis by auto
  qed
  show "l \<noteq> m \<Longrightarrow> job_granted (?S l) = Some i \<Longrightarrow> job_granted (?S m) \<noteq> Some i"
    using D(12) [of l m i] k(2) by (cases "l = k"; cases "m = k") auto
qed

lemma claims_inv_step:
  assumes inv: "claims_inv n calls db S" and fresh: "fresh_leases calls n" and step: "claim_step ck n (db, S) (db', S')"
  shows "claims_inv n calls db' S'"
  using step
proof (cases rule: claim_step.cases)
  case (claim_reap k w)
  with claims_inv_reap [OF inv fresh claim_reap(3)] claims_invD(2) [OF inv] show ?thesis by simp
next
  case (claim_none k)
  with claims_inv_none [OF inv claim_none(3,4)] show ?thesis by simp
next
  case (claim_some k r)
  with claims_inv_some [OF inv claim_some(3,4)] claims_invD(2) [OF inv] show ?thesis by simp
next
  case (claim_commit k g)
  with claims_inv_commit [OF inv claim_commit(3,4)] show ?thesis by simp
qed

section \<open>Enough work for everybody\<close>

text \<open>The rows that every call of the run could take, had it come first.\<close>

definition claimable_rows :: "(nat \<Rightarrow> claim_call) \<Rightarrow> nat \<Rightarrow> database \<Rightarrow> (byte_string \<times> byte_string) set" where
  "claimable_rows calls n db = {i. \<exists>r. job_row_at db i = Some r \<and> (\<forall>k<n. candidate_row (cl_now (calls k)) db r)}"

text \<open>Succeeded rows, and rows that can be taken and are not, stay as they were.\<close>

definition spared :: "(nat \<Rightarrow> claim_call) \<Rightarrow> nat \<Rightarrow> database \<Rightarrow> (nat \<Rightarrow> claim_session) \<Rightarrow> byte_string \<times> byte_string \<Rightarrow> bool" where
  "spared calls n db0 S i \<longleftrightarrow>
     row_status db0 i = Some Succeeded \<or> i \<in> claimable_rows calls n db0 \<and> (\<forall>k. job_granted (S k) \<noteq> Some i)"

definition spares :: "(nat \<Rightarrow> claim_call) \<Rightarrow> nat \<Rightarrow> database \<Rightarrow> database \<Rightarrow> (nat \<Rightarrow> claim_session) \<Rightarrow> bool" where
  "spares calls n db0 db S \<longleftrightarrow>
     db_dags db = db_dags db0 \<and> db_dependencies db = db_dependencies db0 \<and> map job_key (db_jobs db) = map job_key (db_jobs db0) \<and>
     (\<forall>i. spared calls n db0 S i \<longrightarrow> job_row_at db i = job_row_at db0 i \<and> (\<forall>k. cs_writes (S k) i = None))"

lemma sparesD:
  assumes "spares calls n db0 db S"
  shows "db_dags db = db_dags db0" "db_dependencies db = db_dependencies db0" "map job_key (db_jobs db) = map job_key (db_jobs db0)"
    "spared calls n db0 S i \<Longrightarrow> job_row_at db i = job_row_at db0 i" "spared calls n db0 S i \<Longrightarrow> cs_writes (S k) i = None"
proof -
  note 1 = assms [unfolded spares_def]
  show "db_dags db = db_dags db0" "db_dependencies db = db_dependencies db0" "map job_key (db_jobs db) = map job_key (db_jobs db0)"
    using 1 by simp_all
  note 2 = 1 [THEN conjunct2, THEN conjunct2, THEN conjunct2, rule_format]
  show "spared calls n db0 S i \<Longrightarrow> job_row_at db i = job_row_at db0 i" by (rule 2 [THEN conjunct1])
  show "spared calls n db0 S i \<Longrightarrow> cs_writes (S k) i = None" by (rule 2 [THEN conjunct2, THEN spec])
qed

lemma spared_state:
  assumes "spared calls n db0 S i" "0 < n"
  shows "\<exists>r. job_row_at db0 i = Some r \<and> jb_state r \<noteq> state_name Leased"
proof (cases "row_status db0 i = Some Succeeded")
  case True
  then show ?thesis by (auto simp: row_status_iff)
next
  case False
  with assms obtain r where "job_row_at db0 i = Some r" "candidate_row (cl_now (calls 0)) db0 r"
    by (auto simp: spared_def claimable_rows_def)
  with candidate_state show ?thesis by fastforce
qed

text \<open>In the view of a session a row that can be taken still can.\<close>

lemma spared_candidate:
  assumes inv: "claims_inv n calls db S" and sp: "spares calls n db0 db S" and tables: "tables_ok db0"
    and i: "i \<in> claimable_rows calls n db0" "\<And>k. job_granted (S k) \<noteq> Some i" and k: "k < n"
  shows "\<exists>r\<in>set (eligible_rows (\<lambda>i. i \<in> locked_by_others S k) (cl_now (calls k)) (overlay (cs_writes (S k)) db)). job_key r = i"
proof -
  note D = claims_invD [OF inv] and P = sparesD [OF sp]
  let ?view = "overlay (cs_writes (S k)) db"
  have s: "spared calls n db0 S i" using i by (simp add: spared_def)
  from i(1) k obtain r where r: "job_row_at db0 i = Some r" "candidate_row (cl_now (calls k)) db0 r"
    unfolding claimable_rows_def by blast
  have view: "job_row_at ?view j = job_row_at db0 j" if "spared calls n db0 S j" for j
    using P(4,5) [OF that] by (simp add: job_row_at_overlay [OF D(3)] option.map_ident)
  have mem: "r \<in> set (db_jobs ?view)" "job_key r = i" using job_row_at_mem view [OF s] r(1) by metis+
  have closed: "jb_state parent = state_name Succeeded"
    if e: "e \<in> set (db_dependencies db0)" "dp_dag_id e = jb_dag_id r" "dp_child_id e = jb_id r"
      and p: "parent \<in> set (db_jobs ?view)" "jb_dag_id parent = dp_dag_id e" "jb_id parent = dp_parent_id e" for e parent
  proof -
    have "map job_key (db_jobs ?view) = map job_key (db_jobs db0)"
      using P(3) overlay_keys [OF D(3)] by simp
    then have "job_key parent \<in> job_key ` set (db_jobs db0)" using p(1) by (metis image_eqI list.set_map)
    then obtain q where q: "q \<in> set (db_jobs db0)" "job_key q = job_key parent" by force
    have "jb_state q = state_name Succeeded"
      using r(2) e p(2,3) q unfolding candidate_row_s open_parent_s by (metis job_key_def prod.inject)
    moreover have at: "job_row_at db0 (job_key parent) = Some q" using job_row_at_iff [OF tables] q by simp
    ultimately have "spared calls n db0 S (job_key parent)" by (simp add: spared_def row_status_iff)
    from view [OF this] at have "job_row_at ?view (job_key parent) = Some q" by simp
    moreover have "job_row_at ?view (job_key parent) = Some parent"
      using job_row_at_iff [OF tables_ok_overlay [OF D(3,1)]] p(1) by simp
    ultimately show ?thesis using \<open>jb_state q = _\<close> by simp
  qed
  have "candidate_row (cl_now (calls k)) ?view r"
    using r(2) closed by (auto simp: candidate_row_s open_parent_s P(1,2))
  moreover have "i \<notin> locked_by_others S k" using P(5) [OF s] by (simp add: locked_by_others_def dom_def)
  ultimately show ?thesis using mem by (intro bexI [of _ r]) (simp_all add: eligible_rows_def)
qed

lemma spares_move:
  assumes sp: "spares calls n db0 db S"
    and sub: "\<And>i. spared calls n db0 (S(k := s)) i \<Longrightarrow> spared calls n db0 S i"
    and new: "\<And>i. spared calls n db0 (S(k := s)) i \<Longrightarrow> cs_writes s i = None"
  shows "spares calls n db0 db (S(k := s))"
  unfolding spares_def
proof (intro conjI allI impI)
  note P = sparesD [OF sp]
  show "db_dags db = db_dags db0" "db_dependencies db = db_dependencies db0" "map job_key (db_jobs db) = map job_key (db_jobs db0)"
    by (rule P(1-3))+
  fix i l
  assume i: "spared calls n db0 (S(k := s)) i"
  show "job_row_at db i = job_row_at db0 i" by (rule P(4) [OF sub [OF i]])
  show "cs_writes ((S(k := s)) l) i = None" using P(5) [OF sub [OF i], of l] new [OF i] by simp
qed

lemma spares_step:
  assumes inv: "claims_inv n calls db S" and sp: "spares calls n db0 db S" and step: "claim_step ck n (db, S) (db', S')"
  shows "spares calls n db0 db' S'"
  using step
proof (cases rule: claim_step.cases)
  case (claim_reap k w)
  note P = sparesD [OF sp]
  let ?s = "(S k)\<lparr>cs_phase := Reaped, cs_writes := w\<rparr>"
  have sub: "spared calls n db0 S i" if "spared calls n db0 (S(k := ?s)) i" for i
    using that claim_reap(4) unfolding spared_def by (metis fun_upd_apply job_granted_simps(1) option.distinct(1))
  have "w i = None" if "spared calls n db0 (S(k := ?s)) i" for i
  proof -
    from sub [OF that] have s: "spared calls n db0 S i" .
    from spared_state [OF this] claim_reap(3) obtain r where "job_row_at db0 i = Some r" "jb_state r \<noteq> state_name Leased" by auto
    then show ?thesis using P(4) [OF s] by (simp add: claim_reap(5) reap_writes_def written_def expired_row_s)
  qed
  with spares_move [OF sp sub] show ?thesis by (simp add: claim_reap(1,2))
next
  case (claim_none k)
  let ?s = "(S k)\<lparr>cs_phase := Took None\<rparr>"
  have sub: "spared calls n db0 S i" if "spared calls n db0 (S(k := ?s)) i" for i
    using that claim_none(4) unfolding spared_def by (metis fun_upd_apply job_granted_simps(2) option.distinct(1))
  with spares_move [OF sp sub] sparesD(5) [OF sp] show ?thesis by (simp add: claim_none(1,2))
next
  case (claim_some k r)
  note D = claims_invD [OF inv] and P = sparesD [OF sp] and taken = taken_row [OF inv claim_some(5)]
  let ?s = "(S k)\<lparr>cs_phase := Took (Some (job_key r)), cs_writes := (cs_writes (S k))(job_key r \<mapsto> leased_by (cs_call (S k)) r)\<rparr>"
  have sub: "spared calls n db0 S i" if "spared calls n db0 (S(k := ?s)) i" for i
    using that claim_some(4) unfolding spared_def by (metis fun_upd_apply job_granted_simps(2) option.distinct(1))
  have "i \<noteq> job_key r" if i: "spared calls n db0 (S(k := ?s)) i" for i
  proof
    assume eq: "i = job_key r"
    have "job_granted ?s = Some i" by (simp add: eq)
    then have "row_status db0 i = Some Succeeded" using i unfolding spared_def by (metis fun_upd_same)
    moreover have "job_row_at db0 i = Some r"
      using taken(1) P(4,5) [OF sub [OF i]] by (simp add: eq job_row_at_overlay [OF D(3)] option.map_ident)
    ultimately show False using taken(2) by (auto simp: row_status_iff)
  qed
  then have "cs_writes ?s i = None" if "spared calls n db0 (S(k := ?s)) i" for i
    using that P(5) [OF sub [OF that]] by simp
  with spares_move [OF sp sub] show ?thesis by (simp add: claim_some(1,2))
next
  case (claim_commit k g)
  note D = claims_invD [OF inv] and P = sparesD [OF sp]
  let ?s = "(S k)\<lparr>cs_phase := Claimed g, cs_writes := Map.empty\<rparr>"
  have sub: "spared calls n db0 S i" if "spared calls n db0 (S(k := ?s)) i" for i
  proof -
    have "job_granted ((S(k := ?s)) l) = job_granted (S l)" for l using claim_commit(4) by simp
    with that show ?thesis unfolding spared_def by metis
  qed
  show ?thesis
    unfolding spares_def claim_commit(1,2)
  proof (intro conjI allI impI)
    fix i l
    assume i: "spared calls n db0 (S(k := ?s)) i"
    show "cs_writes ((S(k := ?s)) l) i = None" using P(5) [OF sub [OF i], of l] by simp
    show "job_row_at ((overlay (cs_writes (S k)) db)\<lparr>db_events := db_events db @
         (case g of None \<Rightarrow> [] | Some i \<Rightarrow>
            [claimed_event (cl_owner (cs_call (S k))) (cl_now (cs_call (S k))) (the (cs_writes (S k) i))])\<rparr>) i = job_row_at db0 i"
      using P(4,5) [OF sub [OF i]] by (simp add: job_row_at_overlay [OF D(3)] option.map_ident)
  qed (use P(1-3) overlay_keys [OF D(3), of k] in simp_all)
qed

lemma candidate_left:
  assumes inv: "claims_inv n calls db S" and k: "k < n" "job_granted (S k) = None" and enough: "n \<le> card (claimable_rows calls n db0)"
  shows "\<exists>i\<in>claimable_rows calls n db0. \<forall>l. job_granted (S l) \<noteq> Some i"
proof (rule ccontr)
  assume none: "\<not> (\<exists>i\<in>claimable_rows calls n db0. \<forall>l. job_granted (S l) \<noteq> Some i)"
  let ?G = "(\<lambda>l. the (job_granted (S l))) ` ({..<n} - {k})"
  have "claimable_rows calls n db0 \<subseteq> ?G"
  proof
    fix i assume "i \<in> claimable_rows calls n db0"
    with none obtain l where l: "job_granted (S l) = Some i" by blast
    have "l < n"
    proof (rule ccontr)
      assume "\<not> l < n"
      with claims_invD(4) [OF inv, of l] l show False by simp
    qed
    moreover have "l \<noteq> k" using l k(2) by auto
    ultimately show "i \<in> ?G" using l by (intro image_eqI [of _ _ l]) simp_all
  qed
  then have "card (claimable_rows calls n db0) \<le> card ?G" by (rule card_mono [rotated]) simp
  also have "\<dots> \<le> card ({..<n} - {k})" by (rule card_image_le) simp
  also have "\<dots> = n - 1" using k(1) by simp
  finally show False using enough k(1) by simp
qed

text \<open>With a candidate for every session nobody goes away empty-handed.\<close>

definition nobody_empty :: "(nat \<Rightarrow> claim_session) \<Rightarrow> bool" where
  "nobody_empty S \<longleftrightarrow> (\<forall>k. cs_phase (S k) \<noteq> Took None \<and> cs_phase (S k) \<noteq> Claimed None)"

lemma nobody_empty_step:
  assumes inv: "claims_inv n calls db S" and sp: "spares calls n db0 db S" and tables: "tables_ok db0"
    and enough: "n \<le> card (claimable_rows calls n db0)" and all: "nobody_empty S"
    and step: "claim_step ck n (db, S) (db', S')"
  shows "nobody_empty S'"
  using step
proof (cases rule: claim_step.cases)
  case (claim_none k)
  have "job_granted (S k) = None" using claim_none(4) by simp
  from candidate_left [OF inv claim_none(3) this enough] obtain i where
    "i \<in> claimable_rows calls n db0" "\<And>l. job_granted (S l) \<noteq> Some i" by blast
  from spared_candidate [OF inv sp tables this claim_none(3)] claim_none(5) show ?thesis
    by (simp add: best_candidate_None claims_invD(2) [OF inv])
next
  case (claim_commit k g)
  have "g \<noteq> None" using all [unfolded nobody_empty_def, rule_format, of k] claim_commit(4) by simp
  with all show ?thesis by (simp add: nobody_empty_def claim_commit(2))
qed (use all in \<open>simp_all add: nobody_empty_def\<close>)

lemma claim_run:
  assumes "(claim_step ck n)\<^sup>*\<^sup>* (db0, \<lambda>k. begin_claim (calls k)) (db, S)" and tables: "tables_ok db0" and fresh: "fresh_leases calls n"
  shows "claims_inv n calls db S \<and> spares calls n db0 db S \<and> (n \<le> card (claimable_rows calls n db0) \<longrightarrow> nobody_empty S)"
  using assms(1)
proof (induction rule: rtranclp_induct2)
  case refl
  have "spares calls n db0 db0 (\<lambda>k. begin_claim (calls k))" by (simp add: spares_def begin_claim_def)
  then show ?case using begin_claims_inv [OF tables] by (simp add: nobody_empty_def begin_claim_def)
next
  case (step db S db' S')
  then have inv: "claims_inv n calls db S" and sp: "spares calls n db0 db S" by blast+
  from claims_inv_step [OF inv fresh step.hyps(2)] spares_step [OF inv sp step.hyps(2)]
    nobody_empty_step [OF inv sp tables _ _ step.hyps(2)] step.IH show ?case by blast
qed

section \<open>A session alone\<close>

lemma overlay_single:
  assumes "tables_ok db" "r \<in> set (db_jobs db)"
  shows "overlay [job_key r \<mapsto> f r] db = update_jobs (same_key r) f db"
proof -
  have unique: "r' = r" if "r' \<in> set (db_jobs db)" "job_key r' = job_key r" for r'
    using job_key_unique [OF _ that(1) assms(2) that(2)] assms(1) by (simp add: tables_ok_def)
  have "map (\<lambda>x. case [job_key r \<mapsto> f r] (job_key x) of None \<Rightarrow> x | Some r' \<Rightarrow> r') (db_jobs db) =
      map (\<lambda>x. if same_key r x then f x else x) (db_jobs db)"
  proof (rule map_cong [OF refl])
    fix x assume "x \<in> set (db_jobs db)"
    from unique [OF this] show "(case [job_key r \<mapsto> f r] (job_key x) of None \<Rightarrow> x | Some r' \<Rightarrow> r') = (if same_key r x then f x else x)"
      unfolding same_key_iff by (cases "job_key x = job_key r") auto
  qed
  then show ?thesis by (simp add: overlay_def update_jobs_def)
qed

lemma store_claim_best:
  fixes now :: timestamp
  assumes inv: "db_inv db" and ok: "validate_owner_and_lease owner l = Inr ()" "pg_text owner"
  defines "db1 \<equiv> fst (reap_in_transaction now db)"
  shows "fst (store_claim ck show_uuid (\<lambda>i. i \<in> locks) owner l token now db) =
    (case best_candidate ck locks now db1 of
       None \<Rightarrow> db1
     | Some r \<Rightarrow> (update_jobs (same_key r) (lease_row owner token l now) db1)
         \<lparr>db_events := db_events db @ [claimed_event owner now (lease_row owner token l now r)]\<rparr>)"
proof -
  note inv1 = db_inv_reap [OF inv, of now, folded db1_def]
  have rows: "filter (\<lambda>r. candidate_row now db1 r \<and> (jb_dag_id r, jb_id r) \<notin> locks) (db_jobs db1) =
      eligible_rows (\<lambda>i. i \<in> locks) now db1"
    by (simp add: eligible_rows_def job_key_def)
  have ev: "db_events db1 = db_events db" by (simp add: db1_def)
  show ?thesis
  proof (cases "sort_key (claim_order ck) (eligible_rows (\<lambda>i. i \<in> locks) now db1)")
    case Nil
    then show ?thesis using ok
      by (simp add: store_claim_def claim_statement_def rows best_candidate_def transaction_def flip: db1_def)
  next
    case (Cons r rs)
    then have r: "r \<in> set (eligible_rows (\<lambda>i. i \<in> locks) now db1)" using sort_key_head(2) [OF Cons] by blast
    note row = eligible_row [OF r]
    note reads = lease_row_reads [OF db_inv_row [OF inv1 row(1)] candidate_state [OF row(2)]]
    obtain cj where "claimed_row show_uuid token (lease_row owner token l now r) = Inr cj" using reads(1) by blast
    with Cons reads(2) ok ev show ?thesis
      by (simp add: store_claim_def claim_statement_def rows best_candidate_def transaction_def flip: db1_def)
  qed
qed

text \<open>Undisturbed, the statements of a session are the method \<open>claim\<close>.\<close>

lemma claim_alone:
  assumes inv: "db_inv db" and ok: "validate_owner_and_lease (cl_owner call) (cl_lease_ms call) = Inr ()" "pg_text (cl_owner call)"
  shows "\<exists>g. (claim_step ck 1)\<^sup>*\<^sup>* (db, \<lambda>k. begin_claim call)
    (fst (store_claim ck show_uuid (\<lambda>_. False) (cl_owner call) (cl_lease_ms call) (cl_token call) (cl_now call) db),
     (\<lambda>k. begin_claim call)(0 := \<lparr>cs_call = call, cs_phase = Claimed g, cs_writes = Map.empty\<rparr>))"
proof -
  note tables = db_inv_tables [OF inv]
  define S where "S = (\<lambda>k :: nat. begin_claim call)"
  define w where "w = reap_writes (cl_now call) db"
  define db1 where "db1 = fst (reap_in_transaction (cl_now call) db)"
  have free: "locked_by_others (S(0 := s)) 0 = {}" for s by (auto simp: locked_by_others_def S_def begin_claim_def)
  have call0: "cs_call (S 0) = call" "cs_phase (S 0) = Arrived" by (simp_all add: S_def begin_claim_def)
  have view: "overlay w db = db1"
    unfolding w_def reap_writes_def db1_def reap_in_transaction_def fst_conv by (rule overlay_written [OF tables]) simp
  let ?at = "\<lambda>ph w. S(0 := \<lparr>cs_call = call, cs_phase = ph, cs_writes = w\<rparr>)"
  have start: "?at Arrived Map.empty = S" by (auto simp: S_def begin_claim_def)
  have "locked_by_others S 0 = {}" using free [of "S 0"] by simp
  then have 1: "claim_step ck 1 (db, S) (db, ?at Reaped w)"
    using claim_reap [of 0 1 S w db ck] by (simp add: S_def begin_claim_def w_def)
  note locks = free [of "\<lparr>cs_call = call, cs_phase = Reaped, cs_writes = w\<rparr>"]
  have best: "fst (store_claim ck show_uuid (\<lambda>_. False) (cl_owner call) (cl_lease_ms call) (cl_token call) (cl_now call) db) =
    (case best_candidate ck {} (cl_now call) db1 of
       None \<Rightarrow> db1
     | Some r \<Rightarrow> (update_jobs (same_key r) (leased_by call) db1)
         \<lparr>db_events := db_events db @ [claimed_event (cl_owner call) (cl_now call) (leased_by call r)]\<rparr>)"
    unfolding db1_def leased_by_def
    using store_claim_best [OF inv ok, of ck show_uuid "{}" "cl_token call" "cl_now call"] by simp
  show ?thesis
  proof (cases "best_candidate ck {} (cl_now call) db1")
    case None
    have 2: "claim_step ck 1 (db, ?at Reaped w) (db, ?at (Took None) w)"
      using claim_none [of 0 1 "?at Reaped w" ck db] locks None by (simp add: view)
    have "db1\<lparr>db_events := db_events db\<rparr> = db1" by (simp add: db1_def reap_in_transaction_def)
    then have 3: "claim_step ck 1 (db, ?at (Took None) w) (db1, ?at (Claimed None) Map.empty)"
      using claim_commit [of 0 1 "?at (Took None) w" None ck db] by (simp add: view)
    from 1 2 3 have "(claim_step ck 1)\<^sup>*\<^sup>* (db, S) (db1, ?at (Claimed None) Map.empty)"
      by (meson converse_rtranclp_into_rtranclp r_into_rtranclp)
    then show ?thesis unfolding best None S_def by auto
  next
    case (Some r)
    let ?w = "w(job_key r \<mapsto> leased_by call r)"
    have 2: "claim_step ck 1 (db, ?at Reaped w) (db, ?at (Took (Some (job_key r))) ?w)"
      using claim_some [of 0 1 "?at Reaped w" ck db r] locks Some by (simp add: view)
    have "r \<in> set (db_jobs db1)" using best_candidate_Some(1) [OF Some] .
    moreover have keyed: "keyed w" unfolding w_def reap_writes_def by (rule keyed_written) simp
    ultimately have "overlay ?w db = update_jobs (same_key r) (leased_by call) db1"
      using overlay_add [OF keyed, of "[job_key r \<mapsto> leased_by call r]" db] overlay_single [of db1 r "leased_by call"]
        tables_ok_overlay [OF keyed tables] by (simp add: view)
    then have 3: "claim_step ck 1 (db, ?at (Took (Some (job_key r))) ?w)
        ((update_jobs (same_key r) (leased_by call) db1)
           \<lparr>db_events := db_events db @ [claimed_event (cl_owner call) (cl_now call) (leased_by call r)]\<rparr>,
         ?at (Claimed (Some (job_key r))) Map.empty)"
      using claim_commit [of 0 1 "?at (Took (Some (job_key r))) ?w" "Some (job_key r)" ck db] by simp
    from 1 2 3 have "(claim_step ck 1)\<^sup>*\<^sup>* (db, S)
      ((update_jobs (same_key r) (leased_by call) db1)
           \<lparr>db_events := db_events db @ [claimed_event (cl_owner call) (cl_now call) (leased_by call r)]\<rparr>,
         ?at (Claimed (Some (job_key r))) Map.empty)"
      by (meson converse_rtranclp_into_rtranclp r_into_rtranclp)
    then show ?thesis unfolding best Some S_def by auto
  qed
qed

section \<open>Two workers on the diamond\<close>

text \<open>
  After the first job of the diamond has succeeded, two workers claim at the same time: both have
  reaped before either takes a candidate, and the second passes over the row that the first locked.
\<close>

definition race_call :: "nat \<Rightarrow> claim_call" where
  "race_call k = \<lparr>cl_owner = (if k = 0 then worker else ''worker-2''), cl_lease_ms = 60000,
     cl_token = word_of_nat (7 + k), cl_now = 4000000 + int k\<rparr>"

definition race_row :: "byte_string \<Rightarrow> job_row" where
  "race_row j = the (job_row_at forked_3 (''diamond'', j))"

definition race_sessions :: "claim_phase \<Rightarrow> row_versions \<Rightarrow> claim_phase \<Rightarrow> row_versions \<Rightarrow> nat \<Rightarrow> claim_session" where
  "race_sessions p v q w = (\<lambda>k. begin_claim (race_call k))
     (0 := \<lparr>cs_call = race_call 0, cs_phase = p, cs_writes = v\<rparr>, 1 := \<lparr>cs_call = race_call 1, cs_phase = q, cs_writes = w\<rparr>)"

lemma race_sessions_simps [simp]:
  "race_sessions p v q w 0 = \<lparr>cs_call = race_call 0, cs_phase = p, cs_writes = v\<rparr>"
  "race_sessions p v q w 1 = \<lparr>cs_call = race_call 1, cs_phase = q, cs_writes = w\<rparr>"
  "(race_sessions p v q w)(0 := \<lparr>cs_call = race_call 0, cs_phase = p', cs_writes = v'\<rparr>) = race_sessions p' v' q w"
  "(race_sessions p v q w)(1 := \<lparr>cs_call = race_call 1, cs_phase = q', cs_writes = w'\<rparr>) = race_sessions p v q' w'"
  by (auto simp: race_sessions_def)

lemma race_locks [simp]:
  "locked_by_others (race_sessions p v q w) 0 = dom w" "locked_by_others (race_sessions p v q w) 1 = dom v"
  by (auto simp: locked_by_others_def race_sessions_def begin_claim_def split: if_splits)

lemma race_begins: "race_sessions Arrived Map.empty Arrived Map.empty = (\<lambda>k. begin_claim (race_call k))"
  by (auto simp: race_sessions_def begin_claim_def)

lemma nothing_written: "list_all (\<lambda>r. \<not> p r) (db_jobs db) \<Longrightarrow> written p f db = Map.empty"
  using job_row_at_mem by (auto simp: written_def list_all_iff fun_eq_iff split: option.splits)

lemma race_reaps: "reap_writes (cl_now (race_call 0)) forked_3 = Map.empty" "reap_writes (cl_now (race_call 1)) forked_3 = Map.empty"
proof -
  have "list_all (\<lambda>r. \<not> expired_row (cl_now (race_call 0)) r) (db_jobs forked_3)"
    "list_all (\<lambda>r. \<not> expired_row (cl_now (race_call 1)) r) (db_jobs forked_3)" by code_simp+
  then show "reap_writes (cl_now (race_call 0)) forked_3 = Map.empty" "reap_writes (cl_now (race_call 1)) forked_3 = Map.empty"
    unfolding reap_writes_def by (simp_all add: nothing_written)
qed

lemma race_candidates:
  "best_candidate bytes {} (cl_now (race_call 0)) forked_3 = Some (race_row ''b'')"
  "best_candidate bytes {(''diamond'', ''b'')} (cl_now (race_call 1)) forked_3 = Some (race_row ''c'')"
  "job_key (race_row ''b'') = (''diamond'', ''b'')" "job_key (race_row ''c'') = (''diamond'', ''c'')"
  by code_simp+

lemma race_runs:
  "\<exists>db S. (claim_step bytes 2)\<^sup>*\<^sup>* (forked_3, \<lambda>k. begin_claim (race_call k)) (db, S) \<and>
     cs_phase (S 0) = Claimed (Some (''diamond'', ''b'')) \<and> cs_phase (S 1) = Claimed (Some (''diamond'', ''c''))"
proof -
  let ?b = "(''diamond'', ''b'')" and ?c = "(''diamond'', ''c'')" and ?e = "Map.empty :: row_versions"
  let ?v = "?e(?b \<mapsto> leased_by (race_call 0) (race_row ''b''))" and ?w = "?e(?c \<mapsto> leased_by (race_call 1) (race_row ''c''))"
  let ?S = "race_sessions" and ?step = "claim_step bytes 2"
  have 1: "?step (forked_3, ?S Arrived ?e Arrived ?e) (forked_3, ?S Reaped ?e Arrived ?e)"
    using claim_reap [of 0 2 "?S Arrived ?e Arrived ?e" ?e forked_3 bytes] by (simp add: race_reaps)
  have 2: "?step (forked_3, ?S Reaped ?e Arrived ?e) (forked_3, ?S Reaped ?e Reaped ?e)"
    using claim_reap [of 1 2 "?S Reaped ?e Arrived ?e" ?e forked_3 bytes] by (simp add: race_reaps del: One_nat_def)
  have 3: "?step (forked_3, ?S Reaped ?e Reaped ?e) (forked_3, ?S (Took (Some ?b)) ?v Reaped ?e)"
    using claim_some [of 0 2 "?S Reaped ?e Reaped ?e" bytes forked_3 "race_row ''b''"] by (simp add: race_candidates)
  have 4: "?step (forked_3, ?S (Took (Some ?b)) ?v Reaped ?e) (forked_3, ?S (Took (Some ?b)) ?v (Took (Some ?c)) ?w)"
    using claim_some [of 1 2 "?S (Took (Some ?b)) ?v Reaped ?e" bytes forked_3 "race_row ''c''"]
    by (simp add: race_candidates del: One_nat_def)
  have 5: "\<exists>db5. ?step (forked_3, ?S (Took (Some ?b)) ?v (Took (Some ?c)) ?w) (db5, ?S (Claimed (Some ?b)) ?e (Took (Some ?c)) ?w)"
    using claim_commit [of 0 2 "?S (Took (Some ?b)) ?v (Took (Some ?c)) ?w" "Some ?b" bytes forked_3] by simp (rule exI)
  have 6: "\<exists>db6. ?step (db5, ?S (Claimed (Some ?b)) ?e (Took (Some ?c)) ?w) (db6, ?S (Claimed (Some ?b)) ?e (Claimed (Some ?c)) ?e)" for db5
    using claim_commit [of 1 2 "?S (Claimed (Some ?b)) ?e (Took (Some ?c)) ?w" "Some ?c" bytes db5]
    by (simp del: One_nat_def) (rule exI)
  from 5 6 obtain db5 db6 where 56: "?step (forked_3, ?S (Took (Some ?b)) ?v (Took (Some ?c)) ?w) (db5, ?S (Claimed (Some ?b)) ?e (Took (Some ?c)) ?w)"
    "?step (db5, ?S (Claimed (Some ?b)) ?e (Took (Some ?c)) ?w) (db6, ?S (Claimed (Some ?b)) ?e (Claimed (Some ?c)) ?e)" by blast
  note trans = converse_rtranclp_into_rtranclp [of ?step]
  have "?step\<^sup>*\<^sup>* (forked_3, ?S Arrived ?e Arrived ?e) (db6, ?S (Claimed (Some ?b)) ?e (Claimed (Some ?c)) ?e)"
    by (rule trans [OF 1 trans [OF 2 trans [OF 3 trans [OF 4 trans [OF 56(1) trans [OF 56(2) rtranclp.rtrancl_refl]]]]]])
  then show ?thesis unfolding race_begins by (intro exI conjI) (assumption | simp del: One_nat_def)+
qed

lemma race_claimable: "2 \<le> card (claimable_rows race_call 2 forked_3)"
proof -
  have "claimable_rows race_call 2 forked_3 \<subseteq> job_key ` set (db_jobs forked_3)"
  proof
    fix i assume "i \<in> claimable_rows race_call 2 forked_3"
    then obtain r where "job_row_at forked_3 i = Some r" unfolding claimable_rows_def by blast
    from job_row_at_mem [OF this] show "i \<in> job_key ` set (db_jobs forked_3)" by (intro image_eqI [of _ _ r]) simp_all
  qed
  then have "finite (claimable_rows race_call 2 forked_3)" by (rule finite_subset) simp
  moreover have "job_row_at forked_3 (''diamond'', j) = Some (race_row j) \<and> (\<forall>k<2. candidate_row (cl_now (race_call k)) forked_3 (race_row j))"
    if "j = ''b'' \<or> j = ''c''" for j
  proof -
    have "list_all (\<lambda>j. job_row_at forked_3 (''diamond'', j) = Some (race_row j) \<and>
        candidate_row (cl_now (race_call 0)) forked_3 (race_row j) \<and> candidate_row (cl_now (race_call 1)) forked_3 (race_row j)) [''b'', ''c'']"
      by code_simp
    with that show ?thesis by (auto simp: less_2_cases_iff)
  qed
  then have "{(''diamond'', ''b''), (''diamond'', ''c'')} \<subseteq> claimable_rows race_call 2 forked_3"
    unfolding claimable_rows_def by blast
  ultimately have "card {(''diamond'', ''b''), (''diamond'', ''c'')} \<le> card (claimable_rows race_call 2 forked_3)"
    by (rule card_mono)
  then show ?thesis by simp
qed

end
