(* ===== verification/StoreProperties.thy ===== *)
theory StoreProperties
  imports ClaimRace
begin

text \<open>Properties of the PostgreSQL store: its tables, its answers and its histories.\<close>

section \<open>The tables\<close>

text \<open>
  C8. The tables are well typed in every reachable database: they satisfy the invariant (keys,
  column constraints, lease fields exactly on leased rows, results exactly on succeeded ones,
  attempts within limits, pending exactly while a parent is open, nothing live in a cancelled
  DAG), so no method ever reads a row it cannot interpret: no call answers \<open>CorruptData\<close>, and a
  claim neither fails to decode its row nor overflows the attempt counter.
\<close>

theorem tables_well_typed:
  assumes "store_reachable ck show_uuid db"
  shows "db_inv db \<and> store_snapshot ck d db \<noteq> Inl CorruptData \<and>
    snd (store_fail d j owner token now db) \<noteq> Inl CorruptData \<and>
    snd (store_claim ck show_uuid locked owner l token now db)
      \<notin> {Inl CorruptData, Inl (Database DecodeError), Inl (Database NumericOutOfRange)}"
proof -
  note inv = db_inv_reachable [OF assms]
  have "store_snapshot ck d db \<noteq> Inl CorruptData" by (simp add: store_snapshot_eq [OF inv])
  moreover from store_fail_eq [OF inv, of d j owner token now]
  have "snd (store_fail d j owner token now db) \<noteq> Inl CorruptData" by (auto split: if_splits)
  moreover from claim_answers [OF inv, of ck show_uuid locked owner l token now]
  have "snd (store_claim ck show_uuid locked owner l token now db)
      \<notin> {Inl CorruptData, Inl (Database DecodeError), Inl (Database NumericOutOfRange)}" by auto
  ultimately show ?thesis using inv by blast
qed

theorem tables_well_typed_witness: "db_inv pg_claimed \<and> store_snapshot bytes ''release_demo'' pg_claimed \<noteq> Inl CorruptData"
  using tables_well_typed [OF reachable_pg(3)] by blast

text \<open>
  C39. What was submitted can be read back: after an accepted submission the snapshot of the
  graph lists its jobs in the database's order of identifiers, each with its own limits, ready
  if it has no dependency and pending otherwise, never attempted. The states go through their
  textual names in the tables and back.
\<close>

theorem submitted_graph_reads_back:
  assumes "store_reachable ck show_uuid db" "store_submit spec now db = Some (db', Inr ())"
  shows "store_snapshot ck (ds_id spec) db' = Inr \<lparr>dsn_id = ds_id spec, dsn_jobs =
    map (\<lambda>job. \<lparr>sn_id = js_id job, sn_state = (if in_degree spec (js_id job) = 0 then Ready else Pending),
        sn_attempts = 0, sn_max_attempts = js_max_attempts job,
        sn_available_at_ms = unix_millis (timestamp_nanos now), sn_lease_owner = None,
        sn_lease_expires_at_ms = None, sn_result = None\<rparr>)
      (sort_key (\<lambda>job. ck (js_id job)) (ds_jobs spec))\<rparr>"
proof -
  note inv = db_inv_reachable [OF assms(1)]
  obtain order where v: "validate spec = Some (Inr order)"
    using assms(2) by (auto simp: store_submit_def split: option.splits sum.splits)
  from assms(2) [unfolded store_submit_eq [OF inv v]] have new: "ds_id spec \<notin> dg_id ` set (db_dags db)"
    and db': "db' = admitted_tables spec now db" by (auto split: if_splits)
  let ?row = "submitted_row (ds_id spec) (dependency_counts spec) now"
  have "filter (\<lambda>r. jb_dag_id r = ds_id spec) (db_jobs db) = []"
    using submitted_not_old [OF db_inv_tables [OF inv] new] by (simp add: filter_empty_conv)
  then have rows: "filter (\<lambda>r. jb_dag_id r = ds_id spec) (db_jobs db') = map ?row (ds_jobs spec)"
    by (simp add: db' admitted_tables_def submitted_row_s filter_map comp_def)
  have text_id: "pg_text (ds_id spec)"
    using validate_Inr_well_formed [OF v] identifier_text by (simp add: dag_well_formed_def identifier_check_iff policy_defs)
  have sorted: "sort_key (\<lambda>r. ck (jb_id r)) (map ?row jobs) = map ?row (sort_key (\<lambda>job. ck (js_id job)) jobs)" for jobs
    by (simp add: sort_key_of_map submitted_row_s)
  have "snapshot_of_row (?row job) = \<lparr>sn_id = js_id job, sn_state = (if in_degree spec (js_id job) = 0 then Ready else Pending),
        sn_attempts = 0, sn_max_attempts = js_max_attempts job, sn_available_at_ms = unix_millis (timestamp_nanos now),
        sn_lease_owner = None, sn_lease_expires_at_ms = None, sn_result = None\<rparr>" if "job \<in> set (ds_jobs spec)" for job
    using that by (simp add: snapshot_of_row_def snapshot_row_def submitted_row_s dependency_counts_get)
  then show ?thesis
    using store_snapshot_eq [OF db_inv_submit [OF inv assms(2)], of ck "ds_id spec"] text_id
    by (simp add: rows sorted) (simp add: db' admitted_tables_def)
qed

theorem submitted_graph_reads_back_witness:
  "map sn_id (dsn_jobs (projr (store_snapshot bytes ''release_demo'' pg_submitted))) = [''cooldown'', ''digest'', ''prepare'']"
proof -
  have "map js_id (sort_key (\<lambda>job. bytes (js_id job)) (ds_jobs release_demo)) = [''cooldown'', ''digest'', ''prepare'']"
    by code_simp
  moreover have "ds_id release_demo = ''release_demo''" by (simp add: release_demo_def)
  ultimately show ?thesis
    using submitted_graph_reads_back [OF reachable_pg(1) submit_pg] by (simp add: comp_def)
qed

section \<open>Claims and leases\<close>

lemma claim_grants_eligible:
  assumes "store_reachable ck show_uuid db" "store_claim ck show_uuid locked owner l token now db = (db', Inr granted)"
  defines "db1 \<equiv> fst (store_reap now db)"
  defines "eligible \<equiv> eligible_rows locked now db1"
  shows "case granted of
      None \<Rightarrow> eligible = [] \<and> db' = db1
    | Some cj \<Rightarrow> \<exists>r\<in>set eligible. (\<forall>r'\<in>set eligible. claim_order ck r \<le> claim_order ck r') \<and>
        cj_dag_id cj = jb_dag_id r \<and> cj_job_id cj = jb_id r \<and> kind_name (cj_kind cj) = jb_kind r \<and>
        cj_payload cj = jb_payload r \<and> int (cj_attempt cj) = jb_attempts r + 1 \<and> jb_attempts r < jb_max_attempts r \<and>
        cj_lease_token cj = show_uuid token \<and>
        db_jobs db' = map (\<lambda>r'. if r' = r then lease_row owner token l now r' else r') (db_jobs db1) \<and>
        db_events db' = db_events db @ [claimed_event owner now (lease_row owner token l now r)]"
proof -
  note inv = db_inv_reachable [OF assms(1)]
  have db1: "db1 = fst (reap_in_transaction now db)" by (simp add: db1_def store_reap_def)
  have rows: "eligible_rows locked now (fst (reap_in_transaction now db)) = eligible"
    by (simp add: eligible_def db1)
  have inv1: "db_inv db1" unfolding db1 by (rule db_inv_reap [OF inv])
  from inv assms(2) show ?thesis
  proof (cases rule: store_claim_cases)
    case nothing
    then show ?thesis by (simp add: rows db1)
  next
    case (granted r cj)
    note e = granted(3) [unfolded rows]
    have r: "r \<in> set (db_jobs db1)" using e by (simp add: eligible_def eligible_rows_def)
    have inv': "db_inv db'" using db_inv_claim [OF inv] assms(2) by (metis fst_conv)
    have jobs: "db_jobs db' = map (\<lambda>r'. if r' = r then lease_row owner token l now r' else r') (db_jobs db1)"
      using map_same_key [OF inv1 r, of "lease_row owner token l now"] by (simp add: granted(7) db1)
    have "lease_row owner token l now r \<in> set (db_jobs db')"
      unfolding jobs set_map by (rule image_eqI [OF _ r]) simp
    from db_inv_row [OF inv' this] have "jb_attempts r < jb_max_attempts r"
      by (simp add: row_inv_def lease_row_s)
    moreover note jobs
    moreover have "db_events db' = db_events db @ [claimed_event owner now (lease_row owner token l now r)]"
      by (simp add: granted(7))
    moreover have "\<forall>r'\<in>set eligible. claim_order ck r \<le> claim_order ck r'" using granted(4) [unfolded rows] by blast
    moreover have "granted = Some cj" using granted(6) by simp
    ultimately show ?thesis
      using claimed_row_fields [OF granted(5)] by (simp only: option.case) (intro bexI [OF _ e] conjI; simp)
  qed simp_all
qed

lemma eligible_rows_written_out:
  assumes "db_inv db"
  shows "eligible_rows locked now db = filter (\<lambda>r.
      (\<exists>g\<in>set (db_dags db). dg_id g = jb_dag_id r \<and> dg_state g = ''running'') \<and>
      jb_state r \<in> {''ready'', ''retry_wait''} \<and> jb_available_at r \<le> now \<and>
      (\<forall>p\<in>row_needs db (job_key r). row_status db p = Some Succeeded) \<and> \<not> locked (job_key r)) (db_jobs db)"
  unfolding eligible_rows_def
  by (rule filter_cong)
    (auto simp: candidate_row_def open_parent_blocked blocked_iff [OF db_inv_tables [OF assms]] job_key_def)

text \<open>
  C9. A claim hands out the best job there is. After expired leases have been requeued, the
  granted job is the first, by priority (highest first), availability and identifiers, among
  the ready or retrying jobs that are due, unlocked, and have every parent succeeded in a
  running DAG; its attempt is counted and stays within the limit, exactly its row is leased with
  the new token, and one audit event is written. When the answer is None, no job qualified, and
  only the requeueing took effect.
\<close>

theorem claim_grants_best_candidate:
  assumes "store_reachable ck show_uuid db" "store_claim ck show_uuid locked owner l token now db = (db', Inr granted)"
  defines "db1 \<equiv> fst (store_reap now db)"
  defines "eligible \<equiv> filter (\<lambda>r.
      (\<exists>g\<in>set (db_dags db1). dg_id g = jb_dag_id r \<and> dg_state g = ''running'') \<and>
      jb_state r \<in> {''ready'', ''retry_wait''} \<and> jb_available_at r \<le> now \<and>
      (\<forall>p\<in>row_needs db1 (job_key r). row_status db1 p = Some Succeeded) \<and> \<not> locked (job_key r)) (db_jobs db1)"
  shows "case granted of
      None \<Rightarrow> eligible = [] \<and> db' = db1
    | Some cj \<Rightarrow> \<exists>r\<in>set eligible.
        (\<forall>r'\<in>set eligible. (- jb_priority r, jb_available_at r, ck (jb_dag_id r), ck (jb_id r))
           \<le> (- jb_priority r', jb_available_at r', ck (jb_dag_id r'), ck (jb_id r'))) \<and>
        cj_dag_id cj = jb_dag_id r \<and> cj_job_id cj = jb_id r \<and> kind_name (cj_kind cj) = jb_kind r \<and>
        cj_payload cj = jb_payload r \<and> int (cj_attempt cj) = jb_attempts r + 1 \<and> jb_attempts r < jb_max_attempts r \<and>
        cj_lease_token cj = show_uuid token \<and>
        db_jobs db' = map (\<lambda>r'. if r' = r then r'\<lparr>jb_state := ''leased'', jb_attempts := jb_attempts r' + 1,
            jb_lease_owner := Some owner, jb_lease_token := Some token, jb_lease_expires_at := Some (now + l * 1000),
            jb_updated_at := now\<rparr> else r') (db_jobs db1) \<and>
        db_events db' = db_events db @ [\<lparr>ev_dag_id = jb_dag_id r, ev_job_id = jb_id r, ev_event_type = ''claimed'',
            ev_attempt = jb_attempts r + 1, ev_owner = owner, ev_occurred_at = now\<rparr>]"
proof -
  have "db_inv db1" unfolding db1_def store_reap_def by (rule db_inv_reap [OF db_inv_reachable [OF assms(1)]])
  then have eligible: "eligible_rows locked now db1 = eligible"
    unfolding eligible_def by (rule eligible_rows_written_out)
  from claim_grants_eligible [OF assms(1,2)] show ?thesis
    unfolding db1_def [symmetric] eligible claim_order_def lease_row_def claimed_event_def millisecond_def
    by (cases granted) simp_all
qed

theorem claim_grants_best_candidate_witness:
  "\<exists>r\<in>set (db_jobs pg_submitted). jb_id r = ''prepare'' \<and> jb_attempts r < jb_max_attempts r"
proof -
  have "fst (store_reap 2000000 pg_submitted) = pg_submitted" by code_simp
  with claim_grants_best_candidate [OF reachable_pg(2) claim_pg] show ?thesis by auto
qed



text \<open>
  C6. A worker that lost its lease is fenced off for good. Tokens are UUIDs and a new one is
  assumed never to have been drawn before; then a token that was drawn and is not in the job's
  row now will never be accepted again by complete, fail or heartbeat, whatever owner name, time
  or result it comes with.
\<close>

theorem stale_uuid_rejected_forever:
  assumes "(fenced_step ck show_uuid)\<^sup>*\<^sup>* (empty_database, {}) (db, used)" "token \<in> used"
    and "row_holder (db, used) (d, j) \<noteq> Some token" "(fenced_step ck show_uuid)\<^sup>*\<^sup>* (db, used) (db', used')"
  shows "fst (store_complete d j owner token result now db') = db' \<and>
    snd (store_complete d j owner token result now db') \<noteq> Inr () \<and>
    fst (store_fail d j owner token now db') = db' \<and> (\<forall>st. snd (store_fail d j owner token now db') \<noteq> Inr st) \<and>
    fst (store_heartbeat d j owner token l now db') = db' \<and> snd (store_heartbeat d j owner token l now db') \<noteq> Inr ()"
proof -
  have "fenced_inv (empty_database, {})" using db_inv_empty by (simp add: fenced_inv_def empty_database_def)
  then have inv: "fenced_inv (db, used)" by (rule pg_fence.inv_steps [OF assms(1)])
  have "fenced_inv (db', used')" by (rule pg_fence.inv_steps [OF assms(4) inv])
  then have inv': "db_inv db'" by (simp add: fenced_inv_def)
  have "row_holder (db', used') (d, j) \<noteq> Some token"
    using pg_fence.fenced [OF assms(4) inv _ assms(3)] assms(2) by (simp add: uuid_drawn_def)
  from not_holder_not_held [OF inv' this] have lost: "\<not> held d j owner token now db'" .
  obtain st where "store_fail d j owner token now db' =
    (if \<not> (pg_text d \<and> pg_text j \<and> pg_text owner) then (db', Inl (Database InvalidText))
     else if \<not> held d j owner token now db' then (db', Inl StoreLeaseConflict)
     else (insert_event d j (state_name st) owner now (update_jobs (held_row d j owner token now) (requeue_row now) db'), Inr st))"
    using store_fail_eq [OF inv'] by blast
  with lost show ?thesis by (simp add: heartbeat_eq_held [OF inv'] store_complete_eq [OF inv'])
qed

theorem stale_uuid_rejected_forever_witness:
  "snd (store_complete ''release_demo'' ''prepare'' worker 1 ''x'' 3000000 pg_failed) \<noteq> Inr ()"
  using stale_uuid_rejected_forever [OF fenced_pg(1) _ fenced_pg(2) rtranclp.rtrancl_refl] by simp

text \<open>
  C14. Concurrent claims are safe. However the statements of \<open>n\<close> claims interleave at READ COMMITTED,
  as long as no lease of the run expires while another claim of the run starts: no job is handed
  out twice, every claim that was answered with a job holds the lease of its row with its own
  owner, token and deadline, and when there are at least \<open>n\<close> jobs that each of the claims could
  take, nobody comes away empty-handed (the rows that others have locked are skipped, not waited for).
\<close>

theorem concurrent_claims_disjoint:
  assumes "store_reachable ck show_uuid db0"
    and "(claim_step ck n)\<^sup>*\<^sup>* (db0, \<lambda>k. begin_claim (calls k)) (db, S)"
    and "\<forall>k<n. \<forall>l<n. cl_now (calls l) < cl_now (calls k) + cl_lease_ms (calls k) * 1000"
  shows "(\<forall>k l i. cs_phase (S k) = Claimed (Some i) \<and> cs_phase (S l) = Claimed (Some i) \<longrightarrow> k = l) \<and>
    (\<forall>k i. cs_phase (S k) = Claimed (Some i) \<longrightarrow> (\<exists>r. job_row_at db i = Some r \<and> jb_state r = ''leased'' \<and>
       jb_lease_owner r = Some (cl_owner (calls k)) \<and> jb_lease_token r = Some (cl_token (calls k)) \<and>
       jb_lease_expires_at r = Some (cl_now (calls k) + cl_lease_ms (calls k) * 1000))) \<and>
    (n \<le> card {i. \<exists>r. job_row_at db0 i = Some r \<and> (\<forall>k<n. candidate_row (cl_now (calls k)) db0 r)} \<longrightarrow>
       (\<forall>k. cs_phase (S k) \<noteq> Claimed None))"
proof -
  have "fresh_leases calls n" using assms(3) by (simp add: fresh_leases_def millisecond_def)
  from claim_run [OF assms(2) db_inv_tables [OF db_inv_reachable [OF assms(1)]] this]
  have inv: "claims_inv n calls db S" and all: "n \<le> card (claimable_rows calls n db0) \<longrightarrow> nobody_empty S" by blast+
  note D = claims_invD [OF inv]
  have "k = l" if "cs_phase (S k) = Claimed (Some i)" "cs_phase (S l) = Claimed (Some i)" for k l i
    using D(12) [of k l i] that by (cases "k = l") simp_all
  moreover have "\<exists>r. job_row_at db i = Some r \<and> jb_state r = ''leased'' \<and>
       jb_lease_owner r = Some (cl_owner (calls k)) \<and> jb_lease_token r = Some (cl_token (calls k)) \<and>
       jb_lease_expires_at r = Some (cl_now (calls k) + cl_lease_ms (calls k) * 1000)"
    if "cs_phase (S k) = Claimed (Some i)" for k i
    using D(10) [OF that] by (simp add: lease_of_def millisecond_def state_name_def)
  ultimately show ?thesis using all unfolding claimable_rows_def nobody_empty_def by blast
qed

theorem concurrent_claims_disjoint_witness:
  "\<exists>db S. (claim_step bytes 2)\<^sup>*\<^sup>* (forked_3, \<lambda>k. begin_claim (race_call k)) (db, S) \<and>
     cs_phase (S 0) = Claimed (Some (''diamond'', ''b'')) \<and> cs_phase (S 1) = Claimed (Some (''diamond'', ''c'')) \<and>
     (\<exists>r. job_row_at db (''diamond'', ''b'') = Some r \<and> jb_lease_owner r = Some worker) \<and> cs_phase (S 1) \<noteq> Claimed None"
proof -
  from race_runs obtain db S where run: "(claim_step bytes 2)\<^sup>*\<^sup>* (forked_3, \<lambda>k. begin_claim (race_call k)) (db, S)"
    and S: "cs_phase (S 0) = Claimed (Some (''diamond'', ''b''))" "cs_phase (S 1) = Claimed (Some (''diamond'', ''c''))" by blast
  have "\<forall>k<2. \<forall>l<2. cl_now (race_call l) < cl_now (race_call k) + cl_lease_ms (race_call k) * 1000"
    by (simp add: race_call_def)
  note C = concurrent_claims_disjoint [OF reachable_forked_3 run this]
  have "\<exists>r. job_row_at db (''diamond'', ''b'') = Some r \<and> jb_lease_owner r = Some worker"
    using C [THEN conjunct2, THEN conjunct1, rule_format, OF S(1)] by (auto simp: race_call_def)
  moreover have "cs_phase (S 1) \<noteq> Claimed None"
    using C [THEN conjunct2, THEN conjunct2] race_claimable unfolding claimable_rows_def by blast
  ultimately show ?thesis using run S by blast
qed

section \<open>Completions\<close>

lemma completion_rows:
  assumes "store_reachable ck show_uuid db" "store_complete d j owner token result now db = (db', Inr ())"
  shows "\<exists>c\<in>set (db_jobs db). held_row d j owner token now c \<and>
    db_jobs db' = map (\<lambda>r.
      if job_key r = (d, j) then succeed_row result now r
      else if jb_dag_id r = d \<and> jb_state r = ''pending'' \<and> (d, j) \<in> row_needs db (job_key r) \<and>
        (\<forall>p\<in>row_needs db (job_key r). p = (d, j) \<or> row_status db p = Some Succeeded) then release_row now r
      else r) (db_jobs db) \<and>
    db_dags db' = db_dags db \<and> db_dependencies db' = db_dependencies db \<and>
    db_events db' = db_events db @ [\<lparr>ev_dag_id = d, ev_job_id = j, ev_event_type = ''succeeded'',
      ev_attempt = jb_attempts c, ev_owner = owner, ev_occurred_at = now\<rparr>]"
proof -
  note inv = db_inv_reachable [OF assms(1)]
  let ?db2 = "release_statement d j now (marked d j owner token result now db)"
  from assms(2) have held: "held d j owner token now db" "length result \<le> 4096"
    and db': "db' = insert_event d j ''succeeded'' owner now ?db2"
    by (simp_all add: store_complete_eq [OF inv] split: if_splits)
  from held(1) obtain c where c: "c \<in> set (db_jobs db)" "held_row d j owner token now c" by (auto simp: held_def)
  then have key: "job_key c = (d, j)" using held_row_leased by blast
  have rows: "db_jobs ?db2 = completed_rows d j result now db" by (rule completed_tables [OF inv c])
  have "succeed_row result now c \<in> set (db_jobs ?db2)"
    unfolding rows by (rule succeeded_row_mem [OF c(1) key])
  from filter_unique_key [OF _ this, of job_key] db_inv_tables [OF db_inv_completed [OF inv held]] key
  have "filter (\<lambda>r. job_key r = (d, j)) (db_jobs ?db2) = [succeed_row result now c]" by (simp add: tables_ok_def)
  then have "filter (\<lambda>r. jb_dag_id r = d \<and> jb_id r = j) (db_jobs ?db2) = [succeed_row result now c]"
    by (simp add: job_key_def)
  moreover have "db_events ?db2 = db_events db" "db_dags ?db2 = db_dags db" "db_dependencies ?db2 = db_dependencies db"
    by (simp_all add: release_statement_def marked_def)
  moreover have "jb_attempts (succeed_row result now c) = jb_attempts c" by (simp add: succeed_row_def)
  ultimately show ?thesis
    using c key rows by (intro bexI [OF _ c(1)]) (simp add: db' insert_event_def completed_rows_def job_key_def)
qed

text \<open>
  C3. A completion commits the result and releases exactly the children it unblocks. The
  leased row of the caller succeeds; of the other rows exactly the pending children of that job
  whose other parents have all succeeded become ready; nothing else in the tables changes, and
  one audit event records the attempt.
\<close>

theorem completion_releases_exactly:
  assumes "store_reachable ck show_uuid db" "store_complete d j owner token result now db = (db', Inr ())"
  shows "\<exists>c\<in>set (db_jobs db). job_key c = (d, j) \<and> jb_state c = ''leased'' \<and> jb_lease_owner c = Some owner \<and>
      jb_lease_token c = Some token \<and> (\<exists>t. jb_lease_expires_at c = Some t \<and> now < t) \<and>
    db_jobs db' = map (\<lambda>r.
      if job_key r = (d, j) then r\<lparr>jb_state := ''succeeded'', jb_result := Some result, jb_lease_owner := None,
        jb_lease_token := None, jb_lease_expires_at := None, jb_updated_at := now\<rparr>
      else if jb_dag_id r = d \<and> jb_state r = ''pending'' \<and> (d, j) \<in> row_needs db (job_key r) \<and>
        (\<forall>p\<in>row_needs db (job_key r). p = (d, j) \<or> row_status db p = Some Succeeded)
      then r\<lparr>jb_state := ''ready'', jb_available_at := now, jb_updated_at := now\<rparr>
      else r) (db_jobs db) \<and>
    db_dags db' = db_dags db \<and> db_dependencies db' = db_dependencies db \<and>
    db_events db' = db_events db @ [\<lparr>ev_dag_id = d, ev_job_id = j, ev_event_type = ''succeeded'',
      ev_attempt = jb_attempts c, ev_owner = owner, ev_occurred_at = now\<rparr>]"
proof -
  from completion_rows [OF assms] obtain c where c: "c \<in> set (db_jobs db)" "held_row d j owner token now c"
    and rows: "db_jobs db' = map (\<lambda>r.
      if job_key r = (d, j) then succeed_row result now r
      else if jb_dag_id r = d \<and> jb_state r = ''pending'' \<and> (d, j) \<in> row_needs db (job_key r) \<and>
        (\<forall>p\<in>row_needs db (job_key r). p = (d, j) \<or> row_status db p = Some Succeeded) then release_row now r
      else r) (db_jobs db)"
    and rest: "db_dags db' = db_dags db" "db_dependencies db' = db_dependencies db"
      "db_events db' = db_events db @ [\<lparr>ev_dag_id = d, ev_job_id = j, ev_event_type = ''succeeded'',
        ev_attempt = jb_attempts c, ev_owner = owner, ev_occurred_at = now\<rparr>]" by blast
  have "job_key c = (d, j)" "jb_state c = ''leased''" "jb_lease_owner c = Some owner" "jb_lease_token c = Some token"
    "\<exists>t. jb_lease_expires_at c = Some t \<and> now < t"
    using c(2) by (auto simp: held_row_def job_key_def split: option.splits)
  then show ?thesis by (intro bexI [OF _ c(1)] conjI rest rows [unfolded succeed_row_def release_row_def])
qed

theorem completion_releases_exactly_witness:
  "\<exists>c\<in>set (db_jobs pg_claimed). jb_id c = ''prepare'' \<and> jb_lease_owner c = Some worker \<and>
     length (db_jobs pg_completed) = length (db_jobs pg_claimed)"
  using completion_releases_exactly [OF reachable_pg(3) complete_pg] by (auto simp: job_key_def)

section \<open>Submissions and errors\<close>

text \<open>
  C37. What a submission does is decided in this order: an invalid graph is answered with its
  validation error; an identifier that is already taken violates the primary key; a payload with
  a zero byte cannot be stored as text; and a graph that lists a dependency twice, although
  \<open>validate\<close> accepts it, violates the primary key of the dependency table. Otherwise the graph,
  its jobs and its edges are added, and nothing else changes. A row of a job holds the fields of
  its specification, no attempt, no lease and no result, is available now, and is ready exactly
  when no edge of the graph ends in it, else pending. In every other case the tables stay as they
  were.
\<close>

theorem store_submission_decided:
  assumes "store_reachable ck show_uuid db"
  shows "store_submit spec now db = Some
    (case the (validate spec) of
       Inl e \<Rightarrow> (db, Inl (StoreValidation e))
     | Inr order \<Rightarrow>
       if ds_id spec \<in> dg_id ` set (db_dags db) then (db, Inl (Database UniqueViolation))
       else if \<exists>job\<in>set (ds_jobs spec). CHR 0x00 \<in> set (js_payload job) then (db, Inl (Database InvalidText))
       else if \<not> distinct (ds_dependencies spec) then (db, Inl (Database UniqueViolation))
       else (db\<lparr>db_dags := db_dags db @ [\<lparr>dg_id = ds_id spec, dg_state = ''running'', dg_updated_at = now\<rparr>],
                db_jobs := db_jobs db @ map (\<lambda>job.
                  \<lparr>jb_dag_id = ds_id spec, jb_id = js_id job,
                   jb_kind = (case js_kind job of Delay \<Rightarrow> ''delay'' | Checksum \<Rightarrow> ''checksum'' | Uppercase \<Rightarrow> ''uppercase''),
                   jb_payload = js_payload job, jb_max_attempts = int (js_max_attempts job), jb_attempts = 0,
                   jb_priority = js_priority job,
                   jb_state = (if in_degree spec (js_id job) = 0 then ''ready'' else ''pending''),
                   jb_available_at = now, jb_lease_owner = None, jb_lease_token = None, jb_lease_expires_at = None,
                   jb_result = None, jb_updated_at = now\<rparr>) (ds_jobs spec),
                db_dependencies := db_dependencies db @
                  map (\<lambda>e. \<lparr>dp_dag_id = ds_id spec, dp_parent_id = dep_from e, dp_child_id = dep_to e\<rparr>) (ds_dependencies spec)\<rparr>,
             Inr ()))"
proof -
  obtain v where v: "validate spec = Some v" using validate_total by blast
  show ?thesis
  proof (cases v)
    case (Inl e)
    with v show ?thesis by (simp add: store_submit_def)
  next
    case (Inr order)
    with v have "validate spec = Some (Inr order)" by simp
    have rows: "map (submitted_row (ds_id spec) (dependency_counts spec) now) (ds_jobs spec) = map (\<lambda>job.
        \<lparr>jb_dag_id = ds_id spec, jb_id = js_id job,
         jb_kind = (case js_kind job of Delay \<Rightarrow> ''delay'' | Checksum \<Rightarrow> ''checksum'' | Uppercase \<Rightarrow> ''uppercase''),
         jb_payload = js_payload job, jb_max_attempts = int (js_max_attempts job), jb_attempts = 0,
         jb_priority = js_priority job,
         jb_state = (if in_degree spec (js_id job) = 0 then ''ready'' else ''pending''),
         jb_available_at = now, jb_lease_owner = None, jb_lease_token = None, jb_lease_expires_at = None,
         jb_result = None, jb_updated_at = now\<rparr>) (ds_jobs spec)"
      by (rule map_cong) (simp_all add: submitted_row_def dependency_counts_get kind_name_def)
    from store_submit_eq [OF db_inv_reachable [OF assms] \<open>validate spec = Some (Inr order)\<close>] show ?thesis
      using v Inr rows by (simp add: admitted_tables_def edge_row_def [abs_def] pg_text_def)
  qed
qed

theorem store_submission_decided_witness:
  "store_submit release_demo 5 pg_submitted = Some (pg_submitted, Inl (Database UniqueViolation))"
proof -
  have "ds_id release_demo \<in> dg_id ` set (db_dags pg_submitted)" by code_simp
  with store_submission_decided [OF reachable_pg(2), of release_demo 5] validate_release_demo show ?thesis by simp
qed

text \<open>
  An error is a rollback: whatever method answers with an error, on any reachable database,
  the tables are the ones before the call, also when some statements of the transaction had
  already run.
\<close>

theorem store_errors_roll_back:
  assumes "store_reachable ck show_uuid db" "store_step ck show_uuid db e (DbRejected err) db'"
  shows "db' = db"
proof -
  note inv = db_inv_reachable [OF assms(1)]
  have rej: "\<exists>e. r = Inl e" if "DbRejected err = db_reply_of f r" "\<And>x. f x \<noteq> DbRejected err" for f :: "'a \<Rightarrow> store_reply" and r
    using that by (cases r) (auto simp: db_reply_of_def)
  show ?thesis using assms(2)
  proof (cases rule: store_step.cases)
    case (db_submit spec now r)
    from rej [OF db_submit(2)] obtain e where "r = Inl e" by auto
    with db_submit(3) show ?thesis by (auto simp: store_submit_def transaction_def split: option.splits sum.splits)
  next
    case (db_claim locked owner l token now r)
    from rej [OF db_claim(2)] obtain e where "r = Inl e" by auto
    with db_claim(3) show ?thesis by (auto simp: store_claim_def transaction_def split: option.splits sum.splits prod.splits)
  next
    case (db_heartbeat d j owner token l now r)
    from rej [OF db_heartbeat(2)] obtain e where "r = Inl e" by auto
    with db_heartbeat(3) show ?thesis by (auto simp: heartbeat_eq_held [OF inv] split: if_splits)
  next
    case (db_complete d j owner token result now r)
    from rej [OF db_complete(2)] obtain e where "r = Inl e" by auto
    with db_complete(3) show ?thesis by (auto simp: store_complete_eq [OF inv] split: if_splits)
  next
    case (db_fail d j owner token now r)
    from rej [OF db_fail(2)] obtain e where "r = Inl e" by auto
    with db_fail(3) show ?thesis by (auto simp: store_fail_def transaction_def split: sum.splits)
  next
    case (db_cancel d now r)
    from rej [OF db_cancel(2)] obtain e where "r = Inl e" by auto
    with db_cancel(3) show ?thesis by (auto simp: store_cancel_eq split: if_splits)
  qed
qed

theorem store_errors_roll_back_witness:
  "fst (store_complete ''release_demo'' ''prepare'' worker 1 ''x'' 3000000 pg_failed) = pg_failed"
proof (rule store_errors_roll_back [OF reachable_pg(5)])
  have "snd (store_complete ''release_demo'' ''prepare'' worker 1 ''x'' 3000000 pg_failed) = Inl StoreLeaseConflict"
    by code_simp
  then show "store_step bytes demo_uuid pg_failed (DbComplete ''release_demo'' ''prepare'' worker 1 ''x'' 3000000)
      (DbRejected StoreLeaseConflict) (fst (store_complete ''release_demo'' ''prepare'' worker 1 ''x'' 3000000 pg_failed))"
    using store_step_result(2) [of bytes demo_uuid pg_failed "''release_demo''" "''prepare''" worker 1 "''x''" 3000000]
    by (simp add: db_reply_of_def)
qed

section \<open>Histories\<close>

text \<open>
  C15. Two workers that complete two parents of a job at the same time can strand the job. Take
  two live leases on the only open parents of a pending job, and completions with arguments the
  method accepts (a result within 4096 bytes, no zero byte in a text). At the database's default isolation each transaction still sees the other parent as leased when
  it looks for children to release, so neither releases the common child; both calls succeed.
  The child then stays pending in every later state, whatever is called, until somebody cancels
  the graph, although all its parents have succeeded. (In a serial history this cannot happen:
  there a pending job always has an open parent.)
\<close>

theorem racing_completions_strand_child:
  assumes "store_reachable ck show_uuid db" "cp_job a \<noteq> cp_job b"
    and "held d (cp_job a) (cp_owner a) (cp_token a) (cp_now a) db" "held d (cp_job b) (cp_owner b) (cp_token b) (cp_now b) db"
    and "row_status db (d, c) = Some Pending" "{(d, cp_job a), (d, cp_job b)} \<subseteq> row_needs db (d, c)"
    and "\<forall>q\<in>row_needs db (d, c). q = (d, cp_job a) \<or> q = (d, cp_job b) \<or> row_status db q = Some Succeeded"
    and "completion_ok d a" "completion_ok d b"
  shows "\<exists>db' s t. (race_step d)\<^sup>*\<^sup>* (db, begin_session a, begin_session b) (db', s, t) \<and>
    ss_phase s = Committed \<and> ss_phase t = Committed \<and>
    row_status db' (d, cp_job a) = Some Succeeded \<and> row_status db' (d, cp_job b) = Some Succeeded \<and>
    (\<forall>db''. store_runs ck show_uuid db' db'' \<longrightarrow>
       row_status db'' (d, c) = Some Pending \<or> row_status db'' (d, c) = Some Cancelled)"
proof -
  note inv = db_inv_reachable [OF assms(1)]
  obtain ra where ra: "ra \<in> set (db_jobs db)" "call_held d a ra" using assms(3) held_call by blast
  obtain rb where rb: "rb \<in> set (db_jobs db)" "call_held d b rb" using assms(4) held_call by blast
  have edges: "(d, cp_job a) \<in> row_needs db (d, c)" "(d, cp_job b) \<in> row_needs db (d, c)" using assms(6) by simp_all
  let ?db' = "after_race d a b db"
  have others: "row_status db q = Some Succeeded"
    if "q \<in> row_needs db (d, c)" "q \<noteq> (d, cp_job a)" "q \<noteq> (d, cp_job b)" for q
    using assms(7) that by blast
  note race = race_strands [OF inv ra rb assms(8,9,2,5) edges others]
  have "row_status db'' (d, c) = Some Pending \<or> row_status db'' (d, c) = Some Cancelled"
    if "store_runs ck show_uuid ?db' db''" for db''
    by (rule stranded_status [OF stranded_runs [OF that race(5)]])
  moreover have "ss_phase (session_at a Committed Map.empty) = Committed" "ss_phase (session_at b Committed Map.empty) = Committed"
    by (simp_all add: session_at_def)
  ultimately show ?thesis using race(1-3) by blast
qed

theorem racing_completions_strand_child_witness:
  "\<exists>db' s t. (race_step ''diamond'')\<^sup>*\<^sup>*
      (forked, begin_session \<lparr>cp_job = ''b'', cp_owner = worker, cp_token = 3, cp_result = ''SAFE'', cp_now = 6000000\<rparr>,
       begin_session \<lparr>cp_job = ''c'', cp_owner = ''worker-2'', cp_token = 4, cp_result = ''SAFE'', cp_now = 6000000\<rparr>) (db', s, t) \<and>
    ss_phase s = Committed \<and> ss_phase t = Committed \<and> row_status db' (''diamond'', ''b'') = Some Succeeded"
proof -
  let ?a = "\<lparr>cp_job = ''b'', cp_owner = worker, cp_token = 3, cp_result = ''SAFE'', cp_now = 6000000\<rparr>"
  let ?b = "\<lparr>cp_job = ''c'', cp_owner = ''worker-2'', cp_token = 4, cp_result = ''SAFE'', cp_now = 6000000\<rparr>"
  have sel: "cp_job ?a = ''b''" "cp_job ?b = ''c''" "cp_owner ?a = worker" "cp_owner ?b = ''worker-2''"
    "cp_token ?a = 3" "cp_token ?b = 4" "cp_now ?a = 6000000" "cp_now ?b = 6000000" by simp_all
  have "held ''diamond'' ''b'' worker 3 6000000 forked" "held ''diamond'' ''c'' ''worker-2'' 4 6000000 forked"
    "row_status forked (''diamond'', ''d'') = Some Pending" by code_simp+
  moreover have "row_needs forked (''diamond'', ''d'') = {(''diamond'', ''b''), (''diamond'', ''c'')}"
  proof -
    have "set (db_dependencies forked) = set (map (edge_row ''diamond'') (ds_dependencies diamond))" by code_simp
    then show ?thesis by (auto simp: row_needs_def edge_row_def diamond_def example_edge_def)
  qed
  moreover have "cp_job ?a \<noteq> cp_job ?b" by simp
  moreover have "completion_ok ''diamond'' ?a" "completion_ok ''diamond'' ?b" by code_simp+
  ultimately show ?thesis
    using racing_completions_strand_child [OF reachable_forked, of ?a ?b "''diamond''" "''d''"] unfolding sel by blast
qed

text \<open>
  The two implementations retry alike. With the scheduler's default configuration a failed
  or expired job becomes dead-lettered in one exactly when it does in the other; otherwise the
  base delay is the same, and the in-memory scheduler only adds its jitter of at most a fifth.
\<close>

theorem retry_policies_agree:
  assumes "job_at s d j = Some job" "sc_config s = default_config"
    and "jb_attempts r = int (jr_attempts job)" "jb_max_attempts r = int (js_max_attempts (jr_spec job))"
    and "is_i64 t" "t + 72000 \<le> I64_MAX"
  shows "backoff_ms (jb_attempts r) = retry_delay (sc_config s) (jr_attempts job) \<and>
    (\<exists>job'. job_at (fst (retry_or_dead_letter d j t s)) d j = Some job' \<and>
      jb_state (requeue_row (t * millisecond) r) = state_name (jr_state job') \<and>
      (jr_state job' = RetryWait \<longrightarrow>
        jb_available_at (requeue_row (t * millisecond) r) = (t + retry_delay (sc_config s) (jr_attempts job)) * millisecond \<and>
        t + retry_delay (sc_config s) (jr_attempts job) \<le> jr_available_at_ms job' \<and>
        jr_available_at_ms job' \<le> t + retry_delay (sc_config s) (jr_attempts job) + retry_delay (sc_config s) (jr_attempts job) div 5))"
proof -
  let ?a = "jr_attempts job" and ?job' = "requeued (sc_config s) j t job"
  let ?delay = "retry_delay (sc_config s) (jr_attempts job)"
  have delay: "backoff_ms (jb_attempts r) = ?delay" by (simp add: assms(2,3) backoff_agrees)
  have at: "job_at (fst (retry_or_dead_letter d j t s)) d j = Some ?job'"
    by (simp add: retry_or_dead_letter_eq [OF assms(1)] assms(1))
  have dead: "jb_max_attempts r \<le> jb_attempts r \<longleftrightarrow> js_max_attempts (jr_spec job) \<le> ?a" by (simp add: assms(3,4))
  have "jb_state (requeue_row (t * millisecond) r) = state_name (jr_state ?job')"
    by (simp add: requeue_row_s requeued_def dead)
  moreover have "jb_available_at (requeue_row (t * millisecond) r) = (t + ?delay) * millisecond \<and>
      t + ?delay \<le> jr_available_at_ms ?job' \<and> jr_available_at_ms ?job' \<le> t + ?delay + ?delay div 5"
    if "jr_state ?job' = RetryWait"
  proof -
    have live: "\<not> js_max_attempts (jr_spec job) \<le> ?a" using that by (auto simp: requeued_def split: if_splits)
    then have "jr_available_at_ms ?job' = retry_at (sc_config s) j ?a t" by (simp add: requeued_def)
    moreover have "jb_available_at (requeue_row (t * millisecond) r) = (t + ?delay) * millisecond"
      using live by (simp add: requeue_row_s dead delay algebra_simps)
    ultimately show ?thesis using default_retry_bounds [OF assms(5,6), of ?a j] by (simp add: assms(2))
  qed
  ultimately show ?thesis using at delay by blast
qed

theorem retry_policies_agree_witness: "backoff_ms 1 = retry_delay default_config 1"
proof -
  obtain job where job: "job_at demo_claimed ''release_demo'' ''prepare'' = Some job" by (cases "job_at demo_claimed ''release_demo'' ''prepare''") (use demo_job_states(3) in auto)
  have "map_option jr_attempts (job_at demo_claimed ''release_demo'' ''prepare'') = Some 1"
    "map_option (js_max_attempts \<circ> jr_spec) (job_at demo_claimed ''release_demo'' ''prepare'') = Some 3"
    "sc_config demo_claimed = default_config" by code_simp+
  with job have f: "jr_attempts job = 1" "js_max_attempts (jr_spec job) = 3" "sc_config demo_claimed = default_config" by simp_all
  obtain r where "job_row_at pg_claimed (''release_demo'', ''prepare'') = Some r"
    by (cases "job_row_at pg_claimed (''release_demo'', ''prepare'')") (use pg_status(3) in \<open>auto simp: row_status_def\<close>)
  moreover have "map_option jb_attempts (job_row_at pg_claimed (''release_demo'', ''prepare'')) = Some 1"
    "map_option jb_max_attempts (job_row_at pg_claimed (''release_demo'', ''prepare'')) = Some 3" by code_simp+
  ultimately have r: "jb_attempts r = 1" "jb_max_attempts r = 3" by simp_all
  from retry_policies_agree [OF job, of r 2000] f r show ?thesis by (simp add: is_i64_def machine_constants)
qed

text \<open>
  C11. The rows of the store refine the abstract lifecycle, the one the in-memory scheduler
  refines too: in every history a job only moves along it, keeps its specification, and its
  attempt counter grows at most up to its limit; a row that has succeeded, was dead-lettered or
  cancelled never changes again; and a job that was started has all its parents succeeded.
\<close>

theorem rows_follow_lifecycle:
  assumes "store_reachable ck show_uuid db" "store_runs ck show_uuid db db'"
    and "job_row_at db i = Some r" "row_status db i = Some st"
  shows "\<exists>r' st'. job_row_at db' i = Some r' \<and> row_status db' i = Some st' \<and> lifecycle\<^sup>*\<^sup>* st st' \<and>
    jb_kind r' = jb_kind r \<and> jb_payload r' = jb_payload r \<and> jb_max_attempts r' = jb_max_attempts r \<and>
    jb_priority r' = jb_priority r \<and> jb_attempts r \<le> jb_attempts r' \<and> jb_attempts r' \<le> jb_max_attempts r \<and>
    (is_terminal st \<longrightarrow> r' = r) \<and>
    (st' \<noteq> Pending \<and> st' \<noteq> Cancelled \<longrightarrow> (\<forall>p\<in>row_needs db i. row_status db' p = Some Succeeded))"
proof -
  note inv = db_inv_reachable [OF assms(1)]
  note steps = store_runs_steps [OF assms(2)]
  have inv': "db_inv db'" by (rule db_inv_runs [OF assms(2) inv])
  from store_runs_row [OF assms(2) db_inv_tables [OF inv] assms(3)] obtain r' where
    r': "job_row_at db' i = Some r'" "row_steps UNIV r r'" by blast
  from store_board.status_steps [OF steps inv assms(4)] obtain st' where
    st': "row_status db' i = Some st'" "lifecycle\<^sup>*\<^sup>* st st'" by blast
  have st: "jb_state r = state_name st" using assms(3,4) by (simp add: row_status_iff)
  have "jb_attempts r' \<le> jb_max_attempts r'"
    using db_inv_row [OF inv'] job_row_at_mem [OF r'(1)] by (auto simp: row_inv_def)
  moreover have "is_terminal st \<longrightarrow> r' = r"
    using row_steps_finished [OF r'(2)] by (cases st) (simp_all add: st terminal_name_def)
  moreover have "row_status db' p = Some Succeeded" if "st' \<noteq> Pending" "st' \<noteq> Cancelled" "p \<in> row_needs db i" for p
    using store_board.started_after_parents [OF steps inv _ that(3) st'(1) that(1,2)] assms(4) by simp
  ultimately show ?thesis using r' st' row_steps_frame [OF r'(2)] by auto
qed

theorem rows_follow_lifecycle_witness: "lifecycle\<^sup>*\<^sup>* Leased Succeeded"
proof -
  from pg_status(3) obtain r where "job_row_at pg_claimed (''release_demo'', ''prepare'') = Some r"
    by (auto simp: row_status_iff)
  from rows_follow_lifecycle [OF reachable_pg(3) runs_pg_completed this pg_status(3)] pg_status(4) show ?thesis by auto
qed

text \<open>
  A parent that can no longer succeed stops its children: once a job was dead-lettered or
  cancelled, every job that depends on it is pending or cancelled in every later state; it is
  never handed to a worker.
\<close>

theorem dead_parent_strands_children:
  assumes "store_reachable ck show_uuid db" "store_runs ck show_uuid db db'"
    and "row_status db p = Some DeadLettered \<or> row_status db p = Some Cancelled"
    and "p \<in> row_needs db i" "row_status db i \<noteq> None"
  shows "row_status db' i = Some Pending \<or> row_status db' i = Some Cancelled"
proof -
  from assms(3) obtain st where "row_status db p = Some st" "is_terminal st" "st \<noteq> Succeeded" by auto
  from store_board.dead_parent_blocks [OF store_runs_steps [OF assms(2)] db_inv_reachable [OF assms(1)] assms(5,4) this]
  show ?thesis .
qed

theorem dead_parent_strands_children_witness:
  "row_status pg_cancelled (''release_demo'', ''digest'') = Some Pending \<or>
   row_status pg_cancelled (''release_demo'', ''digest'') = Some Cancelled"
proof (rule dead_parent_strands_children [OF reachable_pg(6) store_runs_refl])
  show "row_status pg_cancelled (''release_demo'', ''prepare'') = Some DeadLettered \<or>
      row_status pg_cancelled (''release_demo'', ''prepare'') = Some Cancelled" using pg_status(7) by simp
  have "\<lparr>dp_dag_id = ''release_demo'', dp_parent_id = ''prepare'', dp_child_id = ''digest''\<rparr> \<in> set (db_dependencies pg_cancelled)"
    "row_status pg_cancelled (''release_demo'', ''digest'') = Some Cancelled" by code_simp+
  then show "(''release_demo'', ''prepare'') \<in> row_needs pg_cancelled (''release_demo'', ''digest'')"
    "row_status pg_cancelled (''release_demo'', ''digest'') \<noteq> None" by (simp_all add: row_needs_def)
qed

section \<open>Listing\<close>

text \<open>
  C40. Paging through the graphs is complete: a client that starts without a cursor and always
  asks for the page after the last identifier it got sees every graph exactly once, in the
  order of the database, and its loop ends, whatever the page size from 1 to 100. The collation
  is assumed to tell different identifiers apart and to put the empty text first.
\<close>

theorem pages_enumerate_dags:
  assumes "store_reachable ck show_uuid db" "1 \<le> limit" "limit \<le> 100"
    and "inj ck" "\<forall>i. i \<noteq> [] \<longrightarrow> ck [] < ck i" "length (db_dags db) < fuel"
  shows "list_pages ck limit db fuel None = sort_key ck (map dg_id (db_dags db)) \<and>
    distinct (list_pages ck limit db fuel None) \<and> set (list_pages ck limit db fuel None) = dg_id ` set (db_dags db)"
proof -
  have "list_pages ck limit db fuel None = sort_key ck (map dg_id (db_dags db))"
    by (rule list_pages_all [OF assms(2,3,1,4) _ assms(6)]) (use assms(5) in blast)
  moreover have "distinct (map dg_id (db_dags db))"
    using db_inv_tables [OF db_inv_reachable [OF assms(1)]] by (simp add: tables_ok_def)
  ultimately show ?thesis by simp
qed

theorem pages_enumerate_dags_witness: "list_pages bytes 1 pg_submitted 3 None = [''release_demo'']"
proof -
  have ck: "inj bytes" "\<forall>i. i \<noteq> [] \<longrightarrow> bytes [] < bytes i"
    by (auto simp: inj_def bytes_def neq_Nil_conv)
  have "map dg_id (db_dags pg_submitted) = [''release_demo'']" by code_simp
  then have dags: "sort_key bytes (map dg_id (db_dags pg_submitted)) = [''release_demo'']" "length (db_dags pg_submitted) < 3"
    using arg_cong [of _ _ length] by (simp, fastforce)
  from pages_enumerate_dags [OF reachable_pg(2) _ _ ck dags(2), of 1] dags(1) show ?thesis by simp
qed

end
