(* ===== verification/Concurrency.thy ===== *)
theory Concurrency
  imports StoreAnswers
begin

text \<open>
  Any number of store calls at the same time, row by row. A call is its list of SQL statements. A
  statement takes a snapshot of what its session sees (the committed tables and the session's own
  writes), collects the rows its \<open>WHERE\<close> clause selects there, and then visits them one at a time:
  it waits while another session has the row locked, evaluates the clause again on the version it
  then finds (subqueries still read the snapshot, as PostgreSQL does at READ COMMITTED), and writes
  and locks the row or passes on. The claim visits its candidates in their order and skips locked
  rows instead of waiting. Locks are held until the session commits or is rolled back, which can
  happen to it at any time (a refused compare-and-set, a deadlock, a lost connection). A
  submission only inserts rows of a graph that nobody sees before it commits, and is one step.
\<close>

section \<open>Calls and their statements\<close>

datatype tx_call =
    CallClaim byte_string int uuid timestamp
  | CallHeartbeat byte_string byte_string byte_string uuid int timestamp
  | CallComplete byte_string byte_string byte_string uuid byte_string timestamp
  | CallFail byte_string byte_string byte_string uuid timestamp
  | CallReap timestamp
  | CallCancel byte_string timestamp

datatype statement =
    ReapExpired timestamp
  | TakeJob byte_string int uuid timestamp
  | RenewLease byte_string byte_string byte_string uuid int timestamp
  | MarkSucceeded byte_string byte_string byte_string uuid byte_string timestamp
  | ReleaseChildren byte_string byte_string timestamp
  | RequeueHeld byte_string byte_string byte_string uuid timestamp
  | CloseDag byte_string timestamp
  | CancelRows byte_string timestamp

fun statements :: "tx_call \<Rightarrow> statement list" where
  "statements (CallClaim owner l token now) = [ReapExpired now, TakeJob owner l token now]"
| "statements (CallHeartbeat d j owner token l now) = [RenewLease d j owner token l now]"
| "statements (CallComplete d j owner token result now) = [MarkSucceeded d j owner token result now, ReleaseChildren d j now]"
| "statements (CallFail d j owner token now) = [RequeueHeld d j owner token now]"
| "statements (CallReap now) = [ReapExpired now]"
| "statements (CallCancel d now) = [CloseDag d now, CancelRows d now]"

text \<open>The checks on the arguments before the first statement.\<close>

fun arguments_ok :: "tx_call \<Rightarrow> bool" where
  "arguments_ok (CallClaim owner l token now) \<longleftrightarrow> validate_owner_and_lease owner l = Inr () \<and> pg_text owner"
| "arguments_ok (CallHeartbeat d j owner token l now) \<longleftrightarrow>
     validate_owner_and_lease owner l = Inr () \<and> pg_text d \<and> pg_text j \<and> pg_text owner"
| "arguments_ok (CallComplete d j owner token result now) \<longleftrightarrow>
     length result \<le> MAX_PAYLOAD_BYTES \<and> pg_text d \<and> pg_text j \<and> pg_text owner \<and> pg_text result"
| "arguments_ok (CallFail d j owner token now) \<longleftrightarrow> pg_text d \<and> pg_text j \<and> pg_text owner"
| "arguments_ok (CallReap now) \<longleftrightarrow> True"
| "arguments_ok (CallCancel d now) \<longleftrightarrow> pg_text d"

text \<open>The \<open>WHERE\<close> clause on a row, its subqueries on a snapshot; and the \<open>SET\<close> clause.\<close>

fun hits :: "statement \<Rightarrow> database \<Rightarrow> job_row \<Rightarrow> bool" where
  "hits (ReapExpired now) snap r \<longleftrightarrow> expired_row now r"
| "hits (TakeJob owner l token now) snap r \<longleftrightarrow> candidate_row now snap r"
| "hits (RenewLease d j owner token l now) snap r \<longleftrightarrow> held_row d j owner token now r"
| "hits (MarkSucceeded d j owner token result now) snap r \<longleftrightarrow> held_row d j owner token now r"
| "hits (ReleaseChildren d j now) snap r \<longleftrightarrow> released_row d j snap r"
| "hits (RequeueHeld d j owner token now) snap r \<longleftrightarrow> held_row d j owner token now r"
| "hits (CloseDag d now) snap r \<longleftrightarrow> False"
| "hits (CancelRows d now) snap r \<longleftrightarrow> cancellable_row d r"

fun rewrite :: "statement \<Rightarrow> job_row \<Rightarrow> job_row" where
  "rewrite (ReapExpired now) r = requeue_row now r"
| "rewrite (TakeJob owner l token now) r = lease_row owner token l now r"
| "rewrite (RenewLease d j owner token l now) r = r\<lparr>jb_lease_expires_at := Some (now + l * millisecond), jb_updated_at := now\<rparr>"
| "rewrite (MarkSucceeded d j owner token result now) r = succeed_row result now r"
| "rewrite (ReleaseChildren d j now) r = release_row now r"
| "rewrite (RequeueHeld d j owner token now) r = requeue_row now r"
| "rewrite (CloseDag d now) r = r"
| "rewrite (CancelRows d now) r = cancel_row now r"

text \<open>How many rows a statement must have written for the call to go on.\<close>

fun enough :: "statement \<Rightarrow> nat \<Rightarrow> bool" where
  "enough (RenewLease d j owner token l now) n \<longleftrightarrow> ensure_compare_and_set n = Inr ()"
| "enough (MarkSucceeded d j owner token result now) n \<longleftrightarrow> ensure_compare_and_set n = Inr ()"
| "enough (RequeueHeld d j owner token now) n \<longleftrightarrow> n \<noteq> 0"
| "enough st n \<longleftrightarrow> True"

fun takes :: "statement \<Rightarrow> bool" where
  "takes (TakeJob owner l token now) \<longleftrightarrow> True"
| "takes st \<longleftrightarrow> False"

fun closes :: "statement \<Rightarrow> bool" where
  "closes (CloseDag d now) \<longleftrightarrow> True"
| "closes st \<longleftrightarrow> False"

section \<open>Sessions\<close>

datatype tx_status = Open | Done | Undone

record txn =
  tx_call :: tx_call
  tx_rest :: "statement list"
  tx_running :: "(database \<times> (byte_string \<times> byte_string) list \<times> nat) option"
  tx_writes :: row_versions
  tx_taken :: "(byte_string \<times> byte_string) option"
  tx_closed :: "(byte_string \<times> timestamp) option"
  tx_status :: tx_status

definition begin_txn :: "tx_call \<Rightarrow> txn" where
  "begin_txn call = \<lparr>tx_call = call, tx_rest = statements call, tx_running = None, tx_writes = Map.empty,
     tx_taken = None, tx_closed = None, tx_status = Open\<rparr>"

definition close_dag :: "(byte_string \<times> timestamp) option \<Rightarrow> database \<Rightarrow> database" where
  "close_dag c db = (case c of None \<Rightarrow> db | Some (d, now) \<Rightarrow>
     db\<lparr>db_dags := map (\<lambda>g. if dg_id g = d then g\<lparr>dg_state := ''cancelled'', dg_updated_at := now\<rparr> else g) (db_dags db)\<rparr>)"

text \<open>What a session sees: the committed tables with its own writes.\<close>

definition seen :: "txn \<Rightarrow> database \<Rightarrow> database" where
  "seen s db = close_dag (tx_closed s) (overlay (tx_writes s) db)"

text \<open>The rows a statement visits, those of a claim in the order of its \<open>ORDER BY\<close>.\<close>

definition targets :: "(byte_string \<Rightarrow> byte_string) \<Rightarrow> statement \<Rightarrow> database \<Rightarrow> (byte_string \<times> byte_string) list" where
  "targets ck st view =
     (let rows = filter (hits st view) (db_jobs view)
      in map job_key (if takes st then sort_key (claim_order ck) rows else rows))"

definition audited :: "txn \<Rightarrow> database \<Rightarrow> database" where
  "audited s db =
     (case tx_call s of
        CallClaim owner l token now \<Rightarrow>
          (case Option.bind (tx_taken s) (job_row_at db) of
             None \<Rightarrow> db
           | Some r \<Rightarrow> db\<lparr>db_events := db_events db @ [claimed_event owner now r]\<rparr>)
      | CallComplete d j owner token result now \<Rightarrow> insert_event d j ''succeeded'' owner now db
      | CallFail d j owner token now \<Rightarrow>
          (case job_row_at db (d, j) of None \<Rightarrow> db | Some r \<Rightarrow> insert_event d j (jb_state r) owner now db)
      | _ \<Rightarrow> db)"

definition published :: "txn \<Rightarrow> database \<Rightarrow> database" where
  "published s db = audited s (seen s db)"

definition written_by_others :: "(nat \<Rightarrow> txn) \<Rightarrow> nat \<Rightarrow> (byte_string \<times> byte_string) set" where
  "written_by_others S k = (\<Union>l\<in>UNIV - {k}. dom (tx_writes (S l)))"

definition closed_by_others :: "(nat \<Rightarrow> txn) \<Rightarrow> nat \<Rightarrow> byte_string set" where
  "closed_by_others S k = {d. \<exists>l. l \<noteq> k \<and> (\<exists>now. tx_closed (S l) = Some (d, now))}"

section \<open>Steps\<close>

text \<open>A step of one session while the others hold the rows \<open>locks\<close> and the DAG rows \<open>dags\<close>.\<close>

inductive tx_step ::
  "(byte_string \<Rightarrow> byte_string) \<Rightarrow> (byte_string \<times> byte_string) set \<Rightarrow> byte_string set \<Rightarrow> database \<Rightarrow> txn \<Rightarrow> txn \<Rightarrow> bool"
  for ck locks dags db where
  tx_start: "tx_status s = Open \<Longrightarrow> tx_running s = None \<Longrightarrow> tx_rest s = st # sts \<Longrightarrow> \<not> closes st \<Longrightarrow>
    arguments_ok (tx_call s) \<Longrightarrow>
    tx_step ck locks dags db s (s\<lparr>tx_running := Some (seen s db, targets ck st (seen s db), 0)\<rparr>)"
| tx_write: "tx_status s = Open \<Longrightarrow> tx_rest s = st # sts \<Longrightarrow> \<not> takes st \<Longrightarrow> tx_running s = Some (snap, todo, n) \<Longrightarrow>
    i \<in> set todo \<Longrightarrow> i \<notin> locks \<Longrightarrow> job_row_at (seen s db) i = Some r \<Longrightarrow> hits st snap r \<Longrightarrow>
    tx_step ck locks dags db s (s\<lparr>tx_running := Some (snap, remove1 i todo, n + 1), tx_writes := (tx_writes s)(i \<mapsto> rewrite st r)\<rparr>)"
| tx_pass: "tx_status s = Open \<Longrightarrow> tx_rest s = st # sts \<Longrightarrow> \<not> takes st \<Longrightarrow> tx_running s = Some (snap, todo, n) \<Longrightarrow>
    i \<in> set todo \<Longrightarrow> i \<notin> locks \<Longrightarrow> job_row_at (seen s db) i = Some r \<Longrightarrow> \<not> hits st snap r \<Longrightarrow>
    tx_step ck locks dags db s (s\<lparr>tx_running := Some (snap, remove1 i todo, n)\<rparr>)"
| tx_take: "tx_status s = Open \<Longrightarrow> tx_rest s = st # sts \<Longrightarrow> takes st \<Longrightarrow> tx_running s = Some (snap, i # todo, n) \<Longrightarrow>
    i \<notin> locks \<Longrightarrow> job_row_at (seen s db) i = Some r \<Longrightarrow> hits st snap r \<Longrightarrow>
    tx_step ck locks dags db s (s\<lparr>tx_running := Some (snap, [], n + 1), tx_writes := (tx_writes s)(i \<mapsto> rewrite st r), tx_taken := Some i\<rparr>)"
| tx_skip: "tx_status s = Open \<Longrightarrow> tx_rest s = st # sts \<Longrightarrow> takes st \<Longrightarrow> tx_running s = Some (snap, i # todo, n) \<Longrightarrow>
    job_row_at (seen s db) i = Some r \<Longrightarrow> i \<in> locks \<or> \<not> hits st snap r \<Longrightarrow>
    tx_step ck locks dags db s (s\<lparr>tx_running := Some (snap, todo, n)\<rparr>)"
| tx_finish: "tx_status s = Open \<Longrightarrow> tx_rest s = st # sts \<Longrightarrow> tx_running s = Some (snap, [], n) \<Longrightarrow> enough st n \<Longrightarrow>
    tx_step ck locks dags db s (s\<lparr>tx_running := None, tx_rest := sts\<rparr>)"
| tx_close: "tx_status s = Open \<Longrightarrow> tx_rest s = CloseDag d now # sts \<Longrightarrow> tx_running s = None \<Longrightarrow>
    arguments_ok (tx_call s) \<Longrightarrow> d \<in> dg_id ` set (db_dags db) \<Longrightarrow> d \<notin> dags \<Longrightarrow>
    tx_step ck locks dags db s (s\<lparr>tx_closed := Some (d, now), tx_rest := sts\<rparr>)"
| tx_undo: "tx_status s = Open \<Longrightarrow>
    tx_step ck locks dags db s (s\<lparr>tx_status := Undone, tx_running := None, tx_writes := Map.empty, tx_closed := None\<rparr>)"

type_synonym conc_state = "database \<times> (nat \<Rightarrow> txn)"

inductive conc_step :: "(byte_string \<Rightarrow> byte_string) \<Rightarrow> conc_state \<Rightarrow> conc_state \<Rightarrow> bool" for ck where
  conc_move: "tx_step ck (written_by_others S k) (closed_by_others S k) db (S k) s \<Longrightarrow> conc_step ck (db, S) (db, S(k := s))"
| conc_commit: "tx_status (S k) = Open \<Longrightarrow> tx_rest (S k) = [] \<Longrightarrow>
    conc_step ck (db, S) (published (S k) db, S(k := (S k)\<lparr>tx_status := Done, tx_writes := Map.empty, tx_closed := None\<rparr>))"
| conc_submit: "store_submit spec now db = Some (db', Inr ()) \<Longrightarrow> conc_step ck (db, S) (db', S)"

definition conc_reachable :: "(byte_string \<Rightarrow> byte_string) \<Rightarrow> (nat \<Rightarrow> tx_call) \<Rightarrow> conc_state \<Rightarrow> bool" where
  "conc_reachable ck calls cs \<longleftrightarrow> (conc_step ck)\<^sup>*\<^sup>* (empty_database, \<lambda>k. begin_txn (calls k)) cs"

end
