(* ===== verification/ConcurrencyRows.thy ===== *)
theory ConcurrencyRows
  imports Concurrency
begin

text \<open>
  The rows of a view, as a map from keys: what a version map may contain, and what remains true of
  the rows when a session writes one of them or commits its versions under the view of another.
\<close>

section \<open>Statements move rows\<close>

lemma hits_step: "hits st snap r \<Longrightarrow> row_step UNIV r (rewrite st r)"
  by (cases st) (auto simp: expired_row_s cancellable_iff released_row_s intro: row_step.intros
      dest: candidate_state held_row_leased)

lemma hits_key: "hits st snap r \<Longrightarrow> job_key (rewrite st r) = job_key r"
  using row_step_key [OF hits_step] .

lemma hits_open: "hits st snap r \<Longrightarrow> \<not> terminal_name (jb_state r)"
  using row_step_unfinished [OF hits_step] .

fun statement_ok :: "statement \<Rightarrow> bool" where
  "statement_ok (MarkSucceeded d j owner token result now) \<longleftrightarrow> length result \<le> MAX_PAYLOAD_BYTES"
| "statement_ok st \<longleftrightarrow> True"

lemma statements_ok: "arguments_ok call \<Longrightarrow> st \<in> set (statements call) \<Longrightarrow> statement_ok st"
  by (cases call) auto

lemma hits_row_inv:
  assumes "hits st snap r" "row_inv r" "statement_ok st"
  shows "row_inv (rewrite st r)"
proof (cases st)
  case (ReapExpired now)
  with assms show ?thesis using row_inv_requeue [of r now] by (simp add: expired_row_s)
next
  case (TakeJob owner l token now)
  with assms show ?thesis using row_inv_lease [OF assms(2)] candidate_state by simp
next
  case (RenewLease d j owner token l now)
  with assms show ?thesis using row_inv_renew [OF assms(2)] held_row_leased by simp
next
  case (MarkSucceeded d j owner token result now)
  with assms show ?thesis using row_inv_succeed [OF assms(2)] held_row_leased by (simp add: MAX_PAYLOAD_BYTES_def)
next
  case (ReleaseChildren d j now)
  with assms show ?thesis using row_inv_release [OF assms(2)] by (simp add: released_row_s)
next
  case (RequeueHeld d j owner token now)
  with assms show ?thesis using row_inv_requeue [OF assms(2)] held_row_leased by simp
next
  case (CancelRows d now)
  with assms show ?thesis using row_inv_cancel [OF assms(2)] by (simp add: cancellable_iff)
qed (use assms in simp)

section \<open>Maps of rows\<close>

definition advances :: "('i \<Rightarrow> job_row option) \<Rightarrow> ('i \<Rightarrow> job_row option) \<Rightarrow> bool" where
  "advances m m' \<longleftrightarrow> (\<forall>i r. m i = Some r \<longrightarrow> (\<exists>r'. m' i = Some r' \<and> row_steps UNIV r r'))"

definition writes_over :: "('i \<Rightarrow> job_row option) \<Rightarrow> ('i \<Rightarrow> job_row option) \<Rightarrow> bool" where
  "writes_over m w \<longleftrightarrow> (\<forall>i r'. w i = Some r' \<longrightarrow> (\<exists>r. m i = Some r \<and> row_steps UNIV r r'))"

definition succeeded_in :: "('i \<Rightarrow> job_row option) \<Rightarrow> 'i \<Rightarrow> bool" where
  "succeeded_in m i \<longleftrightarrow> (\<exists>q. m i = Some q \<and> jb_state q = state_name Succeeded)"

text \<open>Rows are well formed and nobody starts before its parents succeeded.\<close>

definition in_order :: "('i \<Rightarrow> 'i set) \<Rightarrow> ('i \<Rightarrow> job_row option) \<Rightarrow> bool" where
  "in_order needs m \<longleftrightarrow> (\<forall>i r. m i = Some r \<longrightarrow> row_inv r \<and>
     (jb_state r \<noteq> state_name Pending \<and> jb_state r \<noteq> state_name Cancelled \<longrightarrow>
        (\<forall>p\<in>needs i. succeeded_in m p)))"

lemma in_orderD:
  assumes "in_order needs m" "m i = Some r"
  shows "row_inv r" "jb_state r \<noteq> state_name Pending \<Longrightarrow> jb_state r \<noteq> state_name Cancelled \<Longrightarrow> p \<in> needs i \<Longrightarrow>
    succeeded_in m p"
  using assms unfolding in_order_def by blast+

lemma in_orderI:
  assumes "\<And>i r. m i = Some r \<Longrightarrow> row_inv r"
    and "\<And>i r p. m i = Some r \<Longrightarrow> jb_state r \<noteq> state_name Pending \<Longrightarrow> jb_state r \<noteq> state_name Cancelled \<Longrightarrow>
      p \<in> needs i \<Longrightarrow> succeeded_in m p"
  shows "in_order needs m"
  using assms by (simp add: in_order_def)

lemma advancesD: "advances m m' \<Longrightarrow> m i = Some r \<Longrightarrow> \<exists>r'. m' i = Some r' \<and> row_steps UNIV r r'"
  unfolding advances_def by blast

lemma writes_overD: "writes_over m w \<Longrightarrow> w i = Some r' \<Longrightarrow> \<exists>r. m i = Some r \<and> row_steps UNIV r r'"
  unfolding writes_over_def by blast

lemma advances_refl [simp]: "advances m m"
  by (simp add: advances_def)

lemma advances_trans:
  assumes "advances m m'" "advances m' m''"
  shows "advances m m''"
  unfolding advances_def
proof (intro allI impI)
  fix i r assume "m i = Some r"
  from advancesD [OF assms(1) this] obtain r' where r': "m' i = Some r'" "row_steps UNIV r r'" by blast
  from advancesD [OF assms(2) r'(1)] r'(2) show "\<exists>r''. m'' i = Some r'' \<and> row_steps UNIV r r''"
    by (blast intro: rtranclp_trans)
qed

lemma writes_over_empty [simp]: "writes_over m Map.empty"
  by (simp add: writes_over_def)

lemma terminal_succeeded [simp]: "terminal_name (state_name Succeeded)"
  by (simp add: terminal_name_def)

lemma advances_finished:
  assumes "advances m m'" "m i = Some r" "terminal_name (jb_state r)"
  shows "m' i = Some r"
proof -
  from advancesD [OF assms(1,2)] obtain r' where r': "m' i = Some r'" "row_steps UNIV r r'" by (elim exE conjE)
  from row_steps_finished [OF r'(2) assms(3)] r'(1) show ?thesis by simp
qed

lemma advances_succeeded:
  assumes "advances m m'" "succeeded_in m i"
  shows "succeeded_in m' i"
proof -
  from assms(2) obtain q where q: "m i = Some q" "jb_state q = state_name Succeeded" by (auto simp: succeeded_in_def)
  from advances_finished [OF assms(1) q(1)] q(2) show ?thesis by (simp add: succeeded_in_def)
qed

lemma advances_unfinished:
  "advances m m' \<Longrightarrow> m i = Some r \<Longrightarrow> m' i = Some r' \<Longrightarrow> \<not> terminal_name (jb_state r') \<Longrightarrow> \<not> terminal_name (jb_state r)"
  using advances_finished by fastforce

lemma writes_over_dom: "writes_over m w \<Longrightarrow> dom w \<subseteq> dom m"
  unfolding writes_over_def by blast

lemma writes_over_advances:
  assumes "writes_over m w"
  shows "advances m (m ++ w)"
  unfolding advances_def
proof (intro allI impI)
  fix i r assume "m i = Some r"
  then show "\<exists>r'. (m ++ w) i = Some r' \<and> row_steps UNIV r r'"
    by (cases "w i") (auto simp: map_add_def dest: writes_overD [OF assms])
qed

text \<open>A session writes one row of its view.\<close>

lemma write_one:
  assumes "(m ++ w) i = Some r" "row_step UNIV r r'" "writes_over m w"
  shows "writes_over m (w(i \<mapsto> r'))" "advances (m ++ w) (m ++ w(i \<mapsto> r'))"
proof -
  have "\<exists>r0. m i = Some r0 \<and> row_steps UNIV r0 r"
    using assms(1,3) by (auto simp: map_add_Some_iff dest: writes_overD)
  with assms(2) have "\<exists>r0. m i = Some r0 \<and> row_steps UNIV r0 r'" by (auto intro: rtranclp.rtrancl_into_rtrancl)
  with assms(3) show "writes_over m (w(i \<mapsto> r'))" by (simp add: writes_over_def)
  have "row_steps UNIV r r'" by (rule row_step_one [OF assms(2)])
  with assms(1) show "advances (m ++ w) (m ++ w(i \<mapsto> r'))" by (simp add: advances_def)
qed

lemma in_order_write:
  assumes ord: "in_order needs m" and i: "m i = Some r" "row_step UNIV r r'" "row_inv r'"
    and ready: "jb_state r = state_name Pending \<Longrightarrow> jb_state r' \<noteq> state_name Cancelled \<Longrightarrow>
      \<forall>p\<in>needs i. succeeded_in m p"
  shows "in_order needs (m(i \<mapsto> r'))"
proof (rule in_orderI)
  let ?m = "m(i \<mapsto> r')"
  fix x y
  assume x: "?m x = Some y"
  then show "row_inv y" using i(3) in_orderD(1) [OF ord] by (cases "x = i") auto
  fix p assume st: "jb_state y \<noteq> state_name Pending" "jb_state y \<noteq> state_name Cancelled" and p: "p \<in> needs x"
  have "succeeded_in m p"
  proof (cases "x = i")
    case True
    with x have y: "y = r'" by simp
    have "jb_state r \<noteq> state_name Cancelled" using row_step_unfinished [OF i(2)] by (auto simp: terminal_name_def)
    with ready in_orderD(2) [OF ord i(1)] st p y True show ?thesis by blast
  next
    case False
    with x in_orderD(2) [OF ord _ st p] show ?thesis by simp
  qed
  then show "succeeded_in ?m p"
    using i(1) row_step_unfinished [OF i(2)] by (cases "p = i") (auto simp: succeeded_in_def)
qed

text \<open>Another session commits \<open>v\<close> under the view of a session with writes \<open>w\<close>.\<close>

lemma commit_under:
  assumes v: "writes_over m v" and w: "writes_over m w" and disj: "\<And>i. v i = None \<or> w i = None"
  shows "writes_over (m ++ v) w" "advances (m ++ w) ((m ++ v) ++ w)"
proof -
  show "writes_over (m ++ v) w"
    unfolding writes_over_def
  proof (intro allI impI)
    fix i r' assume "w i = Some r'"
    with disj [of i] writes_overD [OF w this] show "\<exists>r. (m ++ v) i = Some r \<and> row_steps UNIV r r'"
      by (auto simp: map_add_def)
  qed
  show "advances (m ++ w) ((m ++ v) ++ w)"
    unfolding advances_def
  proof (intro allI impI)
    fix i r assume i: "(m ++ w) i = Some r"
    show "\<exists>r'. ((m ++ v) ++ w) i = Some r' \<and> row_steps UNIV r r'"
    proof (cases "w i")
      case None
      with i advancesD [OF writes_over_advances [OF v], of i r] show ?thesis by (simp add: map_add_def)
    next
      case (Some x)
      with i show ?thesis by simp
    qed
  qed
qed

lemma in_order_commit:
  assumes v: "writes_over m v" and w: "writes_over m w" and disj: "\<And>i. v i = None \<or> w i = None"
    and ord: "in_order needs (m ++ v)" "in_order needs (m ++ w)"
  shows "in_order needs ((m ++ v) ++ w)"
proof (rule in_orderI)
  let ?m = "(m ++ v) ++ w"
  fix i r assume "?m i = Some r"
  then have i: "(m ++ v) i = Some r \<or> (m ++ w) i = Some r" by (cases "w i") (simp_all add: map_add_def)
  then show "row_inv r" by (elim disjE in_orderD(1) [OF ord(1)] in_orderD(1) [OF ord(2)])
  fix p assume st: "jb_state r \<noteq> state_name Pending" "jb_state r \<noteq> state_name Cancelled" "p \<in> needs i"
  from i show "succeeded_in ?m p"
  proof
    assume "(m ++ v) i = Some r"
    from in_orderD(2) [OF ord(1) this st] show ?thesis
      by (rule advances_succeeded [OF writes_over_advances [OF commit_under(1) [OF v w disj]]])
  next
    assume "(m ++ w) i = Some r"
    from in_orderD(2) [OF ord(2) this st] show ?thesis
      by (rule advances_succeeded [OF commit_under(2) [OF v w disj]])
  qed
qed

end
