(* ===== verification/ConcurrencyInv.thy ===== *)
theory ConcurrencyInv
  imports ConcurrencyRows
begin

text \<open>
  The invariant of concurrent calls: the committed tables are well formed, every session sees rows
  that are well formed and started in order, its versions are reached from the committed rows, no
  two sessions have versions of the same row, and a cancellation leaves nothing unfinished behind.
\<close>

section \<open>What a session sees\<close>

lemma close_dag_sel [simp]:
  "db_jobs (close_dag c db) = db_jobs db" "db_dependencies (close_dag c db) = db_dependencies db"
  "db_events (close_dag c db) = db_events db" "map dg_id (db_dags (close_dag c db)) = map dg_id (db_dags db)"
  by (cases c; auto simp: close_dag_def)+

lemma job_row_at_cong: "db_jobs db' = db_jobs db \<Longrightarrow> job_row_at db' = job_row_at db"
  by (rule ext) (simp add: job_row_at_def)

lemma row_needs_cong: "db_dependencies db' = db_dependencies db \<Longrightarrow> row_needs db' = row_needs db"
  by (rule ext) (auto simp: row_needs_def)

lemma writes_over_keyed:
  assumes "writes_over (job_row_at db) w"
  shows "keyed w"
  unfolding keyed_def
proof (intro allI impI)
  fix i r' assume "w i = Some r'"
  from writes_overD [OF assms this] obtain r where r: "job_row_at db i = Some r" "row_steps UNIV r r'" by (elim exE conjE)
  with row_steps_key job_row_at_mem [OF r(1)] show "job_key r' = i" by metis
qed

lemma overlay_rows:
  assumes "writes_over (job_row_at db) w"
  shows "job_row_at (overlay w db) = job_row_at db ++ w"
proof
  fix i
  note at = job_row_at_overlay [OF writes_over_keyed [OF assms], of db i]
  show "job_row_at (overlay w db) i = (job_row_at db ++ w) i"
  proof (cases "w i")
    case None
    with at show ?thesis by (cases "job_row_at db i") (simp_all add: map_add_def)
  next
    case (Some r')
    from writes_overD [OF assms this] obtain r where "job_row_at db i = Some r" by (elim exE conjE)
    with at Some show ?thesis by (simp add: map_add_def)
  qed
qed

lemma seen_sel [simp]:
  "db_dependencies (seen s db) = db_dependencies db" "map dg_id (db_dags (seen s db)) = map dg_id (db_dags db)"
  "db_jobs (seen s db) = db_jobs (overlay (tx_writes s) db)" "db_events (seen s db) = db_events db"
  by (simp_all add: seen_def)

lemma seen_rows: "writes_over (job_row_at db) (tx_writes s) \<Longrightarrow> job_row_at (seen s db) = job_row_at db ++ tx_writes s"
  using job_row_at_cong [of "seen s db" "overlay (tx_writes s) db"] overlay_rows by simp

lemma seen_needs [simp]: "row_needs (seen s db) = row_needs db"
  by (rule row_needs_cong) simp

lemma tables_ok_seen:
  assumes "tables_ok db" "writes_over (job_row_at db) (tx_writes s)"
  shows "tables_ok (seen s db)"
  by (rule tables_ok_cong [OF tables_ok_overlay [OF writes_over_keyed [OF assms(2)] assms(1)]]) simp_all

lemma audited_sel [simp]:
  "db_jobs (audited s db) = db_jobs db" "db_dependencies (audited s db) = db_dependencies db" "db_dags (audited s db) = db_dags db"
  by (auto simp: audited_def insert_event_def split: tx_call.split option.split)

lemma published_sel [simp]:
  "db_jobs (published s db) = db_jobs (seen s db)" "db_dependencies (published s db) = db_dependencies db"
  "db_dags (published s db) = db_dags (seen s db)"
  by (simp_all add: published_def)

lemma published_rows: "job_row_at (published s db) = job_row_at (seen s db)"
  by (rule job_row_at_cong) simp

lemma published_needs [simp]: "row_needs (published s db) = row_needs db"
  by (rule row_needs_cong) simp

section \<open>The invariant\<close>

definition run_inv :: "database \<Rightarrow> txn \<Rightarrow> bool" where
  "run_inv db s \<longleftrightarrow> (\<forall>snap todo n. tx_running s = Some (snap, todo, n) \<longrightarrow>
     arguments_ok (tx_call s) \<and> tx_rest s \<noteq> [] \<and> \<not> closes (hd (tx_rest s)) \<and> tables_ok snap \<and>
     advances (job_row_at snap) (job_row_at db ++ tx_writes s) \<and>
     (\<forall>i. job_row_at snap i \<noteq> None \<longrightarrow> row_needs db i = row_needs snap i) \<and>
     (\<forall>i\<in>set todo. job_row_at snap i \<noteq> None))"

text \<open>The rows of its graph that a cancellation has not visited yet.\<close>

definition unvisited :: "txn \<Rightarrow> (byte_string \<times> byte_string) set" where
  "unvisited s = (case tx_running s of Some (snap, todo, n) \<Rightarrow> set todo | None \<Rightarrow> if tx_rest s = [] then {} else UNIV)"

definition cancel_inv :: "database \<Rightarrow> txn \<Rightarrow> bool" where
  "cancel_inv db s \<longleftrightarrow>
     (\<forall>d now. tx_closed s = Some (d, now) \<longrightarrow> tx_call s = CallCancel d now) \<and>
     (\<forall>d now. tx_call s = CallCancel d now \<longrightarrow> tx_status s = Open \<longrightarrow>
        (tx_rest s \<noteq> statements (CallCancel d now) \<longrightarrow> d \<in> dg_id ` set (db_dags db)) \<and>
        (\<forall>i r. (job_row_at db ++ tx_writes s) i = Some r \<longrightarrow> jb_dag_id r = d \<longrightarrow>
           \<not> terminal_name (jb_state r) \<longrightarrow> i \<in> unvisited s))"

definition txn_inv :: "database \<Rightarrow> txn \<Rightarrow> bool" where
  "txn_inv db s \<longleftrightarrow>
     writes_over (job_row_at db) (tx_writes s) \<and> in_order (row_needs db) (job_row_at db ++ tx_writes s) \<and>
     (\<exists>pre. statements (tx_call s) = pre @ tx_rest s) \<and>
     (tx_status s \<noteq> Open \<longrightarrow> tx_writes s = Map.empty \<and> tx_running s = None \<and> tx_closed s = None) \<and>
     run_inv db s \<and> cancel_inv db s"

definition cancelled_finished :: "database \<Rightarrow> bool" where
  "cancelled_finished db \<longleftrightarrow> (\<forall>i r g. job_row_at db i = Some r \<longrightarrow> g \<in> set (db_dags db) \<longrightarrow> dg_id g = jb_dag_id r \<longrightarrow>
     dg_state g \<noteq> ''running'' \<longrightarrow> terminal_name (jb_state r))"

definition conc_inv :: "conc_state \<Rightarrow> bool" where
  "conc_inv = (\<lambda>(db, S). tables_ok db \<and> in_order (row_needs db) (job_row_at db) \<and> cancelled_finished db \<and>
     (\<forall>k. txn_inv db (S k)) \<and> (\<forall>k l. k \<noteq> l \<longrightarrow> (\<forall>i. tx_writes (S k) i = None \<or> tx_writes (S l) i = None)))"

lemma conc_invD:
  assumes "conc_inv (db, S)"
  shows "tables_ok db" "in_order (row_needs db) (job_row_at db)" "cancelled_finished db" "txn_inv db (S k)"
    "k \<noteq> l \<Longrightarrow> tx_writes (S k) i = None \<or> tx_writes (S l) i = None"
proof -
  note 1 = assms [unfolded conc_inv_def prod.case]
  show "tables_ok db" "in_order (row_needs db) (job_row_at db)" "cancelled_finished db" using 1 by simp_all
  note 2 = 1 [THEN conjunct2, THEN conjunct2, THEN conjunct2]
  show "txn_inv db (S k)" by (rule 2 [THEN conjunct1, THEN spec])
  show "k \<noteq> l \<Longrightarrow> tx_writes (S k) i = None \<or> tx_writes (S l) i = None" by (rule 2 [THEN conjunct2, rule_format])
qed

lemma conc_invI:
  assumes "tables_ok db" "in_order (row_needs db) (job_row_at db)" "cancelled_finished db" "\<And>k. txn_inv db (S k)"
    and "\<And>k l i. k \<noteq> l \<Longrightarrow> tx_writes (S k) i = None \<or> tx_writes (S l) i = None"
  shows "conc_inv (db, S)"
  unfolding conc_inv_def prod.case by (intro conjI allI impI assms)

lemma txn_invD:
  assumes "txn_inv db s"
  shows "writes_over (job_row_at db) (tx_writes s)" "in_order (row_needs db) (job_row_at db ++ tx_writes s)"
    "\<exists>pre. statements (tx_call s) = pre @ tx_rest s"
    "tx_status s \<noteq> Open \<Longrightarrow> tx_writes s = Map.empty \<and> tx_running s = None \<and> tx_closed s = None"
    "run_inv db s" "cancel_inv db s"
  using assms by (simp_all add: txn_inv_def)

lemma run_invD:
  assumes "run_inv db s" "tx_running s = Some (snap, todo, n)"
  shows "arguments_ok (tx_call s)" "tx_rest s \<noteq> []" "\<not> closes (hd (tx_rest s))" "tables_ok snap"
    "advances (job_row_at snap) (job_row_at db ++ tx_writes s)"
    "job_row_at snap i \<noteq> None \<Longrightarrow> row_needs db i = row_needs snap i" "i \<in> set todo \<Longrightarrow> job_row_at snap i \<noteq> None"
proof -
  note 1 = assms(1) [unfolded run_inv_def, THEN spec, THEN spec, THEN spec, THEN mp, OF assms(2)]
  show "arguments_ok (tx_call s)" "tx_rest s \<noteq> []" "\<not> closes (hd (tx_rest s))" "tables_ok snap"
    "advances (job_row_at snap) (job_row_at db ++ tx_writes s)" using 1 by simp_all
  note 2 = 1 [THEN conjunct2, THEN conjunct2, THEN conjunct2, THEN conjunct2, THEN conjunct2]
  show "job_row_at snap i \<noteq> None \<Longrightarrow> row_needs db i = row_needs snap i" by (rule 2 [THEN conjunct1, rule_format])
  show "i \<in> set todo \<Longrightarrow> job_row_at snap i \<noteq> None" by (rule 2 [THEN conjunct2, rule_format])
qed

lemma cancel_invD:
  assumes "cancel_inv db s"
  shows "tx_closed s = Some (d, now) \<Longrightarrow> tx_call s = CallCancel d now"
    "tx_call s = CallCancel d now \<Longrightarrow> tx_status s = Open \<Longrightarrow> tx_rest s \<noteq> statements (CallCancel d now) \<Longrightarrow>
      d \<in> dg_id ` set (db_dags db)"
    "tx_call s = CallCancel d now \<Longrightarrow> tx_status s = Open \<Longrightarrow> (job_row_at db ++ tx_writes s) i = Some r \<Longrightarrow>
      jb_dag_id r = d \<Longrightarrow> \<not> terminal_name (jb_state r) \<Longrightarrow> i \<in> unvisited s"
proof -
  note 1 = assms [unfolded cancel_inv_def]
  show "tx_closed s = Some (d, now) \<Longrightarrow> tx_call s = CallCancel d now" by (rule 1 [THEN conjunct1, rule_format])
  note 2 = 1 [THEN conjunct2, THEN spec, THEN spec, THEN mp, THEN mp]
  show "tx_call s = CallCancel d now \<Longrightarrow> tx_status s = Open \<Longrightarrow> tx_rest s \<noteq> statements (CallCancel d now) \<Longrightarrow>
      d \<in> dg_id ` set (db_dags db)" by (rule 2 [THEN conjunct1, THEN mp])
  show "tx_call s = CallCancel d now \<Longrightarrow> tx_status s = Open \<Longrightarrow> (job_row_at db ++ tx_writes s) i = Some r \<Longrightarrow>
      jb_dag_id r = d \<Longrightarrow> \<not> terminal_name (jb_state r) \<Longrightarrow> i \<in> unvisited s"
    by (rule 2 [THEN conjunct2, THEN spec, THEN spec, THEN mp, THEN mp, THEN mp])
qed

section \<open>Steps of a session\<close>

lemma status_succeeded: "row_status db p = Some Succeeded \<longleftrightarrow> succeeded_in (job_row_at db) p"
  by (simp add: row_status_iff succeeded_in_def)

lemma released_parents:
  assumes run: "run_inv db s" "tx_running s = Some (snap, todo, n)" and i: "i \<in> set todo"
    and r: "released_row d j snap r" "job_key r = i" and p: "p \<in> row_needs db i"
  shows "succeeded_in (job_row_at db ++ tx_writes s) p"
proof -
  note R = run_invD [OF run]
  have "\<not> blocked snap (jb_dag_id r) (jb_id r)" using r(1) by (auto simp: released_row_s open_parent_blocked)
  moreover have "p \<in> row_needs snap (jb_dag_id r, jb_id r)"
    using p R(6) [OF R(7) [OF i]] r(2) by (simp add: job_key_def)
  ultimately have "row_status snap p = Some Succeeded" unfolding blocked_iff [OF R(4)] by blast
  then show ?thesis using advances_succeeded [OF R(5)] by (simp add: status_succeeded)
qed

lemma pending_hit:
  assumes "hits st snap r" "jb_state r = state_name Pending" "jb_state (rewrite st r) \<noteq> state_name Cancelled"
  shows "\<exists>d j now. st = ReleaseChildren d j now \<and> released_row d j snap r"
  using assms by (cases st) (auto simp: expired_row_s dest: candidate_state held_row_leased)

lemma takes_not_cancel: "takes st \<Longrightarrow> st \<in> set (statements call) \<Longrightarrow> \<exists>owner l token now. call = CallClaim owner l token now"
  by (cases call; cases st) auto

lemma running_statement:
  assumes "txn_inv db s" "tx_running s = Some (snap, todo, n)" "tx_rest s = st # sts"
  shows "st \<in> set (statements (tx_call s))" "statement_ok st" "\<not> closes st"
proof -
  note T = txn_invD [OF assms(1)] and R = run_invD [OF txn_invD(5) [OF assms(1)] assms(2)]
  show st: "st \<in> set (statements (tx_call s))" using T(3) assms(3) by auto
  show "statement_ok st" by (rule statements_ok [OF R(1) st])
  show "\<not> closes st" using R(3) assms(3) by simp
qed

text \<open>A cancellation visits a row.\<close>

lemma visit_cancel:
  assumes "txn_inv db s" "tx_call s = CallCancel d now" "tx_running s = Some (snap, todo, n)" "tx_rest s = st # sts"
  shows "st = CancelRows d now" "tx_rest s \<noteq> statements (CallCancel d now)" "\<not> takes st" "sts = []"
proof -
  obtain pre where pre: "statements (tx_call s) = pre @ tx_rest s" using txn_invD(3) [OF assms(1)] by blast
  have "\<not> closes st" by (rule running_statement(3) [OF assms(1,3,4)])
  with pre assms(2,4) show "st = CancelRows d now" "tx_rest s \<noteq> statements (CallCancel d now)" "\<not> takes st" "sts = []"
    by (auto simp: append_eq_Cons_conv Cons_eq_append_conv)
qed

lemma txn_inv_write:
  assumes inv: "txn_inv db s" and st: "tx_status s = Open" "tx_rest s = st # sts" "tx_running s = Some (snap, todo, n)"
    and i: "i \<in> set todo" "job_row_at (seen s db) i = Some r" "hits st snap r"
    and todo: "set todo' \<subseteq> set todo" "takes st \<or> set todo - {i} \<subseteq> set todo'"
  shows "txn_inv db (s\<lparr>tx_running := Some (snap, todo', n'), tx_writes := (tx_writes s)(i \<mapsto> rewrite st r), tx_taken := t\<rparr>)"
proof -
  note T = txn_invD [OF inv] and R = run_invD [OF txn_invD(5) [OF inv] st(3)] and C = cancel_invD [OF txn_invD(6) [OF inv]]
  note run = running_statement [OF inv st(3,2)]
  let ?s = "s\<lparr>tx_running := Some (snap, todo', n'), tx_writes := (tx_writes s)(i \<mapsto> rewrite st r), tx_taken := t\<rparr>"
  let ?m = "job_row_at db ++ tx_writes s"
  have m: "?m i = Some r" "job_key r = i" using i(2) seen_rows [OF T(1)] job_row_at_mem [OF i(2)] by simp_all
  note step = hits_step [OF i(3)] and one = write_one [OF m(1) hits_step [OF i(3)] T(1)]
  have w: "job_row_at db ++ tx_writes ?s = ?m(i \<mapsto> rewrite st r)" by simp
  have ord: "in_order (row_needs db) (?m(i \<mapsto> rewrite st r))"
  proof (rule in_order_write [OF T(2) m(1) step hits_row_inv [OF i(3) in_orderD(1) [OF T(2) m(1)] run(2)]])
    assume "jb_state r = state_name Pending" "jb_state (rewrite st r) \<noteq> state_name Cancelled"
    from pending_hit [OF i(3) this] obtain d j where "released_row d j snap r" by blast
    from released_parents [OF T(5) st(3) i(1) this m(2)] show "\<forall>p\<in>row_needs db i. succeeded_in ?m p" by blast
  qed
  have "run_inv db ?s"
    unfolding run_inv_def
  proof (intro allI impI)
    fix snap' todo'' n'' assume "tx_running ?s = Some (snap', todo'', n'')"
    then have e: "snap' = snap" "todo'' = todo'" by simp_all
    have "advances (job_row_at snap) (job_row_at db ++ tx_writes ?s)" unfolding w using advances_trans [OF R(5) one(2)] by simp
    moreover have "row_needs db i = row_needs snap i" if "job_row_at snap i \<noteq> None" for i using R(6) that .
    moreover have "job_row_at snap i \<noteq> None" if "i \<in> set todo'" for i using R(7) that todo(1) by blast
    ultimately show "arguments_ok (tx_call ?s) \<and> tx_rest ?s \<noteq> [] \<and> \<not> closes (hd (tx_rest ?s)) \<and> tables_ok snap' \<and>
      advances (job_row_at snap') (job_row_at db ++ tx_writes ?s) \<and>
      (\<forall>i. job_row_at snap' i \<noteq> None \<longrightarrow> row_needs db i = row_needs snap' i) \<and>
      (\<forall>i\<in>set todo''. job_row_at snap' i \<noteq> None)" using R(1-4) by (simp add: e)
  qed
  moreover have "cancel_inv db ?s"
    unfolding cancel_inv_def
  proof (intro conjI allI impI)
    show "tx_closed ?s = Some (d, now) \<Longrightarrow> tx_call ?s = CallCancel d now" for d now using C(1) by simp
    fix d now assume c: "tx_call ?s = CallCancel d now" "tx_status ?s = Open"
    then have c': "tx_call s = CallCancel d now" "tx_status s = Open" by simp_all
    note v = visit_cancel [OF inv c'(1) st(3,2)]
    show "d \<in> dg_id ` set (db_dags db)" by (rule C(2) [OF c' v(2)])
    fix x y assume x: "(job_row_at db ++ tx_writes ?s) x = Some y" "jb_dag_id y = d" "\<not> terminal_name (jb_state y)"
    show "x \<in> unvisited ?s"
    proof (cases "x = i")
      case True
      with x(1) w v(1) have "y = cancel_row now r" by simp
      with x(3) show ?thesis by (simp add: terminal_name_def)
    next
      case False
      with x(1) w have "?m x = Some y" by simp
      from C(3) [OF c' this x(2,3)] have "x \<in> set todo" by (simp add: unvisited_def st(3))
      with False todo(2) v(3) show ?thesis by (auto simp: unvisited_def)
    qed
  qed
  ultimately show ?thesis
    using one(1) ord T(3) st(1) unfolding txn_inv_def w by simp
qed

lemma txn_inv_skip:
  assumes inv: "txn_inv db s" and st: "tx_status s = Open" "tx_rest s = st # sts" "tx_running s = Some (snap, todo, n)"
    and todo: "set todo' \<subseteq> set todo" "takes st \<or> set todo - {i} \<subseteq> set todo'"
    and i: "takes st \<or> job_row_at (seen s db) i = Some r \<and> \<not> hits st snap r"
  shows "txn_inv db (s\<lparr>tx_running := Some (snap, todo', n')\<rparr>)"
proof -
  note T = txn_invD [OF inv] and R = run_invD [OF txn_invD(5) [OF inv] st(3)] and C = cancel_invD [OF txn_invD(6) [OF inv]]
  let ?s = "s\<lparr>tx_running := Some (snap, todo', n')\<rparr>"
  have "run_inv db ?s"
    unfolding run_inv_def
  proof (intro allI impI)
    fix snap' todo'' n'' assume "tx_running ?s = Some (snap', todo'', n'')"
    then have e: "snap' = snap" "todo'' = todo'" by simp_all
    have "row_needs db i = row_needs snap i" if "job_row_at snap i \<noteq> None" for i using R(6) that .
    moreover have "job_row_at snap i \<noteq> None" if "i \<in> set todo'" for i using R(7) that todo(1) by blast
    ultimately show "arguments_ok (tx_call ?s) \<and> tx_rest ?s \<noteq> [] \<and> \<not> closes (hd (tx_rest ?s)) \<and> tables_ok snap' \<and>
      advances (job_row_at snap') (job_row_at db ++ tx_writes ?s) \<and>
      (\<forall>i. job_row_at snap' i \<noteq> None \<longrightarrow> row_needs db i = row_needs snap' i) \<and>
      (\<forall>i\<in>set todo''. job_row_at snap' i \<noteq> None)" using R(1-5) by (simp add: e)
  qed
  moreover have "cancel_inv db ?s"
    unfolding cancel_inv_def
  proof (intro conjI allI impI)
    show "tx_closed ?s = Some (d, now) \<Longrightarrow> tx_call ?s = CallCancel d now" for d now using C(1) by simp
    fix d now assume c: "tx_call ?s = CallCancel d now" "tx_status ?s = Open"
    then have c': "tx_call s = CallCancel d now" "tx_status s = Open" by simp_all
    note v = visit_cancel [OF inv c'(1) st(3,2)]
    show "d \<in> dg_id ` set (db_dags db)" by (rule C(2) [OF c' v(2)])
    fix x y assume x: "(job_row_at db ++ tx_writes ?s) x = Some y" "jb_dag_id y = d" "\<not> terminal_name (jb_state y)"
    then have m: "(job_row_at db ++ tx_writes s) x = Some y" by simp
    from C(3) [OF c' this x(2,3)] have "x \<in> set todo" by (simp add: unvisited_def st(3))
    moreover have "x \<noteq> i"
    proof
      assume "x = i"
      with m i v(3) seen_rows [OF T(1)] have "\<not> hits st snap y" by simp
      with x(2,3) v(1) show False by (simp add: cancellable_iff)
    qed
    ultimately show "x \<in> unvisited ?s" using todo(2) v(3) by (auto simp: unvisited_def)
  qed
  ultimately show ?thesis using T(1-3) st(1) unfolding txn_inv_def by simp
qed

lemma set_targets: "set (targets ck st view) = job_key ` {r \<in> set (db_jobs view). hits st view r}"
  by (simp add: targets_def Let_def)

lemma txn_inv_start:
  assumes inv: "txn_inv db s" and tables: "tables_ok db" and st: "tx_status s = Open" "tx_running s = None" "tx_rest s = st # sts"
    "\<not> closes st" "arguments_ok (tx_call s)"
  shows "txn_inv db (s\<lparr>tx_running := Some (seen s db, targets ck st (seen s db), n)\<rparr>)"
proof -
  note T = txn_invD [OF inv] and C = cancel_invD [OF txn_invD(6) [OF inv]]
  let ?s = "s\<lparr>tx_running := Some (seen s db, targets ck st (seen s db), n)\<rparr>"
  note rows = seen_rows [OF T(1)] and tables' = tables_ok_seen [OF tables T(1)]
  have "run_inv db ?s"
    unfolding run_inv_def
  proof (intro allI impI)
    fix snap' todo'' n'' assume "tx_running ?s = Some (snap', todo'', n'')"
    then have e: "snap' = seen s db" "todo'' = targets ck st (seen s db)" by auto
    have "job_row_at (seen s db) i \<noteq> None" if i: "i \<in> set (targets ck st (seen s db))" for i
    proof -
      from i obtain r where "r \<in> set (db_jobs (seen s db))" "i = job_key r" unfolding set_targets by blast
      then show ?thesis using job_row_at_iff [OF tables', of i r] by simp
    qed
    then show "arguments_ok (tx_call ?s) \<and> tx_rest ?s \<noteq> [] \<and> \<not> closes (hd (tx_rest ?s)) \<and> tables_ok snap' \<and>
      advances (job_row_at snap') (job_row_at db ++ tx_writes ?s) \<and>
      (\<forall>i. job_row_at snap' i \<noteq> None \<longrightarrow> row_needs db i = row_needs snap' i) \<and>
      (\<forall>i\<in>set todo''. job_row_at snap' i \<noteq> None)" using st tables' by (simp add: e rows del: seen_sel)
  qed
  moreover have "cancel_inv db ?s"
    unfolding cancel_inv_def
  proof (intro conjI allI impI)
    show "tx_closed ?s = Some (d, now) \<Longrightarrow> tx_call ?s = CallCancel d now" for d now using C(1) by simp
    fix d now assume c: "tx_call ?s = CallCancel d now" "tx_status ?s = Open"
    then have c': "tx_call s = CallCancel d now" "tx_status s = Open" by simp_all
    obtain pre where "statements (tx_call s) = pre @ tx_rest s" using T(3) by blast
    then have v: "st = CancelRows d now" "tx_rest s \<noteq> statements (CallCancel d now)"
      using c'(1) st(3,4) by (auto simp: append_eq_Cons_conv Cons_eq_append_conv)
    show "d \<in> dg_id ` set (db_dags db)" by (rule C(2) [OF c' v(2)])
    fix x y assume x: "(job_row_at db ++ tx_writes ?s) x = Some y" "jb_dag_id y = d" "\<not> terminal_name (jb_state y)"
    then have "job_row_at (seen s db) x = Some y" using rows by simp
    from job_row_at_mem [OF this] x(2,3) have "x \<in> set (targets ck st (seen s db))"
      unfolding set_targets v(1) by (auto simp: cancellable_iff simp del: seen_sel)
    then show "x \<in> unvisited ?s" by (simp add: unvisited_def)
  qed
  ultimately show ?thesis using T(1-3) st(1) unfolding txn_inv_def by simp
qed

lemma txn_inv_finish:
  assumes inv: "txn_inv db s" and st: "tx_status s = Open" "tx_rest s = st # sts" "tx_running s = Some (snap, [], n)"
  shows "txn_inv db (s\<lparr>tx_running := None, tx_rest := sts\<rparr>)"
proof -
  note T = txn_invD [OF inv] and C = cancel_invD [OF txn_invD(6) [OF inv]]
  let ?s = "s\<lparr>tx_running := None, tx_rest := sts\<rparr>"
  have "cancel_inv db ?s"
    unfolding cancel_inv_def
  proof (intro conjI allI impI)
    show "tx_closed ?s = Some (d, now) \<Longrightarrow> tx_call ?s = CallCancel d now" for d now using C(1) by simp
    fix d now assume c: "tx_call ?s = CallCancel d now" "tx_status ?s = Open"
    then have c': "tx_call s = CallCancel d now" "tx_status s = Open" by simp_all
    note v = visit_cancel [OF inv c'(1) st(3,2)]
    show "d \<in> dg_id ` set (db_dags db)" by (rule C(2) [OF c' v(2)])
    fix x y assume x: "(job_row_at db ++ tx_writes ?s) x = Some y" "jb_dag_id y = d" "\<not> terminal_name (jb_state y)"
    then have "(job_row_at db ++ tx_writes s) x = Some y" by simp
    from C(3) [OF c' this x(2,3)] show "x \<in> unvisited ?s" by (simp add: unvisited_def st(3))
  qed
  moreover have "\<exists>pre. statements (tx_call s) = pre @ sts" using T(3) st(2) by (metis append.assoc append_Cons append_Nil)
  ultimately show ?thesis using T(1-2) st(1) unfolding txn_inv_def run_inv_def by simp
qed

lemma txn_inv_close:
  assumes inv: "txn_inv db s" and st: "tx_status s = Open" "tx_rest s = CloseDag d now # sts" "tx_running s = None"
    and d: "d \<in> dg_id ` set (db_dags db)"
  shows "txn_inv db (s\<lparr>tx_closed := Some (d, now), tx_rest := sts\<rparr>)"
proof -
  note T = txn_invD [OF inv] and C = cancel_invD [OF txn_invD(6) [OF inv]]
  let ?s = "s\<lparr>tx_closed := Some (d, now), tx_rest := sts\<rparr>"
  obtain pre where pre: "statements (tx_call s) = pre @ CloseDag d now # sts" using T(3) st(2) by auto
  then have call: "tx_call s = CallCancel d now" "sts = [CancelRows d now]"
    by (cases "tx_call s"; auto simp: append_eq_Cons_conv Cons_eq_append_conv)+
  have "cancel_inv db ?s" using d by (simp add: cancel_inv_def call unvisited_def st(3))
  moreover have "\<exists>pre. statements (tx_call s) = pre @ sts" using pre by (metis append.assoc append_Cons append_Nil)
  ultimately show ?thesis using T(1-2) st(1,3) unfolding txn_inv_def run_inv_def by simp
qed

lemma txn_inv_undo:
  assumes "txn_inv db s" "in_order (row_needs db) (job_row_at db)" "st \<noteq> Open"
  shows "txn_inv db (s\<lparr>tx_status := st, tx_running := None, tx_writes := Map.empty, tx_closed := None\<rparr>)"
  using assms txn_invD(3) [OF assms(1)] by (simp add: txn_inv_def run_inv_def cancel_inv_def)

lemma remove1_rest: "set xs - {x} \<subseteq> set (remove1 x xs)"
proof
  fix y assume "y \<in> set xs - {x}"
  then show "y \<in> set (remove1 x xs)" using in_set_remove1 [of y x xs] by simp
qed

lemma txn_inv_step:
  assumes inv: "txn_inv db s" and db: "tables_ok db" "in_order (row_needs db) (job_row_at db)"
    and step: "tx_step ck locks dags db s s'"
  shows "txn_inv db s'"
  using step
proof (cases rule: tx_step.cases)
  case (tx_start st sts)
  then show ?thesis using txn_inv_start [OF inv db(1)] by blast
next
  case (tx_write st sts snap todo n i r)
  from txn_inv_write [OF inv tx_write(2,3,5,6,8,9), where todo' = "remove1 i todo" and n' = "n + 1" and t = "tx_taken s", OF set_remove1_subset disjI2 [OF remove1_rest]]
  show ?thesis unfolding tx_write(1) by (cases s) simp
next
  case (tx_pass st sts snap todo n i r)
  from txn_inv_skip [OF inv tx_pass(2,3,5), where todo' = "remove1 i todo" and i = i and r = r and n' = n,
      OF set_remove1_subset disjI2 [OF remove1_rest]] tx_pass(8,9)
  show ?thesis unfolding tx_pass(1) by simp
next
  case (tx_take st sts snap i todo n r)
  from txn_inv_write [OF inv tx_take(2,3,5) _ tx_take(7,8), where todo' = "[]" and n' = "n + 1" and t = "Some i"] tx_take(4)
  show ?thesis unfolding tx_take(1) by simp
next
  case (tx_skip st sts snap i todo n r)
  from txn_inv_skip [OF inv tx_skip(2,3,5), where todo' = todo and i = i and r = r and n' = n] tx_skip(4) show ?thesis unfolding tx_skip(1) by auto
next
  case (tx_finish st sts snap n)
  then show ?thesis using txn_inv_finish [OF inv] by simp
next
  case (tx_close d now sts)
  then show ?thesis using txn_inv_close [OF inv] by simp
next
  case tx_undo
  then show ?thesis using txn_inv_undo [OF inv db(2)] by simp
qed

section \<open>Steps of the others\<close>

text \<open>A row that is unfinished later was unfinished before.\<close>

lemma unfinished_before:
  assumes adv: "advances m m'" and dom: "dom m' \<subseteq> dom m" and y: "m' x = Some y" "\<not> terminal_name (jb_state y)"
  shows "\<exists>r. m x = Some r \<and> \<not> terminal_name (jb_state r) \<and> jb_dag_id r = jb_dag_id y"
proof -
  from dom y(1) obtain r where r: "m x = Some r" by blast
  from advancesD [OF adv r] y(1) have "row_steps UNIV r y" by simp
  from row_steps_key [OF this] have "jb_dag_id r = jb_dag_id y" by (simp add: job_key_def)
  with r advances_unfinished [OF adv r y] show ?thesis by blast
qed

lemma txn_inv_other:
  assumes inv: "txn_inv db s"
    and w: "writes_over (job_row_at db') (tx_writes s)" "in_order (row_needs db') (job_row_at db' ++ tx_writes s)"
    and adv: "advances (job_row_at db ++ tx_writes s) (job_row_at db' ++ tx_writes s)"
    and needs: "\<And>i. job_row_at db i \<noteq> None \<Longrightarrow> row_needs db' i = row_needs db i"
    and ids: "dg_id ` set (db_dags db) \<subseteq> dg_id ` set (db_dags db')"
    and old: "\<And>i r. (job_row_at db' ++ tx_writes s) i = Some r \<Longrightarrow> jb_dag_id r \<in> dg_id ` set (db_dags db) \<Longrightarrow>
      \<not> terminal_name (jb_state r) \<Longrightarrow>
      \<exists>r0. (job_row_at db ++ tx_writes s) i = Some r0 \<and> \<not> terminal_name (jb_state r0) \<and> jb_dag_id r0 = jb_dag_id r"
  shows "txn_inv db' s"
proof -
  note T = txn_invD [OF inv] and C = cancel_invD [OF txn_invD(6) [OF inv]]
  have "run_inv db' s"
    unfolding run_inv_def
  proof (intro allI impI)
    fix snap todo n assume run: "tx_running s = Some (snap, todo, n)"
    note R = run_invD [OF T(5) run]
    have "row_needs db' i = row_needs snap i" if i: "job_row_at snap i \<noteq> None" for i
    proof -
      from i obtain r where "job_row_at snap i = Some r" by blast
      from advancesD [OF R(5) this] have "(job_row_at db ++ tx_writes s) i \<noteq> None" by auto
      with writes_over_dom [OF T(1)] have "job_row_at db i \<noteq> None" by (auto simp: map_add_def split: option.splits)
      from needs [OF this] R(6) [OF i] show ?thesis by simp
    qed
    moreover have "job_row_at snap i \<noteq> None" if "i \<in> set todo" for i using R(7) that .
    ultimately show "arguments_ok (tx_call s) \<and> tx_rest s \<noteq> [] \<and> \<not> closes (hd (tx_rest s)) \<and> tables_ok snap \<and>
      advances (job_row_at snap) (job_row_at db' ++ tx_writes s) \<and>
      (\<forall>i. job_row_at snap i \<noteq> None \<longrightarrow> row_needs db' i = row_needs snap i) \<and>
      (\<forall>i\<in>set todo. job_row_at snap i \<noteq> None)" using R(1-4) advances_trans [OF R(5) adv] by simp
  qed
  moreover have "cancel_inv db' s"
    unfolding cancel_inv_def
  proof (intro conjI allI impI)
    show "tx_closed s = Some (d, now) \<Longrightarrow> tx_call s = CallCancel d now" for d now using C(1) .
    fix d now assume c: "tx_call s = CallCancel d now" "tx_status s = Open"
    show "d \<in> dg_id ` set (db_dags db')" if "tx_rest s \<noteq> statements (CallCancel d now)" using C(2) [OF c that] ids by blast
    fix x y assume x: "(job_row_at db' ++ tx_writes s) x = Some y" "jb_dag_id y = d" "\<not> terminal_name (jb_state y)"
    show "x \<in> unvisited s"
    proof (cases "tx_rest s = statements (CallCancel d now)")
      case True
      then have "tx_running s = None" using run_invD(3) [OF T(5)] by (cases "tx_running s") auto
      with True show ?thesis by (simp add: unvisited_def)
    next
      case False
      have "jb_dag_id y \<in> dg_id ` set (db_dags db)" using C(2) [OF c False] x(2) by simp
      from old [OF x(1) this x(3)] obtain r0 where r0: "(job_row_at db ++ tx_writes s) x = Some r0"
        "\<not> terminal_name (jb_state r0)" "jb_dag_id r0 = jb_dag_id y" by (elim exE conjE)
      show ?thesis by (rule C(3) [OF c r0(1) _ r0(2)]) (simp add: r0(3) x(2))
    qed
  qed
  ultimately show ?thesis using T(3,4) w unfolding txn_inv_def by simp
qed

lemma txn_inv_commit_other:
  assumes inv: "txn_inv db s" and c: "txn_inv db c" and disj: "\<And>i. tx_writes c i = None \<or> tx_writes s i = None"
  shows "txn_inv (published c db) s"
proof (rule txn_inv_other [OF inv])
  note S = txn_invD [OF inv] and C = txn_invD [OF c]
  have rows: "job_row_at (published c db) = job_row_at db ++ tx_writes c" using published_rows seen_rows [OF C(1)] by simp
  note under = commit_under [OF C(1) S(1) disj]
  show "writes_over (job_row_at (published c db)) (tx_writes s)" using under(1) by (simp add: rows)
  show "in_order (row_needs (published c db)) (job_row_at (published c db) ++ tx_writes s)"
    using in_order_commit [OF C(1) S(1) disj C(2) S(2)] by (simp add: rows)
  show adv: "advances (job_row_at db ++ tx_writes s) (job_row_at (published c db) ++ tx_writes s)" using under(2) by (simp add: rows)
  have "map dg_id (db_dags (published c db)) = map dg_id (db_dags db)" by simp
  then show "dg_id ` set (db_dags db) \<subseteq> dg_id ` set (db_dags (published c db))" by (metis list.set_map order_refl)
  have "dom (job_row_at (published c db) ++ tx_writes s) \<subseteq> dom (job_row_at db ++ tx_writes s)"
    using writes_over_dom [OF C(1)] by (auto simp: rows)
  from unfinished_before [OF adv this] show "\<exists>r0. (job_row_at db ++ tx_writes s) i = Some r0 \<and>
      \<not> terminal_name (jb_state r0) \<and> jb_dag_id r0 = jb_dag_id r"
    if "(job_row_at (published c db) ++ tx_writes s) i = Some r" "\<not> terminal_name (jb_state r)" for i r using that .
qed simp

text \<open>An accepted submission appends the rows of a new graph.\<close>

lemma accepted_submission:
  assumes tables: "tables_ok db" and s: "store_submit spec now db = Some (db', Inr ())"
  shows "tables_ok db'" "ds_id spec \<notin> dg_id ` set (db_dags db)" "job_row_at db i = Some r \<Longrightarrow> job_row_at db' i = Some r"
    "job_row_at db i \<noteq> None \<Longrightarrow> row_needs db' i = row_needs db i"
    "db_dags db' = db_dags db @ [\<lparr>dg_id = ds_id spec, dg_state = ''running'', dg_updated_at = now\<rparr>]"
    "job_row_at db' i = Some r \<Longrightarrow> job_row_at db i = None \<Longrightarrow> row_inv r \<and> jb_dag_id r = ds_id spec \<and>
       (jb_state r \<noteq> state_name Pending \<longrightarrow> (\<forall>p\<in>row_needs db' i. succeeded_in (job_row_at db') p))"
proof -
  obtain order where v: "validate spec = Some (Inr order)"
    using s by (auto simp: store_submit_def split: option.splits sum.splits)
  from s [unfolded store_submit_tables [OF tables v]] have new: "ds_id spec \<notin> dg_id ` set (db_dags db)"
    and db': "db' = admitted_tables spec now db" by (auto split: if_splits)
  note step = db_submit [OF s, where ck = "\<lambda>s. s" and show_uuid = "\<lambda>_. []"]
  show tables': "tables_ok db'" by (rule tables_ok_step [OF tables step])
  show "ds_id spec \<notin> dg_id ` set (db_dags db)" by (rule new)
  show "db_dags db' = db_dags db @ [\<lparr>dg_id = ds_id spec, dg_state = ''running'', dg_updated_at = now\<rparr>]"
    by (simp add: db' admitted_tables_def)
  have jobs: "db_jobs db' = db_jobs db @ map (submitted_row (ds_id spec) (dependency_counts spec) now) (ds_jobs spec)"
    by (simp add: db' admitted_tables_def)
  show "job_row_at db' i = Some r" if "job_row_at db i = Some r"
    using job_row_at_mem [OF that] by (simp add: job_row_at_iff [OF tables'] jobs)
  show "row_needs db' i = row_needs db i" if i: "job_row_at db i \<noteq> None"
  proof -
    obtain d j where ij: "i = (d, j)" by (cases i)
    from i obtain r0 where "job_row_at db (d, j) = Some r0" unfolding ij by blast
    note d = job_row_at_dag [OF tables this]
    show ?thesis unfolding ij row_needs_def prod.case step_edges [OF tables step d] ..
  qed
  assume i: "job_row_at db' i = Some r" "job_row_at db i = None"
  from job_row_at_mem [OF i(1)] have r: "r \<in> set (db_jobs db')" "job_key r = i" by simp_all
  have "r \<notin> set (db_jobs db)" using i(2) r(2) by (auto simp: job_row_at_None)
  with r(1) obtain job where job: "job \<in> set (ds_jobs spec)" "r = submitted_row (ds_id spec) (dependency_counts spec) now job"
    by (auto simp: jobs)
  note wf = validate_Inr_well_formed [OF v]
  note facts = submitted_row_facts [OF wf job(1), where now = now, folded job(2)]
  have "\<forall>p\<in>row_needs db' i. succeeded_in (job_row_at db') p" if "jb_state r \<noteq> state_name Pending"
  proof -
    have "in_degree spec (js_id job) = 0" using that facts(2) by presburger
    then have "\<not> blocked db' (ds_id spec) (js_id job)"
      using blocked_admitted(2) [OF tables new wf, where now = now] by (simp add: db')
    moreover have "i = (ds_id spec, js_id job)" using r(2) facts(3,4) by (simp add: job_key_def)
    ultimately show ?thesis unfolding blocked_iff [OF tables'] status_succeeded by blast
  qed
  with facts(1,3) show "row_inv r \<and> jb_dag_id r = ds_id spec \<and>
       (jb_state r \<noteq> state_name Pending \<longrightarrow> (\<forall>p\<in>row_needs db' i. succeeded_in (job_row_at db') p))" by blast
qed

lemma in_order_submit:
  assumes tables: "tables_ok db" and s: "store_submit spec now db = Some (db', Inr ())"
    and w: "writes_over (job_row_at db) w" "in_order (row_needs db) (job_row_at db ++ w)"
  shows "writes_over (job_row_at db') w" "advances (job_row_at db ++ w) (job_row_at db' ++ w)"
    "in_order (row_needs db') (job_row_at db' ++ w)"
proof -
  note A = accepted_submission [OF tables s]
  show w': "writes_over (job_row_at db') w"
    unfolding writes_over_def
  proof (intro allI impI)
    fix i r' assume "w i = Some r'"
    from writes_overD [OF w(1) this] obtain r where "job_row_at db i = Some r" "row_steps UNIV r r'" by (elim exE conjE)
    with A(3) show "\<exists>r. job_row_at db' i = Some r \<and> row_steps UNIV r r'" by blast
  qed
  have same: "(job_row_at db' ++ w) i = Some r" if "(job_row_at db ++ w) i = Some r" for i r
    using that A(3) [of i r] by (cases "w i") (simp_all add: map_add_def)
  then show adv: "advances (job_row_at db ++ w) (job_row_at db' ++ w)" by (auto simp: advances_def)
  show "in_order (row_needs db') (job_row_at db' ++ w)"
  proof (rule in_orderI)
    fix i r assume i: "(job_row_at db' ++ w) i = Some r"
    have old: "(job_row_at db ++ w) i = Some r" if "job_row_at db i \<noteq> None"
    proof -
      from that obtain r0 where "job_row_at db i = Some r0" by blast
      with i A(3) [OF this] show ?thesis by (cases "w i") (simp_all add: map_add_def)
    qed
    have new: "job_row_at db' i = Some r" if "job_row_at db i = None"
      using i that writes_over_dom [OF w(1)] by (cases "w i") (auto simp: map_add_def)
    show "row_inv r" using in_orderD(1) [OF w(2) old] A(6) [OF new] by (cases "job_row_at db i = None") simp_all
    fix p assume st: "jb_state r \<noteq> state_name Pending" "jb_state r \<noteq> state_name Cancelled" "p \<in> row_needs db' i"
    show "succeeded_in (job_row_at db' ++ w) p"
    proof (cases "job_row_at db i = None")
      case True
      from A(6) [OF new [OF True] True] st have "succeeded_in (job_row_at db') p" by blast
      then show ?thesis by (rule advances_succeeded [OF writes_over_advances [OF w']])
    next
      case False
      have "p \<in> row_needs db i" using st(3) A(4) [OF False] by simp
      from in_orderD(2) [OF w(2) old [OF False] st(1,2) this] show ?thesis by (rule advances_succeeded [OF adv])
    qed
  qed
qed

lemma txn_inv_submit:
  assumes inv: "txn_inv db s" and tables: "tables_ok db" and sub: "store_submit spec now db = Some (db', Inr ())"
  shows "txn_inv db' s"
proof (rule txn_inv_other [OF inv])
  note T = txn_invD [OF inv] and A = accepted_submission [OF tables sub]
  note I = in_order_submit [OF tables sub T(1,2)]
  show "writes_over (job_row_at db') (tx_writes s)" "in_order (row_needs db') (job_row_at db' ++ tx_writes s)"
    "advances (job_row_at db ++ tx_writes s) (job_row_at db' ++ tx_writes s)" by (rule I)+
  show "row_needs db' i = row_needs db i" if "job_row_at db i \<noteq> None" for i by (rule A(4) [OF that])
  show "dg_id ` set (db_dags db) \<subseteq> dg_id ` set (db_dags db')" by (auto simp: A(5))
  fix i r assume i: "(job_row_at db' ++ tx_writes s) i = Some r" and dag: "jb_dag_id r \<in> dg_id ` set (db_dags db)"
    and open_: "\<not> terminal_name (jb_state r)"
  have "(job_row_at db ++ tx_writes s) i = Some r"
  proof (cases "job_row_at db i")
    case None
    with i writes_over_dom [OF T(1)] have "job_row_at db' i = Some r" by (cases "tx_writes s i") (auto simp: map_add_def)
    from A(6) [OF this None] dag A(2) show ?thesis by metis
  next
    case (Some r0)
    with i A(3) [OF Some] show ?thesis by (cases "tx_writes s i") (simp_all add: map_add_def)
  qed
  with open_ show "\<exists>r0. (job_row_at db ++ tx_writes s) i = Some r0 \<and> \<not> terminal_name (jb_state r0) \<and> jb_dag_id r0 = jb_dag_id r"
    by (intro exI [of _ r] conjI refl)
qed

lemma cancelled_finished_submit:
  assumes fin: "cancelled_finished db" and tables: "tables_ok db" and sub: "store_submit spec now db = Some (db', Inr ())"
  shows "cancelled_finished db'"
  unfolding cancelled_finished_def
proof (intro allI impI)
  note A = accepted_submission [OF tables sub]
  fix i r g assume i: "job_row_at db' i = Some r" and g: "g \<in> set (db_dags db')" "dg_id g = jb_dag_id r" "dg_state g \<noteq> ''running''"
  have g': "g \<in> set (db_dags db)" using g(1,3) by (auto simp: A(5))
  show "terminal_name (jb_state r)"
  proof (cases "job_row_at db i")
    case None
    from A(6) [OF i None] A(2) g' g(2) show ?thesis by (metis image_eqI)
  next
    case (Some r0)
    with A(3) [OF Some] i have "job_row_at db i = Some r" by simp
    with fin g' g(2,3) show ?thesis unfolding cancelled_finished_def by blast
  qed
qed

section \<open>Every step\<close>

lemma cancelled_finished_commit:
  assumes fin: "cancelled_finished db" and inv: "txn_inv db s" and st: "tx_status s = Open" "tx_rest s = []"
  shows "cancelled_finished (published s db)"
  unfolding cancelled_finished_def
proof (intro allI impI)
  note T = txn_invD [OF inv] and C = cancel_invD [OF txn_invD(6) [OF inv]]
  fix i r g assume i: "job_row_at (published s db) i = Some r" and g: "g \<in> set (db_dags (published s db))"
    "dg_id g = jb_dag_id r" "dg_state g \<noteq> ''running''"
  have row: "(job_row_at db ++ tx_writes s) i = Some r" using i published_rows seen_rows [OF T(1)] by simp
  have g': "g \<in> set (db_dags (close_dag (tx_closed s) db))" using g(1) by (cases "tx_closed s") (auto simp: seen_def close_dag_def)
  show "terminal_name (jb_state r)"
  proof (cases "\<exists>now. tx_closed s = Some (jb_dag_id r, now)")
    case True
    then obtain now where "tx_closed s = Some (jb_dag_id r, now)" by blast
    note c = C(1) [OF this]
    have "tx_running s = None" using run_invD(2) [OF T(5)] st(2) by (cases "tx_running s") auto
    then have "unvisited s = {}" by (simp add: unvisited_def st(2))
    with C(3) [OF c st(1) row refl] show ?thesis by blast
  next
    case False
    with g' g(2) have "g \<in> set (db_dags db)" by (auto simp: close_dag_def split: option.splits if_splits)
    moreover from unfinished_before [OF writes_over_advances [OF T(1)] _ row] writes_over_dom [OF T(1)]
    have "\<exists>r0. job_row_at db i = Some r0 \<and> \<not> terminal_name (jb_state r0) \<and> jb_dag_id r0 = jb_dag_id r"
      if "\<not> terminal_name (jb_state r)" using that by auto
    ultimately show ?thesis using fin g(2,3) unfolding cancelled_finished_def by metis
  qed
qed

lemma txn_inv_commit_self:
  assumes inv: "txn_inv db s" and st: "tx_status s = Open" "tx_rest s = []"
  shows "txn_inv (published s db) (s\<lparr>tx_status := Done, tx_writes := Map.empty, tx_closed := None\<rparr>)"
proof -
  note T = txn_invD [OF inv]
  have "tx_running s = None" using run_invD(2) [OF T(5)] st(2) by (cases "tx_running s") auto
  moreover have "in_order (row_needs (published s db)) (job_row_at (published s db))"
    using T(2) published_rows seen_rows [OF T(1)] by simp
  ultimately show ?thesis using T(3) by (simp add: txn_inv_def run_inv_def cancel_inv_def)
qed

lemma tx_step_writes:
  assumes "tx_step ck locks dags db s s'"
  shows "tx_writes s' i = None \<or> tx_writes s' i = tx_writes s i \<or> i \<notin> locks"
  using assms by (cases rule: tx_step.cases) auto

lemma conc_inv_move:
  assumes inv: "conc_inv (db, S)" and step: "tx_step ck (written_by_others S k) dags db (S k) s"
  shows "conc_inv (db, S(k := s))"
proof (rule conc_invI)
  note D = conc_invD [OF inv]
  show "tables_ok db" "in_order (row_needs db) (job_row_at db)" "cancelled_finished db" by (rule D)+
  show "txn_inv db ((S(k := s)) x)" for x using txn_inv_step [OF D(4) D(1,2) step] D(4) by simp
  have free: "tx_writes s i = None \<or> tx_writes (S l) i = None" if "l \<noteq> k" for l i
    using tx_step_writes [OF step, of i] D(5) [of k l i] that by (auto simp: written_by_others_def)
  show "tx_writes ((S(k := s)) x) i = None \<or> tx_writes ((S(k := s)) y) i = None" if "x \<noteq> y" for x y i
    using D(5) [OF that, of i] free [of x i] free [of y i] that by (cases "x = k"; cases "y = k") auto
qed

lemma conc_inv_commit:
  assumes inv: "conc_inv (db, S)" and st: "tx_status (S k) = Open" "tx_rest (S k) = []"
  shows "conc_inv (published (S k) db, S(k := (S k)\<lparr>tx_status := Done, tx_writes := Map.empty, tx_closed := None\<rparr>))"
proof (rule conc_invI)
  note D = conc_invD [OF inv] and T = txn_invD [OF conc_invD(4) [OF inv, of k]]
  let ?S = "S(k := (S k)\<lparr>tx_status := Done, tx_writes := Map.empty, tx_closed := None\<rparr>)" and ?db = "published (S k) db"
  show "tables_ok ?db"
    by (rule tables_ok_cong [OF tables_ok_seen [OF D(1) T(1)]]) simp_all
  show "in_order (row_needs ?db) (job_row_at ?db)" using T(2) published_rows seen_rows [OF T(1)] by simp
  show "cancelled_finished ?db" by (rule cancelled_finished_commit [OF D(3,4) st])
  show "txn_inv ?db (?S x)" for x
    using txn_inv_commit_self [OF D(4) st] txn_inv_commit_other [OF D(4) D(4), of k x] D(5) [of k x] by (cases "x = k") simp_all
  show "tx_writes (?S x) i = None \<or> tx_writes (?S y) i = None" if "x \<noteq> y" for x y i
    using D(5) [OF that, of i] by simp
qed

lemma conc_inv_submit:
  assumes inv: "conc_inv (db, S)" and sub: "store_submit spec now db = Some (db', Inr ())"
  shows "conc_inv (db', S)"
proof (rule conc_invI)
  note D = conc_invD [OF inv]
  show "in_order (row_needs db') (job_row_at db')" using in_order_submit(3) [OF D(1) sub, of Map.empty] D(2) by simp
  show "tables_ok db'" by (rule accepted_submission(1) [OF D(1) sub])
  show "cancelled_finished db'" by (rule cancelled_finished_submit [OF D(3,1) sub])
  show "txn_inv db' (S x)" for x by (rule txn_inv_submit [OF D(4) D(1) sub])
  show "tx_writes (S x) i = None \<or> tx_writes (S y) i = None" if "x \<noteq> y" for x y i by (rule D(5) [OF that])
qed

lemma conc_inv_step:
  assumes "conc_inv cs" "conc_step ck cs cs'"
  shows "conc_inv cs'"
  using assms(2)
proof (cases rule: conc_step.cases)
  case (conc_move S k db s)
  with assms(1) conc_inv_move show ?thesis by simp
next
  case (conc_commit S k db)
  with assms(1) conc_inv_commit show ?thesis by simp
next
  case (conc_submit spec now db db' S)
  with assms(1) conc_inv_submit show ?thesis by simp
qed

lemma conc_inv_begin:
  assumes "db_inv db"
  shows "conc_inv (db, \<lambda>k. begin_txn (calls k))"
proof -
  have ord: "in_order (row_needs db) (job_row_at db)"
  proof (rule in_orderI)
    fix i r assume i: "job_row_at db i = Some r"
    show "row_inv r" using db_inv_row [OF assms] job_row_at_mem [OF i] by blast
    fix p assume "jb_state r \<noteq> state_name Pending" "jb_state r \<noteq> state_name Cancelled" "p \<in> row_needs db i"
    moreover have "\<not> blocked db (jb_dag_id r) (jb_id r)" if "jb_state r \<noteq> state_name Pending" "jb_state r \<noteq> state_name Cancelled"
      using db_inv_row_ok [OF assms i] that by (simp add: row_ok_def)
    moreover have "i = (jb_dag_id r, jb_id r)" using job_row_at_mem [OF i] by (simp add: job_key_def)
    ultimately show "succeeded_in (job_row_at db) p"
      unfolding blocked_iff [OF db_inv_tables [OF assms]] status_succeeded by blast
  qed
  have "cancelled_finished db"
    unfolding cancelled_finished_def
  proof (intro allI impI)
    fix i r g assume "job_row_at db i = Some r" "g \<in> set (db_dags db)" "dg_id g = jb_dag_id r" "dg_state g \<noteq> ''running''"
    with db_inv_row_ok [OF assms, of i r] show "terminal_name (jb_state r)" unfolding row_ok_def by blast
  qed
  moreover have "txn_inv db (begin_txn call)" for call
    using ord by (simp add: txn_inv_def begin_txn_def run_inv_def cancel_inv_def unvisited_def)
  ultimately show ?thesis using ord db_inv_tables [OF assms] by (simp add: conc_inv_def begin_txn_def)
qed

lemma conc_inv_reachable: "conc_reachable ck calls cs \<Longrightarrow> conc_inv cs"
  unfolding conc_reachable_def
  by (induction rule: rtranclp_induct) (auto intro: conc_inv_step conc_inv_begin db_inv_empty)

section \<open>The history of the committed tables\<close>

lemma conc_step_rows:
  assumes inv: "conc_inv (db, S)" and step: "conc_step ck (db, S) (db', S')"
  shows "advances (job_row_at db) (job_row_at db')" "job_row_at db i \<noteq> None \<Longrightarrow> row_needs db' i = row_needs db i"
proof -
  note D = conc_invD [OF inv]
  have "advances (job_row_at db) (job_row_at db') \<and> (job_row_at db i \<noteq> None \<longrightarrow> row_needs db' i = row_needs db i)" for i
    using step
  proof (cases rule: conc_step.cases)
    case (conc_move k s)
    then show ?thesis by simp
  next
    case (conc_commit k)
    note w = txn_invD(1) [OF D(4) [of k]]
    have "job_row_at db' = job_row_at db ++ tx_writes (S k)" using conc_commit(1) published_rows seen_rows [OF w] by simp
    with writes_over_advances [OF w] show ?thesis by (simp add: conc_commit(1))
  next
    case (conc_submit spec now)
    note A = accepted_submission [OF D(1) conc_submit(2)]
    have "advances (job_row_at db) (job_row_at db')" using A(3) by (auto simp: advances_def)
    with A(4) show ?thesis by blast
  qed
  then show "advances (job_row_at db) (job_row_at db')" "job_row_at db i \<noteq> None \<Longrightarrow> row_needs db' i = row_needs db i" by blast+
qed

lemma conc_steps_rows:
  assumes "(conc_step ck)\<^sup>*\<^sup>* cs cs'" "conc_inv cs"
  shows "conc_inv cs' \<and> advances (job_row_at (fst cs)) (job_row_at (fst cs'))"
  using assms
proof (induction rule: rtranclp_induct)
  case base
  then show ?case by simp
next
  case (step cs' cs'')
  have inv: "conc_inv cs'" and adv: "advances (job_row_at (fst cs)) (job_row_at (fst cs'))" using step.IH [OF step.prems] by simp_all
  obtain db S db' S' where cs: "cs' = (db, S)" "cs'' = (db', S')" by (cases cs', cases cs'') blast
  from conc_step_rows(1) [OF inv [unfolded cs] step.hyps(2) [unfolded cs]] advances_trans [OF adv] conc_inv_step [OF inv step.hyps(2)]
  show ?case by (simp add: cs)
qed

text \<open>Committed states follow the contract of the atomic store, except that a child may be left waiting.\<close>

interpretation concurrent_board: job_history conc_inv "conc_step ck" "\<lambda>cs. row_status (fst cs)" "\<lambda>cs. row_needs (fst cs)" for ck
proof unfold_locales
  fix cs cs' :: conc_state and i p :: "byte_string \<times> byte_string" and st
  obtain db S db' S' where cs: "cs = (db, S)" "cs' = (db', S')" by (cases cs, cases cs') blast
  show "conc_inv cs \<Longrightarrow> conc_step ck cs cs' \<Longrightarrow> conc_inv cs'" by (rule conc_inv_step)
  show "\<exists>st'. row_status (fst cs') i = Some st' \<and> lifecycle\<^sup>*\<^sup>* st st'"
    if "conc_inv cs" "conc_step ck cs cs'" "row_status (fst cs) i = Some st"
  proof -
    from that(3) obtain r where r: "job_row_at db i = Some r" "jb_state r = state_name st" by (auto simp: cs row_status_iff)
    from advancesD [OF conc_step_rows(1) [OF that(1,2) [unfolded cs]] r(1)] obtain r' where
      "job_row_at db' i = Some r'" "row_steps UNIV r r'" by (elim exE conjE)
    with row_steps_lifecycle [OF _ r(2)] show ?thesis unfolding cs fst_conv row_status_iff by blast
  qed
  show "row_needs (fst cs') i = row_needs (fst cs) i"
    if "conc_inv cs" "conc_step ck cs cs'" "row_status (fst cs) i \<noteq> None"
  proof -
    have "job_row_at db i \<noteq> None" using that(3) by (auto simp: cs row_status_def split: option.splits)
    from conc_step_rows(2) [OF that(1,2) [unfolded cs] this] show ?thesis by (simp add: cs)
  qed
  show "row_status (fst cs) p = Some Succeeded"
    if inv: "conc_inv cs" and st: "row_status (fst cs) i = Some st" "st \<noteq> Pending" "st \<noteq> Cancelled" and p: "p \<in> row_needs (fst cs) i"
  proof -
    from st(1) obtain r where r: "job_row_at db i = Some r" "jb_state r = state_name st" by (auto simp: cs row_status_iff)
    from in_orderD(2) [OF conc_invD(2) [OF inv [unfolded cs]] r(1)] r(2) st(2,3) p show ?thesis by (simp add: cs status_succeeded)
  qed
qed

end
