(* ===== verification/ConcurrencyFence.thy ===== *)
theory ConcurrencyFence
  imports ConcurrencyInv
begin

text \<open>
  Leases under concurrency: a token is written by the claim that drew it and by nobody else, the
  session that completes or fails a lease removes its token, and nobody brings it back. So a lease
  is settled once however the sessions interleave, and the result of a completion stays.
\<close>

section \<open>Tokens of calls\<close>

text \<open>The token a claim draws, and the lease a call wants to settle.\<close>

fun draws :: "tx_call \<Rightarrow> uuid option" where
  "draws (CallClaim owner l token now) = Some token"
| "draws call = None"

fun settles :: "tx_call \<Rightarrow> ((byte_string \<times> byte_string) \<times> uuid) option" where
  "settles (CallComplete d j owner token result now) = Some ((d, j), token)"
| "settles (CallFail d j owner token now) = Some ((d, j), token)"
| "settles call = None"

fun completes :: "tx_call \<Rightarrow> bool" where
  "completes (CallComplete d j owner token result now) \<longleftrightarrow> True"
| "completes call \<longleftrightarrow> False"

fun outcome :: "tx_call \<Rightarrow> job_row \<Rightarrow> bool" where
  "outcome (CallComplete d j owner token result now) r \<longleftrightarrow>
     jb_state r = state_name Succeeded \<and> jb_result r = Some result \<and> jb_lease_token r = None"
| "outcome call r \<longleftrightarrow> jb_lease_token r = None"

lemma outcome_token: "outcome call r \<Longrightarrow> jb_lease_token r = None"
  by (cases call) simp_all

lemma outcome_terminal: "outcome call r \<Longrightarrow> completes call \<Longrightarrow> terminal_name (jb_state r)"
  by (cases call) simp_all

lemma rewrite_token:
  "st \<in> set (statements call) \<Longrightarrow> jb_lease_token (rewrite st r) = Some t \<Longrightarrow> jb_lease_token r = Some t \<or> draws call = Some t"
  by (cases call) (auto simp: requeue_row_s lease_row_s succeed_row_s release_row_s cancel_row_s)

text \<open>The first statement of a settling call tests the token and removes it.\<close>

lemma settling_statement:
  assumes "settles call = Some (i, t)" "statements call = st # sts" "hits st snap r"
  shows "job_key r = i" "jb_lease_token r = Some t" "outcome call (rewrite st r)"
  using assms by (cases call; auto simp: held_row_s job_key_def succeed_row_s requeue_row_s)+

lemma settling_rest:
  assumes "settles call = Some (i, t)" "statements call = pre @ st # sts" "pre \<noteq> []"
  shows "\<exists>d j now. completes call \<and> st = ReleaseChildren d j now"
  using assms by (cases call) (auto simp: append_eq_Cons_conv Cons_eq_append_conv)

lemma settling_plain: "settles call = Some x \<Longrightarrow> st \<in> set (statements call) \<Longrightarrow> \<not> takes st \<and> \<not> closes st"
  by (cases call) auto

section \<open>One session\<close>

definition begun :: "txn \<Rightarrow> bool" where
  "begun s \<longleftrightarrow> tx_rest s \<noteq> statements (tx_call s) \<or> (\<exists>snap todo n. tx_running s = Some (snap, todo, Suc n))"

definition session_ok :: "txn \<Rightarrow> bool" where
  "session_ok s \<longleftrightarrow> (\<forall>i t. settles (tx_call s) = Some (i, t) \<longrightarrow> tx_status s = Open \<longrightarrow>
     (begun s \<longrightarrow> tx_writes s i \<noteq> None) \<and> (\<forall>r. tx_writes s i = Some r \<longrightarrow> outcome (tx_call s) r))"

lemma session_okD:
  assumes "session_ok s" "settles (tx_call s) = Some (i, t)" "tx_status s = Open"
  shows "begun s \<Longrightarrow> tx_writes s i \<noteq> None" "tx_writes s i = Some r \<Longrightarrow> outcome (tx_call s) r"
proof -
  note 1 = assms(1) [unfolded session_ok_def, THEN spec, THEN spec, THEN mp, THEN mp, OF assms(2,3)]
  show "begun s \<Longrightarrow> tx_writes s i \<noteq> None" by (rule 1 [THEN conjunct1, THEN mp])
  show "tx_writes s i = Some r \<Longrightarrow> outcome (tx_call s) r" by (rule 1 [THEN conjunct2, THEN spec, THEN mp])
qed

lemma session_okI:
  assumes "\<And>i t. settles (tx_call s) = Some (i, t) \<Longrightarrow> tx_status s = Open \<Longrightarrow> begun s \<Longrightarrow> tx_writes s i \<noteq> None"
    and "\<And>i t r. settles (tx_call s) = Some (i, t) \<Longrightarrow> tx_status s = Open \<Longrightarrow> tx_writes s i = Some r \<Longrightarrow> outcome (tx_call s) r"
  shows "session_ok s"
  unfolding session_ok_def by (intro allI impI conjI assms)

lemma session_ok_quiet:
  assumes ok: "session_ok s" and same: "tx_call s' = tx_call s" "tx_writes s' = tx_writes s" "tx_status s' = tx_status s"
    and b: "begun s' \<Longrightarrow> begun s"
  shows "session_ok s'"
  by (rule session_okI) (use session_okD [OF ok] b in \<open>simp_all add: same\<close>)

text \<open>What a settling session may write: its job first, then children of the job.\<close>

lemma settling_write:
  assumes inv: "txn_inv db s" and ok: "session_ok s" and st: "tx_status s = Open" "tx_rest s = st # sts"
    and run: "tx_running s = Some (snap, todo, n)" and hit: "job_row_at (seen s db) x = Some r" "hits st snap r"
    and s: "settles (tx_call s) = Some (i, t)"
  shows "tx_rest s = statements (tx_call s) \<and> x = i \<and> jb_lease_token r = Some t \<and> outcome (tx_call s) (rewrite st r) \<or>
    begun s \<and> tx_rest s \<noteq> statements (tx_call s) \<and> x \<noteq> i"
proof -
  note T = txn_invD [OF inv]
  from T(3) obtain pre where pre: "statements (tx_call s) = pre @ st # sts" using st(2) by auto
  show ?thesis
  proof (cases "pre = []")
    case True
    then have eq: "tx_rest s = statements (tx_call s)" using pre st(2) by simp
    then have "statements (tx_call s) = st # sts" using st(2) by simp
    note f = settling_statement [OF s this hit(2)]
    have "x = i" using f(1) job_row_at_mem [OF hit(1)] by simp
    with eq f show ?thesis by simp
  next
    case False
    with pre st(2) have ne: "tx_rest s \<noteq> statements (tx_call s)" by auto
    then have b: "begun s" by (simp add: begun_def)
    from session_okD(1) [OF ok s st(1) b] obtain r0 where r0: "tx_writes s i = Some r0" by blast
    from settling_rest [OF s pre False] obtain d j now where c: "completes (tx_call s)" "st = ReleaseChildren d j now" by blast
    have "terminal_name (jb_state r0)" by (rule outcome_terminal [OF session_okD(2) [OF ok s st(1) r0] c(1)])
    moreover have "\<not> terminal_name (jb_state r)" by (rule hits_open [OF hit(2)])
    moreover have "job_row_at (seen s db) i = Some r0" using seen_rows [OF T(1)] r0 by simp
    ultimately have "x \<noteq> i" using hit(1) by auto
    with b ne show ?thesis by simp
  qed
qed

lemma session_ok_write:
  assumes inv: "txn_inv db s" and ok: "session_ok s" and st: "tx_status s = Open" "tx_rest s = st # sts"
    and run: "tx_running s = Some (snap, todo, n)" and hit: "job_row_at (seen s db) x = Some r" "hits st snap r"
    and s': "tx_call s' = tx_call s" "tx_writes s' = (tx_writes s)(x \<mapsto> rewrite st r)"
  shows "session_ok s'"
proof (rule session_okI)
  fix i t assume i: "settles (tx_call s') = Some (i, t)"
  note w = settling_write [OF inv ok st run hit i [unfolded s'(1)]]
  note D = session_okD [OF ok i [unfolded s'(1)] st(1)]
  show "tx_writes s' i \<noteq> None" using w D(1) by (auto simp: s'(2))
  fix y assume "tx_writes s' i = Some y"
  with w D(2) [of y] show "outcome (tx_call s') y" by (auto simp: s' split: if_splits)
qed

lemma session_ok_step:
  assumes inv: "txn_inv db s" and ok: "session_ok s" and step: "tx_step ck locks dags db s s'"
  shows "session_ok s'"
  using step
proof (cases rule: tx_step.cases)
  case (tx_start st sts)
  show ?thesis by (rule session_ok_quiet [OF ok]) (use tx_start in \<open>auto simp: begun_def\<close>)
next
  case (tx_write st sts snap todo n i r)
  show ?thesis by (rule session_ok_write [OF inv ok tx_write(2,3,5,8,9)]) (simp_all add: tx_write(1))
next
  case (tx_pass st sts snap todo n i r)
  show ?thesis by (rule session_ok_quiet [OF ok]) (use tx_pass in \<open>auto simp: begun_def\<close>)
next
  case (tx_take st sts snap i todo n r)
  show ?thesis by (rule session_ok_write [OF inv ok tx_take(2,3,5,7,8)]) (simp_all add: tx_take(1))
next
  case (tx_skip st sts snap i todo n r)
  show ?thesis by (rule session_ok_quiet [OF ok]) (use tx_skip in \<open>auto simp: begun_def\<close>)
next
  case (tx_finish st sts snap n)
  show ?thesis
  proof (rule session_okI)
    fix i t assume "settles (tx_call s') = Some (i, t)"
    then have i: "settles (tx_call s) = Some (i, t)" by (simp add: tx_finish(1))
    note D = session_okD [OF ok i tx_finish(2)]
    have "begun s"
    proof (cases "tx_rest s = statements (tx_call s)")
      case True
      with tx_finish(3,5) i have "n \<noteq> 0" by (cases "tx_call s") (auto simp: ensure_compare_and_set_def split: if_splits)
      then obtain m where "n = Suc m" by (cases n) auto
      with tx_finish(4) show ?thesis by (simp add: begun_def)
    qed (simp add: begun_def)
    from D(1) [OF this] show "tx_writes s' i \<noteq> None" by (simp add: tx_finish(1))
    show "outcome (tx_call s') r" if "tx_writes s' i = Some r" for r using D(2) [of r] that by (simp add: tx_finish(1))
  qed
next
  case (tx_close d now sts)
  have "CloseDag d now \<in> set (statements (tx_call s))" using txn_invD(3) [OF inv] tx_close(3) by auto
  then have "settles (tx_call s) \<noteq> Some x" for x using settling_plain [of "tx_call s" x "CloseDag d now"] by auto
  then show ?thesis by (simp add: session_ok_def tx_close(1))
next
  case tx_undo
  then show ?thesis by (simp add: session_ok_def)
qed

section \<open>All sessions\<close>

definition claimed :: "(nat \<Rightarrow> txn) \<Rightarrow> uuid \<Rightarrow> bool" where
  "claimed S t \<longleftrightarrow> (\<exists>c. draws (tx_call (S c)) = Some t \<and> tx_status (S c) = Done)"

definition settled :: "txn \<Rightarrow> byte_string \<times> byte_string \<Rightarrow> bool" where
  "settled s i \<longleftrightarrow> tx_status s = Done \<or> tx_writes s i \<noteq> None"

definition view :: "database \<Rightarrow> txn \<Rightarrow> byte_string \<times> byte_string \<Rightarrow> job_row option" where
  "view db s = job_row_at db ++ tx_writes s"

definition lease_over :: "uuid \<Rightarrow> job_row option \<Rightarrow> bool" where
  "lease_over t r \<longleftrightarrow> (\<forall>r'. r = Some r' \<longrightarrow> jb_lease_token r' \<noteq> Some t)"

definition fence_inv :: "conc_state \<Rightarrow> bool" where
  "fence_inv = (\<lambda>(db, S).
     (\<forall>k. session_ok (S k)) \<and>
     (\<forall>i r t. job_row_at db i = Some r \<longrightarrow> jb_lease_token r = Some t \<longrightarrow> claimed S t) \<and>
     (\<forall>k i r t. view db (S k) i = Some r \<longrightarrow> jb_lease_token r = Some t \<longrightarrow> claimed S t \<or> draws (tx_call (S k)) = Some t) \<and>
     (\<forall>k i t. settles (tx_call (S k)) = Some (i, t) \<longrightarrow> settled (S k) i \<longrightarrow> claimed S t) \<and>
     (\<forall>k i t l. settles (tx_call (S k)) = Some (i, t) \<longrightarrow> tx_status (S k) = Done \<longrightarrow> lease_over t (view db (S l) i)) \<and>
     (\<forall>k l i t t'. k \<noteq> l \<longrightarrow> settles (tx_call (S k)) = Some (i, t) \<longrightarrow> settles (tx_call (S l)) = Some (i, t') \<longrightarrow>
        t = t' \<or> completes (tx_call (S k)) \<and> completes (tx_call (S l)) \<longrightarrow> settled (S k) i \<longrightarrow> \<not> settled (S l) i) \<and>
     (\<forall>k i t. settles (tx_call (S k)) = Some (i, t) \<longrightarrow> tx_status (S k) = Done \<longrightarrow> completes (tx_call (S k)) \<longrightarrow>
        (\<exists>r. job_row_at db i = Some r \<and> outcome (tx_call (S k)) r)))"

lemma fence_invD:
  assumes "fence_inv (db, S)"
  shows "session_ok (S k)"
    "job_row_at db i = Some r \<Longrightarrow> jb_lease_token r = Some t \<Longrightarrow> claimed S t"
    "view db (S k) i = Some r \<Longrightarrow> jb_lease_token r = Some t \<Longrightarrow> claimed S t \<or> draws (tx_call (S k)) = Some t"
    "settles (tx_call (S k)) = Some (i, t) \<Longrightarrow> settled (S k) i \<Longrightarrow> claimed S t"
    "settles (tx_call (S k)) = Some (i, t) \<Longrightarrow> tx_status (S k) = Done \<Longrightarrow> lease_over t (view db (S l) i)"
    "k \<noteq> l \<Longrightarrow> settles (tx_call (S k)) = Some (i, t) \<Longrightarrow> settles (tx_call (S l)) = Some (i, t') \<Longrightarrow>
      t = t' \<or> completes (tx_call (S k)) \<and> completes (tx_call (S l)) \<Longrightarrow> settled (S k) i \<Longrightarrow> \<not> settled (S l) i"
    "settles (tx_call (S k)) = Some (i, t) \<Longrightarrow> tx_status (S k) = Done \<Longrightarrow> completes (tx_call (S k)) \<Longrightarrow>
      \<exists>r. job_row_at db i = Some r \<and> outcome (tx_call (S k)) r"
proof -
  note 1 = assms [unfolded fence_inv_def prod.case]
  note 2 = 1 [THEN conjunct2] note 3 = 2 [THEN conjunct2] note 4 = 3 [THEN conjunct2]
  note 5 = 4 [THEN conjunct2] note 6 = 5 [THEN conjunct2] note 7 = 6 [THEN conjunct2]
  show "session_ok (S k)" by (rule 1 [THEN conjunct1, rule_format])
  show "job_row_at db i = Some r \<Longrightarrow> jb_lease_token r = Some t \<Longrightarrow> claimed S t" by (rule 2 [THEN conjunct1, rule_format])
  show "view db (S k) i = Some r \<Longrightarrow> jb_lease_token r = Some t \<Longrightarrow> claimed S t \<or> draws (tx_call (S k)) = Some t"
    by (rule 3 [THEN conjunct1, rule_format])
  show "settles (tx_call (S k)) = Some (i, t) \<Longrightarrow> settled (S k) i \<Longrightarrow> claimed S t" by (rule 4 [THEN conjunct1, rule_format])
  show "settles (tx_call (S k)) = Some (i, t) \<Longrightarrow> tx_status (S k) = Done \<Longrightarrow> lease_over t (view db (S l) i)"
    by (rule 5 [THEN conjunct1, rule_format])
  show "k \<noteq> l \<Longrightarrow> settles (tx_call (S k)) = Some (i, t) \<Longrightarrow> settles (tx_call (S l)) = Some (i, t') \<Longrightarrow>
      t = t' \<or> completes (tx_call (S k)) \<and> completes (tx_call (S l)) \<Longrightarrow> settled (S k) i \<Longrightarrow> \<not> settled (S l) i"
    by (rule 6 [THEN conjunct1, rule_format])
  show "settles (tx_call (S k)) = Some (i, t) \<Longrightarrow> tx_status (S k) = Done \<Longrightarrow> completes (tx_call (S k)) \<Longrightarrow>
      \<exists>r. job_row_at db i = Some r \<and> outcome (tx_call (S k)) r"
    by (rule 7 [rule_format])
qed

lemma fence_invI:
  assumes "\<And>k. session_ok (S k)"
    and "\<And>i r t. job_row_at db i = Some r \<Longrightarrow> jb_lease_token r = Some t \<Longrightarrow> claimed S t"
    and "\<And>k i r t. view db (S k) i = Some r \<Longrightarrow> jb_lease_token r = Some t \<Longrightarrow> claimed S t \<or> draws (tx_call (S k)) = Some t"
    and "\<And>k i t. settles (tx_call (S k)) = Some (i, t) \<Longrightarrow> settled (S k) i \<Longrightarrow> claimed S t"
    and "\<And>k i t l. settles (tx_call (S k)) = Some (i, t) \<Longrightarrow> tx_status (S k) = Done \<Longrightarrow> lease_over t (view db (S l) i)"
    and "\<And>k l i t t'. k \<noteq> l \<Longrightarrow> settles (tx_call (S k)) = Some (i, t) \<Longrightarrow> settles (tx_call (S l)) = Some (i, t') \<Longrightarrow>
      t = t' \<or> completes (tx_call (S k)) \<and> completes (tx_call (S l)) \<Longrightarrow> settled (S k) i \<Longrightarrow> \<not> settled (S l) i"
    and "\<And>k i t. settles (tx_call (S k)) = Some (i, t) \<Longrightarrow> tx_status (S k) = Done \<Longrightarrow> completes (tx_call (S k)) \<Longrightarrow>
      \<exists>r. job_row_at db i = Some r \<and> outcome (tx_call (S k)) r"
  shows "fence_inv (db, S)"
  unfolding fence_inv_def prod.case by (intro conjI allI impI assms)

section \<open>A session moves\<close>

lemma tx_step_effect:
  assumes "tx_step ck locks dags db s s'"
  obtains (quiet) "tx_writes s' = tx_writes s" "tx_status s' = Open"
  | (undone) "tx_status s' = Undone" "tx_writes s' = Map.empty"
  | (wrote) st sts snap todo n i r where "tx_rest s = st # sts" "tx_running s = Some (snap, todo, n)" "tx_status s' = Open"
      "i \<notin> locks" "job_row_at (seen s db) i = Some r" "hits st snap r" "tx_writes s' = (tx_writes s)(i \<mapsto> rewrite st r)"
  using assms
proof (cases rule: tx_step.cases)
  case (tx_write st sts snap todo n i r)
  show ?thesis by (rule wrote [of st sts snap todo n i r]) (simp_all add: tx_write)
next
  case (tx_take st sts snap i todo n r)
  show ?thesis by (rule wrote [of st sts snap "i # todo" n i r]) (simp_all add: tx_take)
qed (simp_all add: quiet undone)

lemma tx_step_open: "tx_step ck locks dags db s s' \<Longrightarrow> tx_status s = Open \<and> tx_status s' \<noteq> Done"
  by (cases rule: tx_step.cases) auto

lemma tx_step_call: "tx_step ck locks dags db s s' \<Longrightarrow> tx_call s' = tx_call s"
  by (cases rule: tx_step.cases) auto

lemma view_seen: "txn_inv db s \<Longrightarrow> job_row_at (seen s db) = view db s"
  using seen_rows [OF txn_invD(1)] by (simp add: view_def)

lemma view_empty [simp]: "tx_writes s = Map.empty \<Longrightarrow> view db s = job_row_at db"
  by (simp add: view_def)

lemma view_write: "tx_writes s' = (tx_writes s)(i \<mapsto> r) \<Longrightarrow> view db s' = (view db s)(i \<mapsto> r)"
  by (simp add: view_def)

lemma view_None: "tx_writes s i = None \<Longrightarrow> view db s i = job_row_at db i"
  by (simp add: view_def map_add_def)

definition tokens_distinct :: "(nat \<Rightarrow> tx_call) \<Rightarrow> bool" where
  "tokens_distinct calls \<longleftrightarrow> (\<forall>k l t. draws (calls k) = Some t \<longrightarrow> draws (calls l) = Some t \<longrightarrow> k = l)"

text \<open>A session settles a lease: the committed row carried its token, and nobody else had written the row.\<close>

lemma newly_settled:
  assumes cinv: "conc_inv (db, S)" and finv: "fence_inv (db, S)" and step: "tx_step ck (written_by_others S k) dags db (S k) s"
    and s: "settles (tx_call (S k)) = Some (i, t)" "settled s i" "\<not> settled (S k) i"
  shows "\<exists>r. job_row_at db i = Some r \<and> jb_lease_token r = Some t" "i \<notin> written_by_others S k"
proof -
  note D = conc_invD(4) [OF cinv] and F = fence_invD(1) [OF finv]
  have op: "tx_status (S k) = Open" using tx_step_open [OF step] by blast
  have none: "tx_writes (S k) i = None" using s(3) by (simp add: settled_def)
  have "(\<exists>r. job_row_at db i = Some r \<and> jb_lease_token r = Some t) \<and> i \<notin> written_by_others S k"
    using step
  proof (cases rule: tx_step_effect)
    case quiet
    with s(2) none show ?thesis by (simp add: settled_def)
  next
    case undone
    with s(2) show ?thesis by (simp add: settled_def)
  next
    case (wrote st sts snap todo n x r)
    have "x = i" using s(2) none wrote(3,7) by (auto simp: settled_def split: if_splits)
    with settling_write [OF D F op wrote(1,2,5,6) s(1)] have "jb_lease_token r = Some t" by blast
    moreover have "job_row_at db i = Some r" using wrote(5) view_seen [OF D] view_None [OF none] \<open>x = i\<close> by simp
    ultimately show ?thesis using wrote(4) \<open>x = i\<close> by simp
  qed
  then show "\<exists>r. job_row_at db i = Some r \<and> jb_lease_token r = Some t" "i \<notin> written_by_others S k" by blast+
qed

lemma claimed_move:
  assumes "claimed S t" "tx_status (S k) = Open"
  shows "claimed (S(k := s)) t"
proof -
  from assms(1) obtain c where c: "draws (tx_call (S c)) = Some t" "tx_status (S c) = Done" by (auto simp: claimed_def)
  with assms(2) have "c \<noteq> k" by auto
  with c show ?thesis unfolding claimed_def by (intro exI [of _ c]) simp
qed

text \<open>A token that is claimed is not written again.\<close>

lemma view_over_step:
  assumes cinv: "conc_inv (db, S)" and finv: "fence_inv (db, S)" and calls: "\<And>k. tx_call (S k) = calls k" "tokens_distinct calls"
    and step: "tx_step ck (written_by_others S k) dags db (S k) s"
    and m: "settles (tx_call (S m)) = Some (i, t)" "tx_status (S m) = Done"
  shows "lease_over t (view db s i)"
  using step
proof (cases rule: tx_step_effect)
  case quiet
  with fence_invD(5) [OF finv m, of k] show ?thesis by (simp add: view_def)
next
  case undone
  have "tx_writes (S m) = Map.empty" using txn_invD(4) [OF conc_invD(4) [OF cinv, of m]] m(2) by simp
  with undone(2) fence_invD(5) [OF finv m, of m] show ?thesis by simp
next
  case (wrote st sts snap todo n x r)
  note over = fence_invD(5) [OF finv m, of k]
  show ?thesis
  proof (cases "x = i")
    case True
    have r: "jb_lease_token r \<noteq> Some t" using over wrote(5) view_seen [OF conc_invD(4) [OF cinv]] True by (simp add: lease_over_def)
    have "draws (tx_call (S k)) \<noteq> Some t"
    proof
      assume k: "draws (tx_call (S k)) = Some t"
      have "claimed S t" using fence_invD(4) [OF finv m(1)] m(2) by (simp add: settled_def)
      then obtain c where c: "draws (tx_call (S c)) = Some t" "tx_status (S c) = Done" by (auto simp: claimed_def)
      with k calls have "c = k" unfolding tokens_distinct_def by metis
      with c(2) tx_step_open [OF step] show False by simp
    qed
    moreover have "st \<in> set (statements (tx_call (S k)))" by (rule running_statement(1) [OF conc_invD(4) [OF cinv] wrote(2,1)])
    ultimately have "jb_lease_token (rewrite st r) \<noteq> Some t" using r rewrite_token by blast
    with True show ?thesis by (simp add: view_write [OF wrote(7)] lease_over_def)
  next
    case False
    with over show ?thesis by (simp add: view_write [OF wrote(7)] lease_over_def)
  qed
qed

lemma view_token_step:
  assumes cinv: "conc_inv (db, S)" and finv: "fence_inv (db, S)" and step: "tx_step ck (written_by_others S k) dags db (S k) s"
    and x: "view db s i = Some r" "jb_lease_token r = Some t"
  shows "claimed S t \<or> draws (tx_call (S k)) = Some t"
  using step
proof (cases rule: tx_step_effect)
  case quiet
  with x(1) have "view db (S k) i = Some r" by (simp add: view_def)
  from fence_invD(3) [OF finv this x(2)] show ?thesis .
next
  case undone
  with x(1) have "job_row_at db i = Some r" by simp
  from fence_invD(2) [OF finv this x(2)] show ?thesis ..
next
  case (wrote st sts snap todo n y r0)
  show ?thesis
  proof (cases "y = i")
    case True
    have st: "st \<in> set (statements (tx_call (S k)))" by (rule running_statement(1) [OF conc_invD(4) [OF cinv] wrote(2,1)])
    have v: "view db (S k) i = Some r0" using wrote(5) view_seen [OF conc_invD(4) [OF cinv]] True by simp
    have "r = rewrite st r0" using x(1) True by (simp add: view_write [OF wrote(7)])
    with rewrite_token [OF st, of r0 t] x(2) fence_invD(3) [OF finv v, of t] show ?thesis by blast
  next
    case False
    with x(1) have "view db (S k) i = Some r" by (simp add: view_write [OF wrote(7)])
    from fence_invD(3) [OF finv this x(2)] show ?thesis .
  qed
qed

lemma fence_inv_move:
  assumes cinv: "conc_inv (db, S)" and finv: "fence_inv (db, S)" and calls: "\<And>k. tx_call (S k) = calls k" "tokens_distinct calls"
    and step: "tx_step ck (written_by_others S k) dags db (S k) s"
  shows "fence_inv (db, S(k := s))"
proof (rule fence_invI)
  let ?S = "S(k := s)"
  note F = fence_invD [OF finv] and op = tx_step_open [OF step] and call = tx_step_call [OF step]
  have same [simp]: "tx_call (?S l) = tx_call (S l)" for l using call by simp
  have claimed: "claimed ?S t" if "claimed S t" for t using claimed_move [OF that] op by blast
  have finished: "l \<noteq> k \<and> tx_status (S l) = Done" if "tx_status (?S l) = Done" for l using that op by (cases "l = k") simp_all
  show "session_ok (?S l)" for l
    using F(1) session_ok_step [OF conc_invD(4) [OF cinv] F(1) step] by (cases "l = k") simp_all
  show "claimed ?S t" if "job_row_at db i = Some r" "jb_lease_token r = Some t" for i r t using F(2) [OF that] claimed by blast
  show "claimed ?S t \<or> draws (tx_call (?S l)) = Some t" if "view db (?S l) i = Some r" "jb_lease_token r = Some t" for l i r t
  proof (cases "l = k")
    case True
    with that have "view db s i = Some r" by simp
    from view_token_step [OF cinv finv step this that(2)] claimed True call show ?thesis by auto
  next
    case False
    with that F(3) [of l i r t] claimed show ?thesis by auto
  qed
  show "claimed ?S t" if i: "settles (tx_call (?S l)) = Some (i, t)" "settled (?S l) i" for l i t
  proof (cases "settled (S l) i")
    case True
    from claimed [OF F(4) [OF i(1) [unfolded same] True]] show ?thesis .
  next
    case False
    then have "l = k" using i(2) by (cases "l = k") simp_all
    with i False newly_settled(1) [OF cinv finv step, of i t] F(2) [of i _ t] claimed call show ?thesis by auto
  qed
  show "lease_over t (view db (?S m) i)" if "settles (tx_call (?S l)) = Some (i, t)" "tx_status (?S l) = Done" for l i t m
  proof -
    have l: "settles (tx_call (S l)) = Some (i, t)" "tx_status (S l) = Done" using that(1) finished [OF that(2)] by simp_all
    from view_over_step [OF cinv finv calls step l] F(5) [OF l, of m] show ?thesis by (cases "m = k") simp_all
  qed
  have other: "\<not> settled (S l) i" if "l \<noteq> k" "settles (tx_call (S k)) = Some (i, t)" "settles (tx_call (S l)) = Some (i, t')"
    "t = t' \<or> completes (tx_call (S k)) \<and> completes (tx_call (S l))" "settled s i" for l i t t'
  proof (cases "settled (S k) i")
    case True
    from F(6) [OF that(1) [symmetric] that(2,3,4) True] show ?thesis .
  next
    case False
    note new = newly_settled [OF cinv finv step that(2,5) False]
    have "tx_writes (S k) i = None" using False by (simp add: settled_def)
    with new(1) have over: "\<not> lease_over t (view db (S k) i)" by (auto simp: lease_over_def view_None)
    have "tx_status (S l) \<noteq> Done"
    proof
      assume l: "tx_status (S l) = Done"
      from that(4) show False
      proof
        assume "t = t'"
        with F(5) [OF that(3) l, of k] over show False by simp
      next
        assume "completes (tx_call (S k)) \<and> completes (tx_call (S l))"
        with F(7) [OF that(3) l] new(1) outcome_token show False by fastforce
      qed
    qed
    moreover have "tx_writes (S l) i = None" using new(2) that(1) by (auto simp: written_by_others_def)
    ultimately show ?thesis by (simp add: settled_def)
  qed
  show "\<not> settled (?S m) i" if "l \<noteq> m" "settles (tx_call (?S l)) = Some (i, t)" "settles (tx_call (?S m)) = Some (i, t')"
    "t = t' \<or> completes (tx_call (?S l)) \<and> completes (tx_call (?S m))" "settled (?S l) i" for l m i t t'
  proof
    assume sm: "settled (?S m) i"
    note calls' = that(2-4) [unfolded same]
    consider "l = k" | "m = k" | "l \<noteq> k" "m \<noteq> k" by blast
    then show False
    proof cases
      case 1
      with other [of m i t t'] calls' that(1,5) sm show False by simp
    next
      case 2
      with other [of l i t' t] calls' that(1,5) sm show False by auto
    next
      case 3
      with F(6) [OF that(1) calls'] that(5) sm show False by simp
    qed
  qed
  show "\<exists>r. job_row_at db i = Some r \<and> outcome (tx_call (?S l)) r"
    if "settles (tx_call (?S l)) = Some (i, t)" "tx_status (?S l) = Done" "completes (tx_call (?S l))" for l i t
    using F(7) [of l i t] that finished [OF that(2)] by simp
qed

section \<open>A session commits, and a submission\<close>

lemma view_commit:
  assumes "txn_inv db c" "view (published c db) s x = Some r"
  shows "view db s x = Some r \<or> view db c x = Some r"
proof -
  have "job_row_at (published c db) = view db c" using published_rows view_seen [OF assms(1)] by simp
  with assms(2) show ?thesis by (cases "tx_writes s x") (simp_all add: view_def map_add_def)
qed

text \<open>A settling session that has done all its statements has written its row.\<close>

lemma finished_settled:
  assumes "session_ok s" "settles (tx_call s) = Some (i, t)" "tx_status s = Open" "tx_rest s = []"
  shows "\<exists>r. tx_writes s i = Some r \<and> outcome (tx_call s) r"
proof -
  have "begun s" using assms(2,4) by (cases "tx_call s") (auto simp: begun_def)
  from session_okD(1) [OF assms(1-3) this] session_okD(2) [OF assms(1-3)] show ?thesis by blast
qed

lemma fence_inv_commit:
  assumes cinv: "conc_inv (db, S)" and finv: "fence_inv (db, S)" and st: "tx_status (S k) = Open" "tx_rest (S k) = []"
  shows "fence_inv (published (S k) db, S(k := (S k)\<lparr>tx_status := Done, tx_writes := Map.empty, tx_closed := None\<rparr>))"
proof (rule fence_invI)
  let ?s = "(S k)\<lparr>tx_status := Done, tx_writes := Map.empty, tx_closed := None\<rparr>" and ?db = "published (S k) db"
  let ?S = "S(k := ?s)"
  note F = fence_invD [OF finv] and D = conc_invD [OF cinv]
  have same [simp]: "tx_call (?S l) = tx_call (S l)" for l by simp
  have mono: "claimed ?S t" if "claimed S t" for t using that unfolding claimed_def by (auto; metis)
  have own: "claimed ?S t" if "draws (tx_call (S k)) = Some t" for t using that unfolding claimed_def by (intro exI [of _ k]) simp
  have rows: "job_row_at ?db = view db (S k)" using published_rows view_seen [OF D(4)] by simp
  have before: "\<exists>m. view db (S m) x = Some r \<and> (m = k \<or> m = l)" if "view ?db (?S l) x = Some r" for l x r
  proof (cases "l = k")
    case True
    with that rows show ?thesis by simp
  next
    case False
    with that view_commit [OF D(4), of k "S l" x r] show ?thesis by auto
  qed
  have settled: "settled (S l) i" if "settled (?S l) i" "settles (tx_call (S l)) = Some (i, t)" for l i t
  proof (cases "l = k")
    case True
    with that finished_settled [OF F(1) _ st, of i t] show ?thesis by (auto simp: settled_def)
  qed (use that in simp)
  show "session_ok (?S l)" for l using F(1) [of l] by (cases "l = k") (simp_all add: session_ok_def)
  show "claimed ?S t" if "job_row_at ?db i = Some r" "jb_lease_token r = Some t" for i r t
    using F(3) [of k i r t] that rows mono own by auto
  show "claimed ?S t \<or> draws (tx_call (?S l)) = Some t" if "view ?db (?S l) i = Some r" "jb_lease_token r = Some t" for l i r t
  proof -
    from before [OF that(1)] obtain m where m: "view db (S m) i = Some r" "m = k \<or> m = l" by blast
    from F(3) [OF m(1) that(2)] m(2) mono own show ?thesis by auto
  qed
  show "claimed ?S t" if "settles (tx_call (?S l)) = Some (i, t)" "settled (?S l) i" for l i t
    by (rule mono [OF F(4) [OF that(1) [unfolded same] settled [OF that(2) that(1) [unfolded same]]]])
  show "lease_over t (view ?db (?S m) i)" if i: "settles (tx_call (?S l)) = Some (i, t)" "tx_status (?S l) = Done" for l i t m
  proof (cases "l = k")
    case True
    with finished_settled [OF F(1) _ st, of i t] i(1) obtain r where r: "tx_writes (S k) i = Some r" "outcome (tx_call (S k)) r" by auto
    have "view db (S k) i = Some r" using r(1) by (simp add: view_def)
    then have "view ?db (?S m) i = Some r"
      using D(5) [of k m i] r(1) rows by (cases "m = k") (simp_all add: view_None)
    with outcome_token [OF r(2)] show ?thesis by (simp add: lease_over_def)
  next
    case False
    with i have l: "settles (tx_call (S l)) = Some (i, t)" "tx_status (S l) = Done" by simp_all
    show ?thesis
      unfolding lease_over_def
    proof (intro allI impI)
      fix r assume "view ?db (?S m) i = Some r"
      from before [OF this] obtain x where "view db (S x) i = Some r" by blast
      with F(5) [OF l, of x] show "jb_lease_token r \<noteq> Some t" by (simp add: lease_over_def)
    qed
  qed
  show "\<not> settled (?S m) i" if "l \<noteq> m" "settles (tx_call (?S l)) = Some (i, t)" "settles (tx_call (?S m)) = Some (i, t')"
    "t = t' \<or> completes (tx_call (?S l)) \<and> completes (tx_call (?S m))" "settled (?S l) i" for l m i t t'
    using F(6) [OF that(1) that(2-4) [unfolded same] settled [OF that(5) that(2) [unfolded same]]] settled [OF _ that(3) [unfolded same]]
    by blast
  show "\<exists>r. job_row_at ?db i = Some r \<and> outcome (tx_call (?S l)) r"
    if i: "settles (tx_call (?S l)) = Some (i, t)" "tx_status (?S l) = Done" "completes (tx_call (?S l))" for l i t
  proof (cases "l = k")
    case True
    with finished_settled [OF F(1) _ st, of i t] i(1) rows show ?thesis by (auto simp: view_def)
  next
    case False
    with F(7) [of l i t] i obtain r where r: "job_row_at db i = Some r" "outcome (tx_call (S l)) r" by auto
    from advances_finished [OF writes_over_advances [OF txn_invD(1) [OF D(4)]] r(1) outcome_terminal [OF r(2) i(3) [unfolded same]]]
    have "view db (S k) i = Some r" by (simp add: view_def)
    with r(2) rows False show ?thesis by simp
  qed
qed

lemma new_row:
  assumes tables: "tables_ok db" and s: "store_submit spec now db = Some (db', Inr ())"
    and r: "job_row_at db' i = Some r" "job_row_at db i = None"
  shows "\<exists>job. job \<in> set (ds_jobs spec) \<and> r = submitted_row (ds_id spec) (dependency_counts spec) now job \<and>
    dag_well_formed spec \<and> db' = admitted_tables spec now db"
proof -
  obtain order where v: "validate spec = Some (Inr order)"
    using s by (auto simp: store_submit_def split: option.splits sum.splits)
  from s [unfolded store_submit_tables [OF tables v]] have db': "db' = admitted_tables spec now db" by (auto split: if_splits)
  then have "db_jobs db' = db_jobs db @ map (submitted_row (ds_id spec) (dependency_counts spec) now) (ds_jobs spec)"
    by (simp add: admitted_tables_def)
  moreover have "r \<in> set (db_jobs db')" using job_row_at_mem [OF r(1)] by simp
  moreover have "r \<notin> set (db_jobs db)" using r(2) job_row_at_mem [OF r(1)] by (auto simp: job_row_at_None)
  ultimately show ?thesis using db' validate_Inr_well_formed [OF v] by auto
qed

lemma submitted_no_lease:
  assumes "tables_ok db" "store_submit spec now db = Some (db', Inr ())" "job_row_at db' i = Some r" "job_row_at db i = None"
  shows "jb_lease_token r = None"
  using new_row [OF assms] by (auto simp: submitted_row_def)

lemma fence_inv_submit:
  assumes cinv: "conc_inv (db, S)" and finv: "fence_inv (db, S)" and sub: "store_submit spec now db = Some (db', Inr ())"
  shows "fence_inv (db', S)"
proof (rule fence_invI)
  note F = fence_invD [OF finv] and tables = conc_invD(1) [OF cinv]
  note A = accepted_submission [OF tables sub] and N = submitted_no_lease [OF tables sub]
  have old: "job_row_at db i = Some r" if "job_row_at db' i = Some r" "jb_lease_token r \<noteq> None" for i r
  proof (cases "job_row_at db i")
    case None
    with N [OF that(1)] that(2) show ?thesis by simp
  next
    case (Some r0)
    with A(3) [OF Some] that(1) show ?thesis by simp
  qed
  have old': "view db (S k) i = Some r" if "view db' (S k) i = Some r" "jb_lease_token r \<noteq> None" for k i r
    using that old [of i r] by (cases "tx_writes (S k) i") (simp_all add: view_def map_add_def)
  show "session_ok (S k)" for k by (rule F(1))
  show "claimed S t" if "job_row_at db' i = Some r" "jb_lease_token r = Some t" for i r t
    using F(2) [OF old [OF that(1)] that(2)] that(2) by simp
  show "claimed S t \<or> draws (tx_call (S k)) = Some t" if "view db' (S k) i = Some r" "jb_lease_token r = Some t" for k i r t
    using F(3) [OF old' [OF that(1)] that(2)] that(2) by simp
  show "claimed S t" if "settles (tx_call (S k)) = Some (i, t)" "settled (S k) i" for k i t by (rule F(4) [OF that])
  show "lease_over t (view db' (S l) i)" if "settles (tx_call (S k)) = Some (i, t)" "tx_status (S k) = Done" for k i t l
    using F(5) [OF that, of l] old' [of l i] by (auto simp: lease_over_def)
  show "\<not> settled (S l) i" if "k \<noteq> l" "settles (tx_call (S k)) = Some (i, t)" "settles (tx_call (S l)) = Some (i, t')"
    "t = t' \<or> completes (tx_call (S k)) \<and> completes (tx_call (S l))" "settled (S k) i" for k l i t t' by (rule F(6) [OF that])
  show "\<exists>r. job_row_at db' i = Some r \<and> outcome (tx_call (S k)) r"
    if "settles (tx_call (S k)) = Some (i, t)" "tx_status (S k) = Done" "completes (tx_call (S k))" for k i t
    using F(7) [OF that] A(3) by blast
qed

section \<open>Every run\<close>

lemma conc_step_call: "conc_step ck (db, S) (db', S') \<Longrightarrow> tx_call (S' k) = tx_call (S k)"
  by (cases rule: conc_step.cases) (auto dest: tx_step_call)

lemma fence_inv_step:
  assumes cinv: "conc_inv (db, S)" and finv: "fence_inv (db, S)" and calls: "\<And>k. tx_call (S k) = calls k" "tokens_distinct calls"
    and step: "conc_step ck (db, S) (db', S')"
  shows "fence_inv (db', S')"
  using step
proof (cases rule: conc_step.cases)
  case (conc_move k s)
  with fence_inv_move [OF cinv finv calls conc_move(3)] show ?thesis by simp
next
  case (conc_commit k)
  with fence_inv_commit [OF cinv finv conc_commit(3,4)] show ?thesis by simp
next
  case (conc_submit spec now)
  with fence_inv_submit [OF cinv finv conc_submit(2)] show ?thesis by simp
qed

lemma fence_inv_begin: "fence_inv (empty_database, \<lambda>k. begin_txn (calls k))"
  by (rule fence_invI)
    (simp_all add: session_ok_def begun_def begin_txn_def view_def settled_def empty_database_def job_row_at_def)

lemma fence_reachable:
  assumes "conc_reachable ck calls cs" "tokens_distinct calls"
  shows "fence_inv cs \<and> (\<forall>k. tx_call (snd cs k) = calls k)"
  using assms(1) unfolding conc_reachable_def
proof (induction rule: rtranclp_induct)
  case base
  show ?case using fence_inv_begin by (simp add: begin_txn_def)
next
  case (step cs cs')
  obtain db S db' S' where cs: "cs = (db, S)" "cs' = (db', S')" by (cases cs; cases cs')
  have "conc_inv (db, S)" using conc_inv_reachable [of ck calls cs] step.hyps(1) cs by (simp add: conc_reachable_def)
  from fence_inv_step [OF this _ _ assms(2) step.hyps(2) [unfolded cs]] conc_step_call [OF step.hyps(2) [unfolded cs]] step.IH
  show ?case by (simp add: cs)
qed

end
