(* ===== verification/ConcurrencySerial.thy ===== *)
theory ConcurrencySerial
  imports ConcurrencyFence ClaimRace
begin

text \<open>
  A session that nobody disturbs does what the method of the store does: visiting its rows one at a
  time writes what the \<open>UPDATE\<close> writes, and committing after the last statement leaves the tables
  that the method leaves.
\<close>

section \<open>A statement, row by row\<close>

lemma rewrite_key [simp]: "job_key (rewrite st r) = job_key r"
  by (cases st) simp_all

lemma run_rows:
  assumes "tx_status s = Open" "tx_rest s = st # sts" "\<not> takes st" "tx_running s = Some (snap, todo, n)" "distinct todo"
    and "\<And>i. i \<in> set todo \<Longrightarrow> \<exists>r. view db s i = Some r \<and> hits st snap r" "writes_over (job_row_at db) (tx_writes s)"
  shows "(tx_step ck {} {} db)\<^sup>*\<^sup>* s (s\<lparr>tx_running := Some (snap, [], n + length todo),
    tx_writes := tx_writes s ++ (\<lambda>i. if i \<in> set todo then map_option (rewrite st) (view db s i) else None)\<rparr>)"
  using assms
proof (induction todo arbitrary: s n)
  case Nil
  have "tx_writes s ++ (\<lambda>i. None) = tx_writes s" by (simp add: map_add_def)
  moreover have "s\<lparr>tx_running := Some (snap, [], n)\<rparr> = s" using Nil(4) by (cases s) simp
  ultimately show ?case by simp
next
  case (Cons i todo)
  from Cons.prems(6) [of i] obtain r where r: "view db s i = Some r" "hits st snap r" by auto
  let ?s = "s\<lparr>tx_running := Some (snap, todo, n + 1), tx_writes := (tx_writes s)(i \<mapsto> rewrite st r)\<rparr>"
  have seen: "job_row_at (seen s db) i = Some r" using r(1) seen_rows [OF Cons.prems(7)] by (simp add: view_def)
  have step: "tx_step ck {} {} db s ?s"
    using tx_write [OF Cons.prems(1-4), of i "{}" db r ck "{}"] seen r(2) by simp
  have same: "view db ?s x = view db s x" if "x \<in> set todo" for x
    using that Cons.prems(5) by (auto simp: view_def map_add_def)
  have "(tx_step ck {} {} db)\<^sup>*\<^sup>* ?s (?s\<lparr>tx_running := Some (snap, [], (n + 1) + length todo),
      tx_writes := tx_writes ?s ++ (\<lambda>x. if x \<in> set todo then map_option (rewrite st) (view db ?s x) else None)\<rparr>)"
  proof (rule Cons.IH)
    show "\<exists>r. view db ?s x = Some r \<and> hits st snap r" if "x \<in> set todo" for x
      using Cons.prems(6) [of x] same [OF that] that by simp
    show "writes_over (job_row_at db) (tx_writes ?s)"
      using write_one(1) [OF r(1) [unfolded view_def] hits_step [OF r(2)] Cons.prems(7)] by simp
  qed (use Cons.prems in simp_all)
  moreover have "tx_writes ?s ++ (\<lambda>x. if x \<in> set todo then map_option (rewrite st) (view db ?s x) else None) =
      tx_writes s ++ (\<lambda>x. if x \<in> set (i # todo) then map_option (rewrite st) (view db s x) else None)"
    using same r(1) Cons.prems(5) by (auto simp: map_add_def fun_eq_iff split: option.splits)
  ultimately show ?case using step by (simp add: converse_rtranclp_into_rtranclp)
qed

lemma targets_update:
  assumes "\<not> takes st"
  shows "targets ck st v = map job_key (filter (hits st v) (db_jobs v))" "length (targets ck st v) = rows_affected (hits st v) v"
  using assms by (simp_all add: targets_def rows_affected_def)

text \<open>An \<open>UPDATE\<close>.\<close>

lemma run_statement:
  assumes tables: "tables_ok db" and over: "writes_over (job_row_at db) (tx_writes s)"
    and st: "tx_status s = Open" "tx_running s = None" "tx_rest s = st # sts" "\<not> takes st" "\<not> closes st" "arguments_ok (tx_call s)"
    and v: "v = seen s db" "enough st (rows_affected (hits st v) v)"
  shows "(tx_step ck {} {} db)\<^sup>*\<^sup>* s (s\<lparr>tx_rest := sts, tx_writes := tx_writes s ++ written (hits st v) (rewrite st) v\<rparr>)"
proof -
  have tables': "tables_ok v" unfolding v(1) by (rule tables_ok_seen [OF tables over])
  have rows: "job_row_at v = view db s" unfolding v(1) view_def by (rule seen_rows [OF over])
  let ?s1 = "s\<lparr>tx_running := Some (v, targets ck st v, 0)\<rparr>"
  let ?s2 = "s\<lparr>tx_running := Some (v, [], rows_affected (hits st v) v),
      tx_writes := tx_writes s ++ written (hits st v) (rewrite st) v\<rparr>"
  have 1: "tx_step ck {} {} db s ?s1" unfolding v(1) by (rule tx_start [OF st(1-3,5,6)])
  have keys: "distinct (map job_key (db_jobs v))" using tables' by (simp add: tables_ok_def)
  have mem: "i \<in> set (targets ck st v) \<longleftrightarrow> (\<exists>r. job_row_at v i = Some r \<and> hits st v r)" for i
    unfolding set_targets using job_row_at_iff [OF tables', of i] by auto
  have "(tx_step ck {} {} db)\<^sup>*\<^sup>* ?s1 (?s1\<lparr>tx_running := Some (v, [], 0 + length (targets ck st v)), tx_writes := tx_writes ?s1 ++
      (\<lambda>i. if i \<in> set (targets ck st v) then map_option (rewrite st) (view db ?s1 i) else None)\<rparr>)"
  proof (rule run_rows)
    show "distinct (targets ck st v)"
      unfolding targets_update(1) [OF st(4)] using keys by (simp add: distinct_map_filter)
    show "\<exists>r. view db ?s1 i = Some r \<and> hits st v r" if "i \<in> set (targets ck st v)" for i
      using that rows unfolding mem by (simp add: view_def)
  qed (use st over in simp_all)
  moreover have "(\<lambda>i. if i \<in> set (targets ck st v) then map_option (rewrite st) (view db ?s1 i) else None) =
      written (hits st v) (rewrite st) v"
  proof
    fix i
    have "view db ?s1 i = job_row_at v i" by (simp add: rows) (simp add: view_def)
    then show "(if i \<in> set (targets ck st v) then map_option (rewrite st) (view db ?s1 i) else None) = written (hits st v) (rewrite st) v i"
      by (cases "job_row_at v i") (simp_all add: mem written_def)
  qed
  ultimately have 2: "(tx_step ck {} {} db)\<^sup>*\<^sup>* ?s1 ?s2"
    by (simp add: targets_update(2) [OF st(4)])
  have 3: "tx_step ck {} {} db ?s2 (?s2\<lparr>tx_running := None, tx_rest := sts\<rparr>)"
    by (rule tx_finish) (use st v(2) in simp_all)
  have "?s2\<lparr>tx_running := None, tx_rest := sts\<rparr> = s\<lparr>tx_rest := sts, tx_writes := tx_writes s ++ written (hits st v) (rewrite st) v\<rparr>"
    using st(2) by (cases s) simp
  with rtranclp.rtrancl_into_rtrancl [OF converse_rtranclp_into_rtranclp [where r = "tx_step ck {} {} db", OF 1 2] 3] show ?thesis by simp
qed

lemma close_dag_overlay: "close_dag c (overlay w db) = overlay w (close_dag c db)"
  by (simp add: close_dag_def overlay_def split: option.split)

text \<open>What the session sees after it.\<close>

lemma seen_statement:
  assumes tables: "tables_ok db" and over: "writes_over (job_row_at db) (tx_writes s)" and v: "v = seen s db"
  shows "seen (s\<lparr>tx_rest := sts, tx_writes := tx_writes s ++ written (hits st v) (rewrite st) v\<rparr>) db = update_jobs (hits st v) (rewrite st) v"
    "writes_over (job_row_at db) (tx_writes s ++ written (hits st v) (rewrite st) v)"
proof -
  let ?w = "written (hits st v) (rewrite st) v"
  have "overlay (tx_writes s ++ ?w) db = overlay ?w (overlay (tx_writes s) db)" by (rule overlay_add [OF writes_over_keyed [OF over]])
  then show "seen (s\<lparr>tx_rest := sts, tx_writes := tx_writes s ++ ?w\<rparr>) db = update_jobs (hits st v) (rewrite st) v"
    using overlay_written [of v "rewrite st" "hits st v"] tables_ok_seen [OF tables over]
    by (simp add: seen_def close_dag_overlay v)
  have rows: "job_row_at v = job_row_at db ++ tx_writes s" unfolding v by (rule seen_rows [OF over])
  show "writes_over (job_row_at db) (tx_writes s ++ ?w)"
    unfolding writes_over_def
  proof (intro allI impI)
    fix i r' assume i: "(tx_writes s ++ ?w) i = Some r'"
    show "\<exists>r. job_row_at db i = Some r \<and> row_steps UNIV r r'"
    proof (cases "?w i")
      case None
      with i writes_overD [OF over, of i r'] show ?thesis by (simp add: map_add_def)
    next
      case (Some x)
      then obtain r where r: "job_row_at v i = Some r" "hits st v r" "x = rewrite st r"
        by (auto simp: written_def split: option.splits if_splits)
      from writes_overD [OF write_one(1) [OF r(1) [unfolded rows] hits_step [OF r(2)] over], of i "rewrite st r"]
      show ?thesis using i Some r(3) by (simp add: map_add_def)
    qed
  qed
qed

text \<open>The row the claim takes, if there is one.\<close>

lemma run_take:
  assumes tables: "tables_ok db" and over: "writes_over (job_row_at db) (tx_writes s)"
    and st: "tx_status s = Open" "tx_running s = None" "tx_rest s = TakeJob owner l token now # sts" "arguments_ok (tx_call s)"
    and v: "v = seen s db"
  shows "(tx_step ck {} {} db)\<^sup>*\<^sup>* s
    (case best_candidate ck {} now v of
       None \<Rightarrow> s\<lparr>tx_rest := sts\<rparr>
     | Some r \<Rightarrow> s\<lparr>tx_rest := sts, tx_writes := (tx_writes s)(job_key r \<mapsto> lease_row owner token l now r), tx_taken := Some (job_key r)\<rparr>)"
proof -
  let ?st = "TakeJob owner l token now"
  let ?run = "\<lambda>todo n. s\<lparr>tx_running := Some (v, todo, n)\<rparr>"
  have hit: "hits ?st v = candidate_row now v" by (rule ext) simp
  have rows: "sort_key (claim_order ck) (filter (candidate_row now v) (db_jobs v)) =
      sort_key (claim_order ck) (eligible_rows (\<lambda>i. i \<in> {}) now v)" by (simp add: eligible_rows_def)
  have todo: "targets ck ?st v = map job_key (sort_key (claim_order ck) (eligible_rows (\<lambda>i. i \<in> {}) now v))"
    unfolding targets_def by (simp add: Let_def rows hit)
  have 1: "tx_step ck {} {} db s (?run (targets ck ?st v) 0)" unfolding v by (rule tx_start) (use st in simp_all)
  have fin: "tx_step ck {} {} db s' (s'\<lparr>tx_running := None, tx_rest := sts\<rparr>)"
    if "tx_status s' = Open" "tx_rest s' = ?st # sts" "tx_running s' = Some (v, [], n)" for s' n
    by (rule tx_finish [OF that]) simp
  show ?thesis
  proof (cases "best_candidate ck {} now v")
    case None
    then have "targets ck ?st v = []" unfolding todo by (simp add: best_candidate_def split: list.splits)
    with 1 have "tx_step ck {} {} db s (?run [] 0)" by simp
    moreover have "tx_step ck {} {} db (?run [] 0) (?run [] 0\<lparr>tx_running := None, tx_rest := sts\<rparr>)" by (rule fin) (use st in simp_all)
    moreover have "?run [] 0\<lparr>tx_running := None, tx_rest := sts\<rparr> = s\<lparr>tx_rest := sts\<rparr>" using st(2) by (cases s) simp
    ultimately show ?thesis using None by (simp add: rtranclp.rtrancl_into_rtrancl)
  next
    case (Some r)
    note best = best_candidate_Some [OF Some]
    obtain more where more: "targets ck ?st v = job_key r # more"
      using Some unfolding todo by (auto simp: best_candidate_def split: list.splits)
    have "job_row_at v (job_key r) = Some r" using job_row_at_iff [of v] tables_ok_seen [OF tables over] best(1) v by simp
    then have seen: "job_row_at (seen (?run (job_key r # more) 0) db) (job_key r) = Some r" by (simp add: v seen_def)
    let ?s2 = "s\<lparr>tx_running := Some (v, [], 1), tx_writes := (tx_writes s)(job_key r \<mapsto> rewrite ?st r), tx_taken := Some (job_key r)\<rparr>"
    have 2: "tx_step ck {} {} db (?run (job_key r # more) 0) ?s2"
      using tx_take [of "?run (job_key r # more) 0" ?st sts v "job_key r" more 0 "{}" db r ck "{}"] st best(2) seen by simp
    have 3: "tx_step ck {} {} db ?s2 (?s2\<lparr>tx_running := None, tx_rest := sts\<rparr>)" by (rule fin) (use st in simp_all)
    have "?s2\<lparr>tx_running := None, tx_rest := sts\<rparr> =
        s\<lparr>tx_rest := sts, tx_writes := (tx_writes s)(job_key r \<mapsto> lease_row owner token l now r), tx_taken := Some (job_key r)\<rparr>"
      using st(2) by (cases s) simp
    with rtranclp.rtrancl_into_rtrancl [OF rtranclp.rtrancl_into_rtrancl [OF r_into_rtranclp [where r = "tx_step ck {} {} db", OF 1 [unfolded more]] 2] 3]
    show ?thesis unfolding Some option.case by simp
  qed
qed

section \<open>A call alone\<close>

definition others_idle :: "(nat \<Rightarrow> txn) \<Rightarrow> nat \<Rightarrow> bool" where
  "others_idle S k \<longleftrightarrow> (\<forall>l. l \<noteq> k \<longrightarrow> tx_writes (S l) = Map.empty \<and> tx_closed (S l) = None)"

lemma others_idle_free: "others_idle S k \<Longrightarrow> written_by_others S k = {} \<and> closed_by_others S k = {}"
  by (auto simp: others_idle_def written_by_others_def closed_by_others_def)

lemma session_steps:
  assumes "(tx_step ck (written_by_others S k) (closed_by_others S k) db)\<^sup>*\<^sup>* (S k) s"
  shows "(conc_step ck)\<^sup>*\<^sup>* (db, S) (db, S(k := s))"
  using assms
proof (induction rule: rtranclp_induct)
  case base
  show ?case by simp
next
  case (step s s')
  have "written_by_others (S(k := s)) k = written_by_others S k" "closed_by_others (S(k := s)) k = closed_by_others S k"
    by (auto simp: written_by_others_def closed_by_others_def)
  with conc_move [of ck "S(k := s)" k db s'] step.hyps(2) have "conc_step ck (db, S(k := s)) (db, S(k := s'))" by simp
  with step.IH show ?case by (rule rtranclp.rtrancl_into_rtrancl)
qed

lemma lone_steps:
  assumes "(tx_step ck {} {} db)\<^sup>*\<^sup>* (S k) s" "others_idle S k"
  shows "(conc_step ck)\<^sup>*\<^sup>* (db, S) (db, S(k := s))"
  by (rule session_steps) (use assms others_idle_free [OF assms(2)] in simp)

lemma lone_commit:
  assumes "(tx_step ck {} {} db)\<^sup>*\<^sup>* (S k) s" "others_idle S k" "tx_status s = Open" "tx_rest s = []"
  shows "(conc_step ck)\<^sup>*\<^sup>* (db, S) (published s db, S(k := s\<lparr>tx_status := Done, tx_writes := Map.empty, tx_closed := None\<rparr>))"
  using rtranclp.rtrancl_into_rtrancl [OF lone_steps [OF assms(1,2)]] conc_commit [of "S(k := s)" k ck db] assms(3,4) by simp

lemma begin_txn_sel [simp]:
  "tx_call (begin_txn call) = call" "tx_rest (begin_txn call) = statements call" "tx_running (begin_txn call) = None"
  "tx_writes (begin_txn call) = Map.empty" "tx_taken (begin_txn call) = None" "tx_closed (begin_txn call) = None"
  "tx_status (begin_txn call) = Open"
  by (simp_all add: begin_txn_def)

lemma seen_begin [simp]: "seen (begin_txn call) db = db"
  by (simp add: seen_def close_dag_def)

text \<open>The first statement of a call, when it is an \<open>UPDATE\<close>.\<close>

lemma run_first:
  assumes tables: "tables_ok db" and st: "statements call = st # sts" "\<not> takes st" "\<not> closes st" "arguments_ok call"
    "enough st (rows_affected (hits st db) db)"
  defines "s \<equiv> (begin_txn call)\<lparr>tx_rest := sts, tx_writes := written (hits st db) (rewrite st) db\<rparr>"
  shows "(tx_step ck {} {} db)\<^sup>*\<^sup>* (begin_txn call) s" "seen s db = update_jobs (hits st db) (rewrite st) db"
    "writes_over (job_row_at db) (tx_writes s)"
proof -
  show "(tx_step ck {} {} db)\<^sup>*\<^sup>* (begin_txn call) s"
    using run_statement [OF tables, of "begin_txn call" st sts db ck] st by (simp add: s_def)
  show "seen s db = update_jobs (hits st db) (rewrite st) db" "writes_over (job_row_at db) (tx_writes s)"
    using seen_statement(1) [OF tables, where s = "begin_txn call" and v = db and sts = sts and st = st]
      seen_statement(2) [OF tables, where s = "begin_txn call" and v = db and st = st] by (simp_all add: s_def)
qed

section \<open>The methods\<close>

text \<open>A call as the atomic method of the store, when no other session holds a row.\<close>

fun store_call ::
  "(byte_string \<Rightarrow> byte_string) \<Rightarrow> (uuid \<Rightarrow> byte_string) \<Rightarrow> tx_call \<Rightarrow> database \<Rightarrow> database \<times> (store_error + unit)" where
  "store_call ck show_uuid (CallClaim owner l token now) db =
     map_prod id (map_sum id (\<lambda>_. ())) (store_claim ck show_uuid (\<lambda>_. False) owner l token now db)"
| "store_call ck show_uuid (CallHeartbeat d j owner token l now) db = store_heartbeat d j owner token l now db"
| "store_call ck show_uuid (CallComplete d j owner token result now) db = store_complete d j owner token result now db"
| "store_call ck show_uuid (CallFail d j owner token now) db = map_prod id (map_sum id (\<lambda>_. ())) (store_fail d j owner token now db)"
| "store_call ck show_uuid (CallReap now) db = (fst (store_reap now db), Inr ())"
| "store_call ck show_uuid (CallCancel d now) db = map_prod id (map_sum id (\<lambda>_. ())) (store_cancel d now db)"

definition runs_alone :: "(byte_string \<Rightarrow> byte_string) \<Rightarrow> database \<Rightarrow> tx_call \<Rightarrow> database \<Rightarrow> bool" where
  "runs_alone ck db call db' \<longleftrightarrow>
     (\<exists>s. (tx_step ck {} {} db)\<^sup>*\<^sup>* (begin_txn call) s \<and> tx_status s = Open \<and> tx_rest s = [] \<and> published s db = db')"

lemma runs_aloneI:
  "(tx_step ck {} {} db)\<^sup>*\<^sup>* (begin_txn call) s \<Longrightarrow> tx_status s = Open \<Longrightarrow> tx_rest s = [] \<Longrightarrow> published s db = db' \<Longrightarrow>
    runs_alone ck db call db'"
  unfolding runs_alone_def by blast

lemma audited_cong:
  assumes "tx_call s = tx_call s'" "tx_taken s = tx_taken s'"
  shows "audited s db = audited s' db"
  unfolding audited_def assms ..

text \<open>Calls of one \<open>UPDATE\<close>, and of one \<open>UPDATE\<close> after a statement.\<close>

lemma one_statement:
  assumes "tables_ok db" "statements call = [st]" "\<not> takes st" "\<not> closes st" "arguments_ok call"
    "enough st (rows_affected (hits st db) db)"
  shows "runs_alone ck db call (audited (begin_txn call) (update_jobs (hits st db) (rewrite st) db))"
proof (rule runs_aloneI)
  note run = run_first(1) [OF assms, where ck = ck] run_first(2) [OF assms]
  let ?s = "(begin_txn call)\<lparr>tx_rest := [], tx_writes := written (hits st db) (rewrite st) db\<rparr>"
  show "(tx_step ck {} {} db)\<^sup>*\<^sup>* (begin_txn call) ?s" by (rule run(1))
  show "published ?s db = audited (begin_txn call) (update_jobs (hits st db) (rewrite st) db)"
    unfolding published_def run(2) by (rule audited_cong) simp_all
qed simp_all

lemma last_statement:
  assumes tables: "tables_ok db" and over: "writes_over (job_row_at db) (tx_writes s)"
    and run: "(tx_step ck {} {} db)\<^sup>*\<^sup>* (begin_txn call) s" "tx_status s = Open" "tx_running s = None" "tx_call s = call" "tx_rest s = [st]"
    and st: "\<not> takes st" "\<not> closes st" "arguments_ok call"
    and v: "v = seen s db" "enough st (rows_affected (hits st v) v)"
  shows "runs_alone ck db call (audited s (update_jobs (hits st v) (rewrite st) v))"
proof (rule runs_aloneI)
  let ?s = "s\<lparr>tx_rest := [], tx_writes := tx_writes s ++ written (hits st v) (rewrite st) v\<rparr>"
  show "(tx_step ck {} {} db)\<^sup>*\<^sup>* (begin_txn call) ?s"
    by (rule rtranclp_trans [OF run(1) run_statement [OF tables over run(2,3,5) st(1,2) _ v]]) (simp add: run(4) st(3))
  show "published ?s db = audited s (update_jobs (hits st v) (rewrite st) v)"
    unfolding published_def seen_statement(1) [OF tables over v(1)] by (rule audited_cong) simp_all
qed (simp_all add: run(2))

lemma heartbeat_alone:
  assumes inv: "db_inv db" and c: "store_heartbeat d j owner token l now db = (db', Inr ())"
  shows "runs_alone ck db (CallHeartbeat d j owner token l now) db'"
proof -
  let ?st = "RenewLease d j owner token l now"
  have ok: "validate_owner_and_lease owner l = Inr ()" "pg_text d" "pg_text j" "pg_text owner" "held d j owner token now db"
    and db': "db' = update_jobs (held_row d j owner token now)
      (\<lambda>r. r\<lparr>jb_lease_expires_at := Some (now + l * millisecond), jb_updated_at := now\<rparr>) db"
    using c [unfolded heartbeat_eq_held [OF inv]] by (auto split: if_splits)
  have upd: "hits ?st db = held_row d j owner token now"
    "rewrite ?st = (\<lambda>r. r\<lparr>jb_lease_expires_at := Some (now + l * millisecond), jb_updated_at := now\<rparr>)" by (rule ext, simp)+
  have en: "enough ?st (rows_affected (hits ?st db) db)"
    using ok(5) held_rows_unique [OF inv] by (simp add: upd ensure_compare_and_set_def)
  from one_statement [OF db_inv_tables [OF inv] _ _ _ _ en, where call = "CallHeartbeat d j owner token l now" and ck = ck] ok
  show ?thesis by (simp add: upd db' audited_def)
qed

lemma reap_alone:
  assumes "db_inv db"
  shows "runs_alone ck db (CallReap now) (fst (store_reap now db))"
proof -
  have upd: "hits (ReapExpired now) db = expired_row now" "rewrite (ReapExpired now) = requeue_row now" by (rule ext, simp)+
  from one_statement [OF db_inv_tables [OF assms], of "CallReap now" "ReapExpired now" ck]
  show ?thesis by (simp add: upd store_reap_def reap_in_transaction_def audited_def)
qed

lemma fail_alone:
  assumes inv: "db_inv db" and c: "store_fail d j owner token now db = (db', Inr st)"
  shows "runs_alone ck db (CallFail d j owner token now) db'"
proof -
  let ?st = "RequeueHeld d j owner token now" and ?v = "update_jobs (held_row d j owner token now) (requeue_row now) db"
  note tables = db_inv_tables [OF inv]
  from c obtain row rows where ok: "pg_text d" "pg_text j" "pg_text owner"
      "filter (held_row d j owner token now) (db_jobs db) = row # rows" "parse_state (jb_state (requeue_row now row)) = Inr st"
    and db': "db' = insert_event d j (state_name st) owner now ?v"
    by (auto simp: store_fail_def transaction_def split: if_splits list.splits sum.splits)
  have upd: "hits ?st db = held_row d j owner token now" "rewrite ?st = requeue_row now" by (rule ext, simp)+
  have "row \<in> set (filter (held_row d j owner token now) (db_jobs db))" using ok(4) by simp
  then have row: "row \<in> set (db_jobs db)" "held_row d j owner token now row" by simp_all
  then have "job_row_at db (d, j) = Some row" using job_row_at_iff [OF tables] held_row_leased by blast
  then have at: "job_row_at ?v (d, j) = Some (requeue_row now row)" using row(2) by (simp add: job_row_at_update)
  have "jb_state (requeue_row now row) = state_name st" using ok(5) by (auto simp: requeue_row_s split: if_splits)
  then have ev: "audited (begin_txn (CallFail d j owner token now)) ?v = db'" using at by (simp add: audited_def db')
  have en: "enough ?st (rows_affected (hits ?st db) db)" using ok(4) by (simp add: upd rows_affected_def)
  from one_statement [OF tables _ _ _ _ en, where call = "CallFail d j owner token now" and ck = ck] ok(1-3)
  show ?thesis by (simp add: upd ev)
qed

lemma cancel_alone:
  assumes inv: "db_inv db" and c: "store_cancel d now db = (db', Inr n)"
  shows "runs_alone ck db (CallCancel d now) db'"
proof -
  let ?st = "CancelRows d now"
  let ?s = "(begin_txn (CallCancel d now))\<lparr>tx_closed := Some (d, now), tx_rest := [?st]\<rparr>"
  have ok: "pg_text d" "d \<in> dg_id ` set (db_dags db)" and db': "db' = cancelled_tables d now db"
    using c by (auto simp: store_cancel_eq split: if_splits)
  have 1: "tx_step ck {} {} db (begin_txn (CallCancel d now)) ?s" by (rule tx_close) (use ok in simp_all)
  have upd: "hits ?st v = cancellable_row d" "rewrite ?st = cancel_row now" for v by (rule ext, simp)+
  have "runs_alone ck db (CallCancel d now) (audited ?s (update_jobs (hits ?st (seen ?s db)) (rewrite ?st) (seen ?s db)))"
    by (rule last_statement [OF db_inv_tables [OF inv] _ r_into_rtranclp [where r = "tx_step ck {} {} db", OF 1]]) (use ok in simp_all)
  then show ?thesis by (simp add: upd db' audited_def seen_def close_dag_def cancelled_tables_def)
qed

lemma complete_alone:
  assumes inv: "db_inv db" and c: "store_complete d j owner token result now db = (db', Inr ())"
  shows "runs_alone ck db (CallComplete d j owner token result now) db'"
proof -
  let ?call = "CallComplete d j owner token result now" and ?st = "MarkSucceeded d j owner token result now"
  let ?v = "update_jobs (held_row d j owner token now) (succeed_row result now) db"
  note tables = db_inv_tables [OF inv]
  from c have ok: "length result \<le> MAX_PAYLOAD_BYTES" "pg_text d" "pg_text j" "pg_text owner" "pg_text result"
      "ensure_compare_and_set (rows_affected (held_row d j owner token now) db) = Inr ()"
    and db': "db' = insert_event d j ''succeeded'' owner now (release_statement d j now ?v)"
    by (auto simp: store_complete_def complete_statement_def transaction_def split: if_splits sum.splits)
  have upd: "hits ?st db = held_row d j owner token now" "rewrite ?st = succeed_row result now"
    "hits (ReleaseChildren d j now) v = released_row d j v" "rewrite (ReleaseChildren d j now) = release_row now" for v by (rule ext, simp)+
  let ?s = "(begin_txn ?call)\<lparr>tx_rest := [ReleaseChildren d j now], tx_writes := written (hits ?st db) (rewrite ?st) db\<rparr>"
  have stmts: "statements ?call = ?st # [ReleaseChildren d j now]" "arguments_ok ?call" "\<not> takes ?st" "\<not> closes ?st"
    "enough ?st (rows_affected (hits ?st db) db)" using ok by (simp_all add: upd)
  note run = run_first(1) [OF tables stmts(1,3,4,2,5), where ck = ck] run_first(2,3) [OF tables stmts(1,3,4,2,5)]
  have "runs_alone ck db ?call (audited ?s (update_jobs (hits (ReleaseChildren d j now) ?v) (rewrite (ReleaseChildren d j now)) ?v))"
    by (rule last_statement [OF tables run(3,1)]) (use stmts(2) run(2) in \<open>simp_all add: upd\<close>)
  then show ?thesis by (simp add: upd db' audited_def release_statement_def)
qed

lemma claim_call_alone:
  assumes inv: "db_inv db" and c: "store_claim ck show_uuid (\<lambda>_. False) owner l token now db = (db', Inr g)"
  shows "runs_alone ck db (CallClaim owner l token now) db'"
proof -
  let ?call = "CallClaim owner l token now" and ?st = "ReapExpired now"
  define v where "v = fst (reap_in_transaction now db)"
  note tables = db_inv_tables [OF inv]
  have ok: "validate_owner_and_lease owner l = Inr ()" "pg_text owner" using c by (cases rule: store_claim_cases [OF inv]; simp)+
  have db': "db' = (case best_candidate ck {} now v of
       None \<Rightarrow> v
     | Some r \<Rightarrow> (update_jobs (same_key r) (lease_row owner token l now) v)
         \<lparr>db_events := db_events db @ [claimed_event owner now (lease_row owner token l now r)]\<rparr>)"
    unfolding v_def using store_claim_best [OF inv ok, of ck show_uuid "{}" token now] c by simp
  have upd: "hits ?st db = expired_row now" "rewrite ?st = requeue_row now" by (rule ext, simp)+
  let ?s = "(begin_txn ?call)\<lparr>tx_rest := [TakeJob owner l token now], tx_writes := written (hits ?st db) (rewrite ?st) db\<rparr>"
  have stmts: "statements ?call = ?st # [TakeJob owner l token now]" "\<not> takes ?st" "\<not> closes ?st" "arguments_ok ?call"
    "enough ?st (rows_affected (hits ?st db) db)" using ok by simp_all
  note run = run_first(1) [OF tables stmts, where ck = ck] run_first(2,3) [OF tables stmts]
  have seen: "v = seen ?s db" unfolding run(2) by (simp add: v_def reap_in_transaction_def upd)
  have tables': "tables_ok v" unfolding seen by (rule tables_ok_seen [OF tables run(3)])
  have take: "(tx_step ck {} {} db)\<^sup>*\<^sup>* ?s (case best_candidate ck {} now v of
       None \<Rightarrow> ?s\<lparr>tx_rest := []\<rparr>
     | Some r \<Rightarrow> ?s\<lparr>tx_rest := [], tx_writes := (tx_writes ?s)(job_key r \<mapsto> lease_row owner token l now r), tx_taken := Some (job_key r)\<rparr>)"
    by (rule run_take [OF tables run(3)]) (use ok seen in simp_all)
  show ?thesis
  proof (cases "best_candidate ck {} now v")
    case None
    have view: "seen (?s\<lparr>tx_rest := []\<rparr>) db = v" unfolding seen by (simp add: seen_def)
    show ?thesis
    proof (rule runs_aloneI [OF rtranclp_trans [OF run(1) take]])
      show "published (case best_candidate ck {} now v of None \<Rightarrow> ?s\<lparr>tx_rest := []\<rparr>
          | Some r \<Rightarrow> ?s\<lparr>tx_rest := [], tx_writes := (tx_writes ?s)(job_key r \<mapsto> lease_row owner token l now r), tx_taken := Some (job_key r)\<rparr>) db = db'"
        unfolding None option.case published_def view by (simp add: audited_def db' None)
    qed (simp_all add: None)
  next
    case (Some r)
    let ?t = "?s\<lparr>tx_rest := [], tx_writes := (tx_writes ?s)(job_key r \<mapsto> lease_row owner token l now r), tx_taken := Some (job_key r)\<rparr>"
    have r: "r \<in> set (db_jobs v)" by (rule best_candidate_Some(1) [OF Some])
    have "overlay ((tx_writes ?s)(job_key r \<mapsto> lease_row owner token l now r)) db =
        overlay [job_key r \<mapsto> lease_row owner token l now r] (overlay (tx_writes ?s) db)"
      using overlay_add [OF writes_over_keyed [OF run(3)], of "[job_key r \<mapsto> lease_row owner token l now r]"] by simp
    then have view: "seen ?t db = update_jobs (same_key r) (lease_row owner token l now) v"
      using overlay_single [OF tables' r, of "lease_row owner token l now"] seen by (simp add: seen_def close_dag_def)
    have ev: "db_events v = db_events db" by (simp add: v_def)
    have at: "job_row_at v (job_key r) = Some r" using job_row_at_iff [OF tables'] r by simp
    have "job_row_at (update_jobs (same_key r) (lease_row owner token l now) v) (job_key r) = Some (lease_row owner token l now r)"
      by (simp add: job_row_at_update at)
    then have "published ?t db = db'"
      unfolding published_def view by (simp add: audited_def db' Some ev)
    with take show ?thesis by (intro runs_aloneI [OF rtranclp_trans [OF run(1)], of ?t]) (simp_all add: Some)
  qed
qed

lemma store_call_alone:
  assumes "db_inv db" "store_call ck show_uuid call db = (db', Inr ())"
  shows "runs_alone ck db call db'"
proof (cases call)
  case (CallClaim owner l token now)
  with assms(2) obtain g where "store_claim ck show_uuid (\<lambda>_. False) owner l token now db = (db', Inr g)"
    by (cases "store_claim ck show_uuid (\<lambda>_. False) owner l token now db"; cases "snd (store_claim ck show_uuid (\<lambda>_. False) owner l token now db)") auto
  from claim_call_alone [OF assms(1) this] CallClaim show ?thesis by simp
next
  case (CallHeartbeat d j owner token l now)
  with heartbeat_alone [OF assms(1)] assms(2) show ?thesis by simp
next
  case (CallComplete d j owner token result now)
  with complete_alone [OF assms(1)] assms(2) show ?thesis by simp
next
  case (CallFail d j owner token now)
  with assms(2) obtain st where "store_fail d j owner token now db = (db', Inr st)"
    by (cases "store_fail d j owner token now db"; cases "snd (store_fail d j owner token now db)") auto
  from fail_alone [OF assms(1) this] CallFail show ?thesis by simp
next
  case (CallReap now)
  with reap_alone [OF assms(1)] assms(2) show ?thesis by auto
next
  case (CallCancel d now)
  with assms(2) obtain n where "store_cancel d now db = (db', Inr n)"
    by (cases "store_cancel d now db"; cases "snd (store_cancel d now db)") auto
  from cancel_alone [OF assms(1) this] CallCancel show ?thesis by simp
qed

text \<open>In the system: the session commits the tables that the method returns.\<close>

definition spent :: "tx_call \<Rightarrow> txn \<Rightarrow> bool" where
  "spent call s \<longleftrightarrow> tx_call s = call \<and> tx_status s = Done \<and> tx_writes s = Map.empty \<and> tx_closed s = None"

lemma tx_steps_call: "(tx_step ck locks dags db)\<^sup>*\<^sup>* s s' \<Longrightarrow> tx_call s' = tx_call s"
  by (induction rule: rtranclp_induct) (simp_all add: tx_step_call)

lemma lone_call:
  assumes "db_inv db" "store_call ck show_uuid call db = (db', Inr ())" "others_idle S k" "S k = begin_txn call"
  shows "\<exists>s. spent call s \<and> (conc_step ck)\<^sup>*\<^sup>* (db, S) (db', S(k := s))"
proof -
  from store_call_alone [OF assms(1,2)] obtain s where s: "(tx_step ck {} {} db)\<^sup>*\<^sup>* (begin_txn call) s" "tx_status s = Open" "tx_rest s = []"
    "published s db = db'" unfolding runs_alone_def by blast
  have "tx_call s = call" using tx_steps_call [OF s(1)] by simp
  with lone_commit [of ck db S k s] s assms(3,4) show ?thesis
    by (intro exI [of _ "s\<lparr>tx_status := Done, tx_writes := Map.empty, tx_closed := None\<rparr>"]) (simp add: spent_def)
qed

end
