(* ===== verification/ConcurrencyTurns.thy ===== *)
theory ConcurrencyTurns
  imports ConcurrencyFence
begin

text \<open>
  Completions of one graph that take turns, as they would if each first locked the row of its DAG:
  between the moment a completion has marked its job and the moment it ends, no other completion of
  the graph has marked one. Then no child is left waiting for parents that have all succeeded, and
  the concurrent store satisfies the whole contract of the atomic one: the race is the only gap.
\<close>

section \<open>Taking turns\<close>

definition completing :: "byte_string \<Rightarrow> txn \<Rightarrow> bool" where
  "completing d s \<longleftrightarrow> completes (tx_call s) \<and> (\<exists>j t. settles (tx_call s) = Some ((d, j), t) \<and> tx_writes s (d, j) \<noteq> None)"

definition in_turns :: "(nat \<Rightarrow> txn) \<Rightarrow> bool" where
  "in_turns S \<longleftrightarrow> (\<forall>k l d. completing d (S k) \<longrightarrow> completing d (S l) \<longrightarrow> k = l)"

definition turn_step :: "(byte_string \<Rightarrow> byte_string) \<Rightarrow> conc_state \<Rightarrow> conc_state \<Rightarrow> bool" where
  "turn_step ck cs cs' \<longleftrightarrow> conc_step ck cs cs' \<and> in_turns (snd cs')"

text \<open>A pending job whose parents have all succeeded.\<close>

definition forgotten :: "('i \<Rightarrow> 'i set) \<Rightarrow> ('i \<Rightarrow> job_row option) \<Rightarrow> 'i \<Rightarrow> bool" where
  "forgotten needs m i \<longleftrightarrow> (\<exists>r. m i = Some r \<and> jb_state r = state_name Pending) \<and> (\<forall>p\<in>needs i. succeeded_in m p)"

lemma forgottenD:
  assumes "forgotten needs m i"
  shows "\<exists>r. m i = Some r \<and> jb_state r = state_name Pending" "p \<in> needs i \<Longrightarrow> succeeded_in m p"
  using assms by (simp_all add: forgotten_def)

fun releases :: "statement \<Rightarrow> bool" where
  "releases (ReleaseChildren d j now) \<longleftrightarrow> True"
| "releases st \<longleftrightarrow> False"

text \<open>The rows that a completion may still have to release.\<close>

definition release_left :: "txn \<Rightarrow> (byte_string \<times> byte_string) set" where
  "release_left s =
     (if tx_rest s = [] then {}
      else if releases (hd (tx_rest s)) then (case tx_running s of None \<Rightarrow> UNIV | Some (snap, todo, n) \<Rightarrow> set todo)
      else UNIV)"

definition writes_ok :: "txn \<Rightarrow> bool" where
  "writes_ok s \<longleftrightarrow> (\<forall>p r. tx_writes s p = Some r \<longrightarrow> jb_state r \<noteq> state_name Pending \<and>
     (jb_state r = state_name Succeeded \<longrightarrow> completes (tx_call s) \<and> (\<exists>t. settles (tx_call s) = Some (p, t))))"

definition release_inv :: "database \<Rightarrow> txn \<Rightarrow> bool" where
  "release_inv db s \<longleftrightarrow>
     (\<forall>i. forgotten (row_needs db) (view db s) i \<longrightarrow> i \<in> release_left s \<and> completes (tx_call s) \<and>
        (\<exists>p\<in>row_needs db i. tx_writes s p \<noteq> None \<and> (\<exists>t. settles (tx_call s) = Some (p, t)))) \<and>
     (\<forall>snap todo n d j now p. tx_running s = Some (snap, todo, n) \<longrightarrow> hd (tx_rest s) = ReleaseChildren d j now \<longrightarrow>
        fst p = d \<longrightarrow> succeeded_in (view db s) p \<longrightarrow> succeeded_in (job_row_at snap) p)"

lemma release_invD:
  assumes "release_inv db s"
  shows "forgotten (row_needs db) (view db s) i \<Longrightarrow> i \<in> release_left s \<and> completes (tx_call s) \<and>
        (\<exists>p\<in>row_needs db i. tx_writes s p \<noteq> None \<and> (\<exists>t. settles (tx_call s) = Some (p, t)))"
    "tx_running s = Some (snap, todo, n) \<Longrightarrow> hd (tx_rest s) = ReleaseChildren d j now \<Longrightarrow> fst p = d \<Longrightarrow>
      succeeded_in (view db s) p \<Longrightarrow> succeeded_in (job_row_at snap) p"
proof -
  note 1 = assms [unfolded release_inv_def]
  show "forgotten (row_needs db) (view db s) i \<Longrightarrow> i \<in> release_left s \<and> completes (tx_call s) \<and>
        (\<exists>p\<in>row_needs db i. tx_writes s p \<noteq> None \<and> (\<exists>t. settles (tx_call s) = Some (p, t)))"
    by (rule 1 [THEN conjunct1, THEN spec, THEN mp])
  show "tx_running s = Some (snap, todo, n) \<Longrightarrow> hd (tx_rest s) = ReleaseChildren d j now \<Longrightarrow> fst p = d \<Longrightarrow>
      succeeded_in (view db s) p \<Longrightarrow> succeeded_in (job_row_at snap) p"
    by (rule 1 [THEN conjunct2, rule_format])
qed

lemma release_invI:
  assumes "\<And>i. forgotten (row_needs db) (view db s) i \<Longrightarrow> i \<in> release_left s \<and> completes (tx_call s) \<and>
        (\<exists>p\<in>row_needs db i. tx_writes s p \<noteq> None \<and> (\<exists>t. settles (tx_call s) = Some (p, t)))"
    and "\<And>snap todo n d j now p. tx_running s = Some (snap, todo, n) \<Longrightarrow> hd (tx_rest s) = ReleaseChildren d j now \<Longrightarrow>
      fst p = d \<Longrightarrow> succeeded_in (view db s) p \<Longrightarrow> succeeded_in (job_row_at snap) p"
  shows "release_inv db s"
  unfolding release_inv_def by (intro conjI allI impI assms)

lemma needs_dag: "p \<in> row_needs db i \<Longrightarrow> fst p = fst i"
  by (cases i) (auto simp: row_needs_def)

lemma succeeded_in_cong: "m p = m' p \<Longrightarrow> succeeded_in m p = succeeded_in m' p"
  by (simp add: succeeded_in_def)

section \<open>Writes\<close>

lemma rewrite_state:
  assumes "hits st snap r" "st \<in> set (statements call)"
  shows "jb_state (rewrite st r) \<noteq> state_name Pending"
    "jb_state (rewrite st r) = state_name Succeeded \<Longrightarrow> completes call \<and> (\<exists>t. settles call = Some (job_key r, t)) \<and> \<not> releases st"
  using assms by (cases call; auto simp: requeue_row_s lease_row_s succeed_row_s release_row_s cancel_row_s held_row_s job_key_def split: if_splits)+

lemma writes_ok_step:
  assumes inv: "txn_inv db s" and ok: "writes_ok s" and step: "tx_step ck locks dags db s s'"
  shows "writes_ok s'"
  using step
proof (cases rule: tx_step_effect)
  case (wrote st sts snap todo n i r)
  note st = running_statement(1) [OF inv wrote(2,1)] and key = job_row_at_mem [OF wrote(5)]
  note new = rewrite_state [OF wrote(6) st]
  show ?thesis
    using ok new key unfolding writes_ok_def tx_step_call [OF step] wrote(7) by auto
qed (use ok in \<open>simp_all add: writes_ok_def tx_step_call [OF step]\<close>)

text \<open>The parent that a completion has marked.\<close>

lemma released_when_open:
  assumes run: "run_inv db s" "tx_running s = Some (snap, todo, n)" and tables: "tables_ok db" "writes_over (job_row_at db) (tx_writes s)"
    and i: "view db s i = Some r" "jb_state r = state_name Pending" "job_row_at snap i \<noteq> None"
    and p: "(d, j) \<in> row_needs db i" "\<And>p. p \<in> row_needs db i \<Longrightarrow> succeeded_in (job_row_at snap) p"
  shows "released_row d j snap r"
proof -
  note R = run_invD [OF run]
  have "job_row_at (seen s db) i = Some r" using seen_rows [OF tables(2)] i(1) by (simp add: view_def)
  from job_row_at_mem [OF this] have key: "i = (jb_dag_id r, jb_id r)" by (simp add: job_key_def)
  have d: "jb_dag_id r = d" using needs_dag [OF p(1)] key by simp
  have needs: "row_needs snap (jb_dag_id r, jb_id r) = row_needs db i" using R(6) [OF i(3)] key by simp
  have "\<not> blocked snap (jb_dag_id r) (jb_id r)"
    unfolding blocked_iff [OF R(4)] needs using p(2) by (simp add: status_succeeded)
  moreover have "(d, j) \<in> row_needs snap (d, jb_id r)" using p(1) needs d by simp
  ultimately show ?thesis using i(2) d by (auto simp: released_row_s open_parent_blocked needs_edge)
qed

section \<open>The completing session moves\<close>

lemma completing_call:
  assumes "completes call"
  obtains d j owner t result now where "call = CallComplete d j owner t result now"
  using assms by (cases call) auto

lemma completing_rest:
  assumes "txn_inv db s" "completes (tx_call s)"
  obtains (mark) d j owner t result now where "tx_rest s = [MarkSucceeded d j owner t result now, ReleaseChildren d j now]"
      "settles (tx_call s) = Some ((d, j), t)"
  | (release) d j t now where "tx_rest s = [ReleaseChildren d j now]" "settles (tx_call s) = Some ((d, j), t)"
  | (over) "tx_rest s = []"
proof -
  obtain d j owner t result now where c: "tx_call s = CallComplete d j owner t result now" by (rule completing_call [OF assms(2)])
  obtain pre where "statements (tx_call s) = pre @ tx_rest s" using txn_invD(3) [OF assms(1)] by blast
  then have "tx_rest s = [MarkSucceeded d j owner t result now, ReleaseChildren d j now] \<or>
      tx_rest s = [ReleaseChildren d j now] \<or> tx_rest s = []"
    by (auto simp: c Cons_eq_append_conv)
  with c mark release over show ?thesis by auto
qed

text \<open>Steps that leave the view as it is.\<close>

lemma release_inv_quiet:
  assumes rel: "release_inv db s" and same: "tx_call s' = tx_call s" "tx_writes s' = tx_writes s"
    and left: "\<And>i p t. forgotten (row_needs db) (view db s) i \<Longrightarrow> i \<in> release_left s \<Longrightarrow> completes (tx_call s) \<Longrightarrow>
      p \<in> row_needs db i \<Longrightarrow> settles (tx_call s) = Some (p, t) \<Longrightarrow> i \<in> release_left s'"
    and snap: "\<And>snap todo n d j now p. tx_running s' = Some (snap, todo, n) \<Longrightarrow> hd (tx_rest s') = ReleaseChildren d j now \<Longrightarrow>
      fst p = d \<Longrightarrow> succeeded_in (view db s) p \<Longrightarrow> succeeded_in (job_row_at snap) p"
  shows "release_inv db s'"
proof (rule release_invI)
  have view: "view db s' = view db s" by (simp add: view_def same)
  fix i assume f: "forgotten (row_needs db) (view db s') i"
  from release_invD(1) [OF rel f [unfolded view]] obtain p t where
    p: "i \<in> release_left s" "completes (tx_call s)" "p \<in> row_needs db i" "tx_writes s p \<noteq> None" "settles (tx_call s) = Some (p, t)" by blast
  with left [OF f [unfolded view] p(1,2,3,5)] show "i \<in> release_left s' \<and> completes (tx_call s') \<and>
      (\<exists>p\<in>row_needs db i. tx_writes s' p \<noteq> None \<and> (\<exists>t. settles (tx_call s') = Some (p, t)))"
    unfolding same by blast
next
  fix snap todo n d j now p
  assume "tx_running s' = Some (snap, todo, n)" "hd (tx_rest s') = ReleaseChildren d j now" "fst p = d" "succeeded_in (view db s') p"
  with assms(5) show "succeeded_in (job_row_at snap) p" by (simp add: view_def same)
qed

text \<open>The release statement starts: every forgotten child of the job is among its targets.\<close>

lemma release_inv_start:
  assumes inv: "txn_inv db s" and tables: "tables_ok db" and rel: "release_inv db s"
    and st: "tx_status s = Open" "tx_running s = None" "tx_rest s = st # sts" "\<not> closes st" "arguments_ok (tx_call s)"
  shows "release_inv db (s\<lparr>tx_running := Some (seen s db, targets ck st (seen s db), 0)\<rparr>)" (is "release_inv db ?s")
proof (rule release_inv_quiet [OF rel])
  fix i p t
  assume f: "forgotten (row_needs db) (view db s) i" and c: "completes (tx_call s)" and p: "p \<in> row_needs db i" "settles (tx_call s) = Some (p, t)"
  from inv c show "i \<in> release_left ?s"
  proof (cases rule: completing_rest)
    case (release d j t' now)
    then have eq: "st = ReleaseChildren d j now" "sts = []" "p = (d, j)" using st(3) p(2) by simp_all
    from f obtain r where r: "view db s i = Some r" "jb_state r = state_name Pending" "\<And>p. p \<in> row_needs db i \<Longrightarrow> succeeded_in (view db s) p"
      by (auto simp: forgotten_def)
    have snap: "job_row_at (seen s db) = view db s" by (rule view_seen [OF inv])
    have inv': "txn_inv db ?s" by (rule txn_inv_start [OF inv tables st])
    have view': "view db ?s = view db s" by (simp add: view_def)
    have "released_row d j (seen s db) r"
      by (rule released_when_open [OF txn_invD(5) [OF inv'] _ tables _ _ r(2) _ p(1) [unfolded eq]])
        (use r(1,3) snap view' txn_invD(1) [OF inv] in simp_all)
    moreover from r(1) snap have "r \<in> set (db_jobs (seen s db)) \<and> job_key r = i" using job_row_at_mem by metis
    ultimately have "i \<in> set (targets ck st (seen s db))" unfolding set_targets eq by (auto simp del: seen_sel)
    then show ?thesis by (simp add: release_left_def st(3) eq)
  qed (simp_all add: release_left_def st(3))
next
  fix snap todo n d j now p
  assume "tx_running ?s = Some (snap, todo, n)" "succeeded_in (view db s) p"
  then show "succeeded_in (job_row_at snap) p" using view_seen [OF inv] by auto
qed simp_all

lemma release_inv_pass:
  assumes inv: "txn_inv db s" and tables: "tables_ok db" and rel: "release_inv db s"
    and st: "tx_rest s = st # sts" "tx_running s = Some (snap, todo, n)"
    and x: "x \<in> set todo" "job_row_at (seen s db) x = Some r" "\<not> hits st snap r"
  shows "release_inv db (s\<lparr>tx_running := Some (snap, remove1 x todo, n)\<rparr>)" (is "release_inv db ?s")
proof (rule release_inv_quiet [OF rel])
  note run = txn_invD(5) [OF inv]
  fix i p t
  assume f: "forgotten (row_needs db) (view db s) i" and left: "i \<in> release_left s" and c: "completes (tx_call s)"
    and p: "p \<in> row_needs db i" "settles (tx_call s) = Some (p, t)"
  from inv c show "i \<in> release_left ?s"
  proof (cases rule: completing_rest)
    case (release d j t' now)
    then have eq: "st = ReleaseChildren d j now" "sts = []" "p = (d, j)" using st(1) p(2) by simp_all
    have todo: "i \<in> set todo" using left by (simp add: release_left_def st eq)
    moreover have "i \<noteq> x"
    proof
      assume "i = x"
      then have r: "view db s i = Some r" using x(2) view_seen [OF inv] by simp
      have "jb_state r = state_name Pending" "\<And>q. q \<in> row_needs db i \<Longrightarrow> succeeded_in (view db s) q" using f r by (auto simp: forgotten_def)
      moreover have "fst q = d" if "q \<in> row_needs db i" for q using needs_dag [OF that] needs_dag [OF p(1)] eq(3) by simp
      ultimately have "released_row d j snap r"
        using released_when_open [OF run st(2) tables txn_invD(1) [OF inv] r _ run_invD(7) [OF run st(2) todo] p(1) [unfolded eq]]
          release_invD(2) [OF rel st(2), of d j now] by (simp add: st(1) eq(1))
      with x(3) show False by (simp add: eq(1))
    qed
    ultimately show ?thesis using remove1_rest [of todo x] by (auto simp: release_left_def st(1) eq)
  qed (use st in \<open>simp_all add: release_left_def\<close>)
next
  fix snap' todo' n' d j now p
  assume "tx_running ?s = Some (snap', todo', n')" "hd (tx_rest ?s) = ReleaseChildren d j now" "fst p = d" "succeeded_in (view db s) p"
  then show "succeeded_in (job_row_at snap') p" using release_invD(2) [OF rel st(2), of d j now p] by auto
qed simp_all

lemma release_inv_write:
  assumes inv: "txn_inv db s" and rel: "release_inv db s"
    and st: "tx_rest s = st # sts" "tx_running s = Some (snap, todo, n)" "hits st snap r" "job_row_at (seen s db) x = Some r"
    and todo: "takes st \<or> set todo - {x} \<subseteq> set todo'"
    and s': "tx_call s' = tx_call s" "tx_rest s' = tx_rest s" "tx_running s' = Some (snap, todo', n')"
      "tx_writes s' = (tx_writes s)(x \<mapsto> rewrite st r)"
  shows "release_inv db s'"
proof (rule release_invI)
  have mem: "st \<in> set (statements (tx_call s))" by (rule running_statement(1) [OF inv st(2,1)])
  note rw = rewrite_state [OF st(3) mem] and view = view_write [OF s'(4), of db] and key = job_row_at_mem [OF st(4)]
  fix i assume f: "forgotten (row_needs db) (view db s') i"
  from f rw(1) have "i \<noteq> x" and pend: "\<exists>r. view db s i = Some r \<and> jb_state r = state_name Pending"
    by (auto simp: forgotten_def view split: if_splits)
  have old: "succeeded_in (view db s) p" if "p \<in> row_needs db i" "p \<noteq> x" for p
    using f that by (auto simp: forgotten_def view succeeded_in_def)
  show "i \<in> release_left s' \<and> completes (tx_call s') \<and>
      (\<exists>p\<in>row_needs db i. tx_writes s' p \<noteq> None \<and> (\<exists>t. settles (tx_call s') = Some (p, t)))"
  proof (cases "jb_state (rewrite st r) = state_name Succeeded")
    case True
    from rw(2) [OF this] key obtain t where t: "completes (tx_call s)" "settles (tx_call s) = Some (x, t)" "\<not> releases st" by auto
    have "x \<in> row_needs db i"
    proof (rule ccontr)
      assume x: "x \<notin> row_needs db i"
      then have "forgotten (row_needs db) (view db s) i" using pend old unfolding forgotten_def by metis
      from release_invD(1) [OF rel this] t(2) x show False by auto
    qed
    moreover have "i \<in> release_left s'" using st(1) t(3) by (simp add: release_left_def s')
    ultimately show ?thesis using t by (auto simp: s')
  next
    case False
    have "x \<notin> row_needs db i" using f False by (auto simp: forgotten_def view succeeded_in_def)
    then have "forgotten (row_needs db) (view db s) i" using pend old unfolding forgotten_def by metis
    from release_invD(1) [OF rel this] obtain p t where
      p: "i \<in> release_left s" "completes (tx_call s)" "p \<in> row_needs db i" "tx_writes s p \<noteq> None" "settles (tx_call s) = Some (p, t)" by blast
    from inv p(2) have "\<not> takes st" by (cases rule: completing_rest) (simp_all add: st(1))
    with todo p(1) \<open>i \<noteq> x\<close> have "i \<in> release_left s'" by (auto simp: release_left_def s' st(1,2))
    with p show ?thesis by (auto simp: s')
  qed
next
  have mem: "st \<in> set (statements (tx_call s))" by (rule running_statement(1) [OF inv st(2,1)])
  fix snap' todo'' n'' d j now p
  assume a: "tx_running s' = Some (snap', todo'', n'')" "hd (tx_rest s') = ReleaseChildren d j now" "fst p = d" "succeeded_in (view db s') p"
  then have "releases st" by (simp add: s' st(1))
  with rewrite_state(2) [OF st(3) mem] have "jb_state (rewrite st r) \<noteq> state_name Succeeded" by blast
  with a(4) have "succeeded_in (view db s) p" by (auto simp: view_write [OF s'(4)] succeeded_in_def split: if_splits)
  with release_invD(2) [OF rel st(2), of d j now p] a show "succeeded_in (job_row_at snap') p" by (simp add: s')
qed

lemma release_inv_step:
  assumes inv: "txn_inv db s" and tables: "tables_ok db" and rel: "release_inv db s"
    and waits: "\<And>i. \<not> forgotten (row_needs db) (job_row_at db) i" and step: "tx_step ck locks dags db s s'"
  shows "release_inv db s'"
  using step
proof (cases rule: tx_step.cases)
  case (tx_start st sts)
  with release_inv_start [OF inv tables rel tx_start(2-6)] show ?thesis by simp
next
  case (tx_write st sts snap todo n i r)
  show ?thesis
    by (rule release_inv_write [OF inv rel tx_write(3,5,9,8) disjI2 [OF remove1_rest]]) (simp_all add: tx_write(1))
next
  case (tx_pass st sts snap todo n i r)
  from release_inv_pass [OF inv tables rel tx_pass(3,5,6,8,9)] show ?thesis by (simp add: tx_pass(1))
next
  case (tx_take st sts snap i todo n r)
  show ?thesis by (rule release_inv_write [OF inv rel tx_take(3,5,8,7)]) (simp_all add: tx_take(1,4))
next
  case (tx_skip st sts snap i todo n r)
  have "\<not> completes (tx_call s)"
  proof
    assume "completes (tx_call s)"
    with inv show False by (cases rule: completing_rest) (use tx_skip(3,4) in auto)
  qed
  then show ?thesis
    by (intro release_inv_quiet [OF rel]) (use tx_skip(3,4) in \<open>auto simp: tx_skip(1)\<close>)
next
  case (tx_finish st sts snap n)
  show ?thesis
  proof (rule release_inv_quiet [OF rel])
    fix i p t assume left: "i \<in> release_left s" and c: "completes (tx_call s)"
    from inv c show "i \<in> release_left s'"
      by (cases rule: completing_rest) (use tx_finish(3,4) left in \<open>auto simp: tx_finish(1) release_left_def\<close>)
  qed (simp_all add: tx_finish(1))
next
  case (tx_close d now sts)
  have "\<not> completes (tx_call s)"
  proof
    assume "completes (tx_call s)"
    with inv show False by (cases rule: completing_rest) (use tx_close(3) in auto)
  qed
  then show ?thesis by (intro release_inv_quiet [OF rel]) (use tx_close(4) in \<open>auto simp: tx_close(1)\<close>)
next
  case tx_undo
  then have "view db s' = job_row_at db" by simp
  then show ?thesis using waits tx_undo by (intro release_invI) auto
qed

section \<open>The others commit and submit\<close>

lemma writes_okD:
  assumes "writes_ok s" "tx_writes s p = Some r"
  shows "jb_state r \<noteq> state_name Pending" "jb_state r = state_name Succeeded \<Longrightarrow> completing (fst p) s"
proof -
  note 1 = assms(1) [unfolded writes_ok_def, THEN spec, THEN spec, THEN mp, OF assms(2)]
  show "jb_state r \<noteq> state_name Pending" by (rule 1 [THEN conjunct1])
  assume "jb_state r = state_name Succeeded"
  from 1 [THEN conjunct2, THEN mp, OF this] obtain t where "completes (tx_call s)" "settles (tx_call s) = Some (p, t)" by blast
  with assms(2) show "completing (fst p) s" unfolding completing_def by (cases p) auto
qed

lemma releasing_completing:
  assumes inv: "txn_inv db s" and ok: "session_ok s" and run: "tx_running s = Some x" "hd (tx_rest s) = ReleaseChildren d j now"
  shows "completing d s"
proof -
  obtain snap todo n where x: "x = (snap, todo, n)" by (cases x)
  from run_invD(2) [OF txn_invD(5) [OF inv] run(1) [unfolded x]] obtain sts where rest: "tx_rest s = ReleaseChildren d j now # sts"
    using run(2) by (cases "tx_rest s") auto
  from running_statement(1) [OF inv run(1) [unfolded x] rest] obtain owner t result where
    c: "tx_call s = CallComplete d j owner t result now" by (cases "tx_call s") auto
  have "tx_status s = Open" using txn_invD(4) [OF inv] run(1) by auto
  moreover have "begun s" by (simp add: begun_def rest c)
  moreover have "settles (tx_call s) = Some ((d, j), t)" by (simp add: c)
  ultimately have "tx_writes s (d, j) \<noteq> None" using session_okD(1) [OF ok] by blast
  then show ?thesis by (simp add: completing_def c)
qed

text \<open>What a session sees of the rows of a graph is its own business and that of the completions of the graph.\<close>

lemma succeeded_under:
  assumes p: "succeeded_in ((m ++ v) ++ w) p" and no: "\<And>r. v p = Some r \<Longrightarrow> jb_state r \<noteq> state_name Succeeded"
  shows "succeeded_in (m ++ w) p"
proof (cases "w p")
  case None
  with p no show ?thesis by (cases "v p") (auto simp: succeeded_in_def map_add_def)
next
  case (Some r)
  with p show ?thesis by (simp add: succeeded_in_def map_add_def)
qed

lemma succeeded_below:
  assumes "succeeded_in (m ++ w) p" "\<And>r. w p = Some r \<Longrightarrow> jb_state r \<noteq> state_name Succeeded"
  shows "succeeded_in m p"
  using assms by (cases "w p") (auto simp: succeeded_in_def map_add_def)

lemma pending_below:
  assumes "(m ++ w) i = Some r" "jb_state r = state_name Pending" "\<And>r. w i = Some r \<Longrightarrow> jb_state r \<noteq> state_name Pending"
  shows "m i = Some r" "w i = None"
  using assms by (cases "w i"; auto simp: map_add_def)+

lemma release_inv_commit:
  assumes inv: "txn_inv db s" and ok: "session_ok s" "writes_ok s" and rel: "release_inv db s"
    and c: "txn_inv db c" "writes_ok c" and turns: "\<And>d. completing d s \<Longrightarrow> \<not> completing d c"
    and waits: "\<And>i. \<not> forgotten (row_needs db) (view db c) i"
  shows "release_inv (published c db) s"
proof (rule release_invI)
  have rows: "job_row_at (published c db) = job_row_at db ++ tx_writes c" using published_rows seen_rows [OF txn_invD(1) [OF c(1)]] by simp
  then have view: "view (published c db) s = (job_row_at db ++ tx_writes c) ++ tx_writes s" by (simp add: view_def)
  have below: "succeeded_in (view db s) p" if "succeeded_in (view (published c db) s) p" "completing (fst p) s" for p
  proof -
    have "jb_state r \<noteq> state_name Succeeded" if "tx_writes c p = Some r" for r
      using writes_okD(2) [OF c(2) that] turns [OF \<open>completing (fst p) s\<close>] by blast
    from succeeded_under [OF that(1) [unfolded view] this] show ?thesis by (simp add: view_def)
  qed
  fix i assume f: "forgotten (row_needs (published c db)) (view (published c db) s) i"
  then obtain r where r: "view (published c db) s i = Some r" "jb_state r = state_name Pending"
    and p: "\<And>p. p \<in> row_needs db i \<Longrightarrow> succeeded_in (view (published c db) s) p" by (auto simp: forgotten_def)
  note i = pending_below [OF r(1) [unfolded view] r(2) writes_okD(1) [OF ok(2), where p = i]]
  note i' = pending_below [OF i(1) r(2) writes_okD(1) [OF c(2), where p = i]]
  have comp: "completing (fst i) s"
  proof (rule ccontr)
    assume n: "\<not> completing (fst i) s"
    have "succeeded_in (view db c) q" if "q \<in> row_needs db i" for q
      using succeeded_below [OF p [OF that, unfolded view]] writes_okD(2) [OF ok(2), of q] n needs_dag [OF that] by (auto simp: view_def)
    moreover have "view db c i = Some r" using i(1) by (simp add: view_def)
    ultimately have "forgotten (row_needs db) (view db c) i" using r(2) by (auto simp: forgotten_def)
    with waits show False by blast
  qed
  have "succeeded_in (view db s) q" if "q \<in> row_needs db i" for q using below [OF p [OF that]] comp needs_dag [OF that] by simp
  moreover have "view db s i = Some r" using i(2) i'(1) by (simp add: view_def map_add_def)
  ultimately have "forgotten (row_needs db) (view db s) i" using r(2) by (auto simp: forgotten_def)
  from release_invD(1) [OF rel this] show "i \<in> release_left s \<and> completes (tx_call s) \<and>
      (\<exists>p\<in>row_needs (published c db) i. tx_writes s p \<noteq> None \<and> (\<exists>t. settles (tx_call s) = Some (p, t)))" by simp
next
  have rows: "job_row_at (published c db) = job_row_at db ++ tx_writes c" using published_rows seen_rows [OF txn_invD(1) [OF c(1)]] by simp
  fix snap todo n d j now p
  assume run: "tx_running s = Some (snap, todo, n)" "hd (tx_rest s) = ReleaseChildren d j now" and p: "fst p = d" "succeeded_in (view (published c db) s) p"
  have "completing d s" by (rule releasing_completing [OF inv ok(1) run])
  with turns writes_okD(2) [OF c(2), of p] p(1) have "\<And>r. tx_writes c p = Some r \<Longrightarrow> jb_state r \<noteq> state_name Succeeded" by blast
  with succeeded_under [of "job_row_at db" "tx_writes c" "tx_writes s" p] p(2) have "succeeded_in (view db s) p" by (simp add: view_def rows)
  from release_invD(2) [OF rel run p(1) this] show "succeeded_in (job_row_at snap) p" .
qed

lemma release_inv_still:
  assumes "tx_writes s = Map.empty" "tx_running s = None" "\<And>i. \<not> forgotten (row_needs db) (job_row_at db) i"
  shows "release_inv db s"
  using assms by (intro release_invI) auto

text \<open>A new graph forgets nobody, and does not touch the others.\<close>

lemma submitted_waits:
  assumes tables: "tables_ok db" and sub: "store_submit spec now db = Some (db', Inr ())"
    and r: "job_row_at db' i = Some r" "job_row_at db i = None"
  shows "\<not> forgotten (row_needs db') (job_row_at db') i"
proof
  assume f: "forgotten (row_needs db') (job_row_at db') i"
  note A = accepted_submission [OF tables sub]
  from new_row [OF tables sub r] obtain job where job: "job \<in> set (ds_jobs spec)" "r = submitted_row (ds_id spec) (dependency_counts spec) now job"
    and wf: "dag_well_formed spec" and db': "db' = admitted_tables spec now db" by blast
  note facts = submitted_row_facts [OF wf job(1), where now = now, folded job(2)]
  have "jb_state r = state_name Pending" using f r(1) by (auto simp: forgotten_def)
  with facts(2) have "in_degree spec (js_id job) \<noteq> 0" by (cases "in_degree spec (js_id job) = 0") simp_all
  then have "blocked db' (ds_id spec) (js_id job)" using blocked_admitted(2) [OF tables A(2) wf, where now = now] by (simp add: db')
  moreover have "i = (ds_id spec, js_id job)" using job_row_at_mem [OF r(1)] facts(3,4) by (simp add: job_key_def)
  ultimately show False using f unfolding blocked_iff [OF A(1)] status_succeeded forgotten_def by blast
qed

lemma view_submit:
  assumes over: "writes_over (job_row_at db) w" and keep: "\<forall>i r. job_row_at db i = Some r \<longrightarrow> job_row_at db' i = Some r"
  shows "job_row_at db i \<noteq> None \<Longrightarrow> (job_row_at db' ++ w) i = (job_row_at db ++ w) i"
    "job_row_at db i = None \<Longrightarrow> (job_row_at db' ++ w) i = job_row_at db' i"
proof -
  show "(job_row_at db' ++ w) i = (job_row_at db ++ w) i" if "job_row_at db i \<noteq> None"
    using that keep [THEN spec, of i] by (cases "w i") (auto simp: map_add_def)
  show "(job_row_at db' ++ w) i = job_row_at db' i" if "job_row_at db i = None"
    using that writes_over_dom [OF over] by (cases "w i") (auto simp: map_add_def)
qed

lemma submission_keeps:
  assumes "tables_ok db" "store_submit spec now db = Some (db', Inr ())"
  shows "\<forall>i r. job_row_at db i = Some r \<longrightarrow> job_row_at db' i = Some r"
proof (intro allI impI)
  fix i r assume "job_row_at db i = Some r"
  then show "job_row_at db' i = Some r" by (rule accepted_submission(3) [OF assms])
qed

lemma forgotten_submit:
  assumes tables: "tables_ok db" and sub: "store_submit spec now db = Some (db', Inr ())" and over: "writes_over (job_row_at db) w"
    and f: "forgotten (row_needs db') (job_row_at db' ++ w) i"
  shows "forgotten (row_needs db) (job_row_at db ++ w) i" "row_needs db' i = row_needs db i"
proof -
  note A = accepted_submission [OF tables sub] and V = view_submit [OF over submission_keeps [OF tables sub]]
  note p = forgottenD(2) [OF f]
  from forgottenD(1) [OF f] obtain r where r: "(job_row_at db' ++ w) i = Some r" "jb_state r = state_name Pending" by (elim exE conjE)
  have old: "job_row_at db i \<noteq> None"
  proof
    assume new: "job_row_at db i = None"
    have i: "job_row_at db' i = Some r" using r(1) V(2) [OF new] by simp
    have dag: "fst i = ds_id spec" using A(6) [OF i new] job_row_at_mem [OF i] by (auto simp: job_key_def)
    have "job_row_at db q = None" if "fst q = ds_id spec" for q
      using that job_row_at_dag [OF tables, of "ds_id spec" "snd q"] A(2) by (cases q; cases "job_row_at db q") auto
    with p V(2) needs_dag [of _ db' i] dag have "succeeded_in (job_row_at db') q" if "q \<in> row_needs db' i" for q
      using that by (metis succeeded_in_cong)
    with i r(2) have "forgotten (row_needs db') (job_row_at db') i" by (auto simp: forgotten_def)
    with submitted_waits [OF tables sub i new] show False ..
  qed
  show needs: "row_needs db' i = row_needs db i" by (rule A(4) [OF old])
  have "succeeded_in (job_row_at db ++ w) q" if "q \<in> row_needs db i" for q
  proof -
    from needs_row [OF tables that] have "job_row_at db q \<noteq> None" by auto
    from p [of q] needs that succeeded_in_cong [of "job_row_at db' ++ w" q "job_row_at db ++ w", OF V(1) [OF this]] show ?thesis by simp
  qed
  moreover have "(job_row_at db ++ w) i = Some r" using r(1) V(1) [OF old] by simp
  ultimately show "forgotten (row_needs db) (job_row_at db ++ w) i" using r(2) by (auto simp: forgotten_def)
qed

lemma release_inv_submit:
  assumes inv: "txn_inv db s" and ok: "session_ok s" and rel: "release_inv db s"
    and tables: "tables_ok db" and sub: "store_submit spec now db = Some (db', Inr ())"
  shows "release_inv db' s"
proof (rule release_invI)
  note over = txn_invD(1) [OF inv] and A = accepted_submission [OF tables sub]
  fix i assume "forgotten (row_needs db') (view db' s) i"
  from forgotten_submit [OF tables sub over this [unfolded view_def]] release_invD(1) [OF rel, unfolded view_def, of i]
  show "i \<in> release_left s \<and> completes (tx_call s) \<and>
      (\<exists>p\<in>row_needs db' i. tx_writes s p \<noteq> None \<and> (\<exists>t. settles (tx_call s) = Some (p, t)))" by simp
next
  note over = txn_invD(1) [OF inv] and A = accepted_submission [OF tables sub]
  fix snap todo n d j now p
  assume run: "tx_running s = Some (snap, todo, n)" "hd (tx_rest s) = ReleaseChildren d j now" and p: "fst p = d" "succeeded_in (view db' s) p"
  have "completing d s" by (rule releasing_completing [OF inv ok run])
  then obtain q where "tx_writes s (d, q) \<noteq> None" by (auto simp: completing_def)
  then obtain r where "job_row_at db (d, q) = Some r" using writes_over_dom [OF over] by blast
  have d: "d \<noteq> ds_id spec"
  proof
    assume "d = ds_id spec"
    with job_row_at_dag [OF tables \<open>job_row_at db (d, q) = Some r\<close>] A(2) show False by simp
  qed
  have "job_row_at db p \<noteq> None"
  proof
    assume new: "job_row_at db p = None"
    with p(2) view_submit(2) [OF over submission_keeps [OF tables sub] new] obtain r where "job_row_at db' p = Some r" by (auto simp: succeeded_in_def view_def)
    from A(6) [OF this new] job_row_at_mem [OF this] p(1) d show False by (auto simp: job_key_def)
  qed
  with view_submit(1) [OF over submission_keeps [OF tables sub]] p(2) have "succeeded_in (view db s) p" by (simp add: view_def succeeded_in_def)
  from release_invD(2) [OF rel run p(1) this] show "succeeded_in (job_row_at snap) p" .
qed

section \<open>The invariant\<close>

definition turn_inv :: "conc_state \<Rightarrow> bool" where
  "turn_inv = (\<lambda>(db, S). conc_inv (db, S) \<and> in_turns S \<and> (\<forall>i. \<not> forgotten (row_needs db) (job_row_at db) i) \<and>
     (\<forall>k. session_ok (S k) \<and> writes_ok (S k) \<and> release_inv db (S k)))"

lemma turn_invD:
  assumes "turn_inv (db, S)"
  shows "conc_inv (db, S)" "in_turns S" "\<not> forgotten (row_needs db) (job_row_at db) i" "session_ok (S k)" "writes_ok (S k)"
    "release_inv db (S k)"
  using assms by (simp_all add: turn_inv_def del: split_paired_All)

lemma turn_invI:
  assumes "conc_inv (db, S)" "in_turns S" "\<And>i. \<not> forgotten (row_needs db) (job_row_at db) i"
    "\<And>k. session_ok (S k)" "\<And>k. writes_ok (S k)" "\<And>k. release_inv db (S k)"
  shows "turn_inv (db, S)"
  using assms by (simp add: turn_inv_def)

lemma turn_inv_move:
  assumes inv: "turn_inv (db, S)" and step: "tx_step ck (written_by_others S k) dags db (S k) s" and turns: "in_turns (S(k := s))"
  shows "turn_inv (db, S(k := s))"
proof (rule turn_invI)
  note T = turn_invD [OF inv] and D = conc_invD [OF turn_invD(1) [OF inv]]
  show "conc_inv (db, S(k := s))" by (rule conc_inv_move [OF T(1) step])
  show "in_turns (S(k := s))" by (rule turns)
  show "\<not> forgotten (row_needs db) (job_row_at db) i" for i by (rule T(3))
  show "session_ok ((S(k := s)) x)" for x using session_ok_step [OF D(4) T(4) step] T(4) by simp
  show "writes_ok ((S(k := s)) x)" for x using writes_ok_step [OF D(4) T(5) step] T(5) by simp
  show "release_inv db ((S(k := s)) x)" for x using release_inv_step [OF D(4,1) T(6) T(3) step] T(6) by simp
qed

lemma turn_inv_commit:
  assumes inv: "turn_inv (db, S)" and st: "tx_status (S k) = Open" "tx_rest (S k) = []"
    and turns: "in_turns (S(k := (S k)\<lparr>tx_status := Done, tx_writes := Map.empty, tx_closed := None\<rparr>))" (is "in_turns ?S")
  shows "turn_inv (published (S k) db, ?S)"
proof (rule turn_invI)
  note T = turn_invD [OF inv] and D = conc_invD [OF turn_invD(1) [OF inv]]
  show cinv: "conc_inv (published (S k) db, ?S)" by (rule conc_inv_commit [OF T(1) st])
  show "in_turns ?S" by (rule turns)
  have view: "job_row_at (published (S k) db) = view db (S k)" using published_rows view_seen [OF D(4)] by simp
  have "release_left (S k) = {}" by (simp add: release_left_def st(2))
  then have waits: "\<not> forgotten (row_needs db) (view db (S k)) i" for i using release_invD(1) [OF T(6), of k i] by auto
  then show waits': "\<not> forgotten (row_needs (published (S k) db)) (job_row_at (published (S k) db)) i" for i by (simp add: view)
  show "session_ok (?S x)" for x using T(4) by (simp add: session_ok_def)
  show "writes_ok (?S x)" for x using T(5) by (simp add: writes_ok_def)
  have turn: "\<not> completing d (S k)" if "completing d (S x)" "x \<noteq> k" for d x
    using T(2) that unfolding in_turns_def by blast
  show "release_inv (published (S k) db) (?S x)" for x
  proof (cases "x = k")
    case True
    have "tx_running (?S k) = None" using txn_invD(4) [OF conc_invD(4) [OF cinv, of k]] by simp
    with True show ?thesis using release_inv_still [OF _ _ waits', of "?S k"] by simp
  next
    case False
    from release_inv_commit [OF D(4) T(4,5,6) D(4) T(5) turn [OF _ False] waits] False show ?thesis by simp
  qed
qed

lemma turn_inv_submit:
  assumes inv: "turn_inv (db, S)" and sub: "store_submit spec now db = Some (db', Inr ())"
  shows "turn_inv (db', S)"
proof (rule turn_invI)
  note T = turn_invD [OF inv] and D = conc_invD [OF turn_invD(1) [OF inv]]
  show "conc_inv (db', S)" by (rule conc_inv_submit [OF T(1) sub])
  show "in_turns S" "session_ok (S k)" "writes_ok (S k)" for k by (rule T)+
  show "\<not> forgotten (row_needs db') (job_row_at db') i" for i
    using forgotten_submit(1) [OF D(1) sub writes_over_empty, of i] T(3) by auto
  show "release_inv db' (S k)" for k by (rule release_inv_submit [OF D(4) T(4,6) D(1) sub])
qed

lemma turn_inv_step:
  assumes "turn_inv cs" "turn_step ck cs cs'"
  shows "turn_inv cs'"
proof -
  from assms(2) have step: "conc_step ck cs cs'" and turns: "in_turns (snd cs')" by (simp_all add: turn_step_def)
  from step show ?thesis
  proof (cases rule: conc_step.cases)
    case (conc_move S k db s)
    with turn_inv_move assms(1) turns show ?thesis by simp
  next
    case (conc_commit S k db)
    with turn_inv_commit assms(1) turns show ?thesis by simp
  next
    case (conc_submit spec now db db' S)
    with turn_inv_submit assms(1) show ?thesis by simp
  qed
qed

lemma turn_inv_begin:
  assumes "db_inv db"
  shows "turn_inv (db, \<lambda>k. begin_txn (calls k))"
proof (rule turn_invI)
  show "conc_inv (db, \<lambda>k. begin_txn (calls k))" by (rule conc_inv_begin [OF assms])
  show "\<not> forgotten (row_needs db) (job_row_at db) i" for i
  proof
    assume f: "forgotten (row_needs db) (job_row_at db) i"
    then obtain r where r: "job_row_at db i = Some r" "jb_state r = state_name Pending" by (auto simp: forgotten_def)
    have "blocked db (jb_dag_id r) (jb_id r)" using db_inv_row_ok [OF assms r(1)] r(2) by (simp add: row_ok_def)
    moreover have "i = (jb_dag_id r, jb_id r)" using job_row_at_mem [OF r(1)] by (simp add: job_key_def)
    ultimately show False using f unfolding blocked_iff [OF db_inv_tables [OF assms]] status_succeeded forgotten_def by blast
  qed
  then show "release_inv db (begin_txn (calls k))" for k by (intro release_inv_still) (simp_all add: begin_txn_def)
qed (simp_all add: in_turns_def completing_def begin_txn_def session_ok_def begun_def writes_ok_def)

section \<open>The whole contract\<close>

interpretation turn_board: job_board turn_inv "turn_step ck" "\<lambda>cs. row_status (fst cs)" "\<lambda>cs. row_needs (fst cs)" for ck
proof unfold_locales
  fix cs cs' :: conc_state and i p :: "byte_string \<times> byte_string" and st
  have conc: "conc_inv cs" if "turn_inv cs" using that turn_invD(1) by (cases cs) blast
  have step: "conc_step ck cs cs'" if "turn_step ck cs cs'" using that by (simp add: turn_step_def)
  show "turn_inv cs \<Longrightarrow> turn_step ck cs cs' \<Longrightarrow> turn_inv cs'" by (rule turn_inv_step)
  show "turn_inv cs \<Longrightarrow> turn_step ck cs cs' \<Longrightarrow> row_status (fst cs) i = Some st \<Longrightarrow>
      \<exists>st'. row_status (fst cs') i = Some st' \<and> lifecycle\<^sup>*\<^sup>* st st'"
    by (rule concurrent_board.status_step [OF conc step])
  show "turn_inv cs \<Longrightarrow> turn_step ck cs cs' \<Longrightarrow> row_status (fst cs) i \<noteq> None \<Longrightarrow> row_needs (fst cs') i = row_needs (fst cs) i"
    by (rule concurrent_board.needs_step [OF conc step])
  show "turn_inv cs \<Longrightarrow> row_status (fst cs) i = Some st \<Longrightarrow> st \<noteq> Pending \<Longrightarrow> st \<noteq> Cancelled \<Longrightarrow> p \<in> row_needs (fst cs) i \<Longrightarrow>
      row_status (fst cs) p = Some Succeeded"
    by (rule concurrent_board.needs_met [OF conc])
  show "\<exists>p\<in>row_needs (fst cs) i. row_status (fst cs) p \<noteq> None \<and> row_status (fst cs) p \<noteq> Some Succeeded"
    if inv: "turn_inv cs" and st: "row_status (fst cs) i = Some Pending"
  proof -
    obtain db S where cs: "cs = (db, S)" by (cases cs)
    note T = turn_invD [OF inv [unfolded cs]] and D = conc_invD [OF turn_invD(1) [OF inv [unfolded cs]]]
    have "\<exists>r. job_row_at db i = Some r \<and> jb_state r = state_name Pending" using st by (simp add: cs row_status_iff)
    with T(3) [of i] obtain p where p: "p \<in> row_needs db i" "\<not> succeeded_in (job_row_at db) p" by (auto simp: forgotten_def)
    from needs_row [OF D(1) p(1)] obtain r where r: "job_row_at db p = Some r" by blast
    have "jb_state r \<in> state_names" using in_orderD(1) [OF D(2) r] by (simp add: row_inv_def job_row_check_s)
    then obtain st' where "jb_state r = state_name st'" by (auto simp: state_names_def)
    with r have "row_status db p = Some st'" by (simp add: row_status_iff)
    with p show ?thesis by (intro bexI [of _ p]) (simp_all add: cs flip: status_succeeded)
  qed
qed

text \<open>When only one session completes, completions take turns by themselves.\<close>

lemma one_completion_turns:
  assumes "(conc_step ck)\<^sup>*\<^sup>* (db, S) (db', S')" "\<And>k l. completes (tx_call (S k)) \<Longrightarrow> completes (tx_call (S l)) \<Longrightarrow> k = l"
  shows "(turn_step ck)\<^sup>*\<^sup>* (db, S) (db', S')"
proof -
  have "(turn_step ck)\<^sup>*\<^sup>* (db, S) cs \<and> (\<forall>k. tx_call (snd cs k) = tx_call (S k))" if "(conc_step ck)\<^sup>*\<^sup>* (db, S) cs" for cs
    using that
  proof (induction rule: rtranclp_induct)
    case base
    show ?case by simp
  next
    case (step cs cs')
    obtain db1 S1 db2 S2 where cs: "cs = (db1, S1)" "cs' = (db2, S2)" by (cases cs, cases cs') blast
    have calls: "tx_call (S2 k) = tx_call (S k)" for k
      using conc_step_call [OF step.hyps(2) [unfolded cs]] step.IH by (simp add: cs)
    have "in_turns S2" using assms(2) by (auto simp: in_turns_def completing_def calls)
    with step calls show ?case by (auto simp: cs turn_step_def intro: rtranclp.rtrancl_into_rtrancl)
  qed
  from this [OF assms(1)] show ?thesis by blast
qed

end
