(* ===== verification/ConcurrencyProperties.thy ===== *)
theory ConcurrencyProperties
  imports ConcurrencySerial ConcurrencyTurns
begin

text \<open>
  What holds of the store whatever the interleaving of its calls, row by row. A concrete run: the
  release graph is submitted and its first job claimed; a failure report for the lease starts and
  finds the row, but before it writes, the completion of the same lease runs and commits; the
  report then visits the row, evaluates its clause again, and passes on without writing.
\<close>

section \<open>A run\<close>

definition contest_calls :: "nat \<Rightarrow> tx_call" where
  "contest_calls k =
     (if k = 0 then CallClaim worker 5000 1 2000000
      else if k = 1 then CallComplete ''release_demo'' ''prepare'' worker 1 ''RELEASE CANDIDATE'' 3000000
      else CallFail ''release_demo'' ''prepare'' worker 1 3000000)"

definition contest_start :: "nat \<Rightarrow> txn" where
  "contest_start = (\<lambda>k. begin_txn (contest_calls k))"

definition late_failure :: "(byte_string \<times> byte_string) list \<Rightarrow> txn" where
  "late_failure todo = (begin_txn (contest_calls 2))\<lparr>tx_running := Some (pg_claimed, todo, 0)\<rparr>"

lemma contest_tokens: "tokens_distinct contest_calls"
  by (simp add: tokens_distinct_def contest_calls_def)

lemma contest_methods:
  "store_call bytes demo_uuid (contest_calls 0) pg_submitted = (pg_claimed, Inr ())"
  "store_call bytes demo_uuid (contest_calls 1) pg_claimed = (pg_completed, Inr ())"
proof -
  have "unlocked = (\<lambda>_. False)" by (rule ext) (simp add: unlocked_def)
  with claim_pg complete_pg show "store_call bytes demo_uuid (contest_calls 0) pg_submitted = (pg_claimed, Inr ())"
    "store_call bytes demo_uuid (contest_calls 1) pg_claimed = (pg_completed, Inr ())" by (simp_all add: contest_calls_def)
qed

lemma contest_target:
  "targets bytes (RequeueHeld ''release_demo'' ''prepare'' worker 1 3000000) pg_claimed = [(''release_demo'', ''prepare'')]"
  by code_simp

lemma contest_row:
  "(case job_row_at pg_completed (''release_demo'', ''prepare'') of
      None \<Rightarrow> False | Some r \<Rightarrow> \<not> hits (RequeueHeld ''release_demo'' ''prepare'' worker 1 3000000) pg_claimed r)"
  by code_simp

lemma contest_idle: "spent c s \<Longrightarrow> others_idle (contest_start(0 := s, 2 := late_failure todo)) 1"
  by (simp add: others_idle_def contest_start_def late_failure_def spent_def)

lemma contest_run:
  "\<exists>s t. spent (contest_calls 0) s \<and> spent (contest_calls 1) t \<and>
     conc_reachable bytes contest_calls (pg_claimed, contest_start(0 := s)) \<and>
     (conc_step bytes)\<^sup>*\<^sup>* (pg_claimed, contest_start(0 := s)) (pg_completed, contest_start(0 := s, 2 := late_failure [], 1 := t))"
proof -
  let ?i = "(''release_demo'', ''prepare'')" and ?fail = "RequeueHeld ''release_demo'' ''prepare'' worker 1 3000000"
  have sub: "conc_step bytes (empty_database, contest_start) (pg_submitted, contest_start)" by (rule conc_submit [OF submit_pg])
  have "others_idle contest_start 0" by (simp add: others_idle_def contest_start_def)
  with lone_call [OF db_inv_reachable [OF reachable_pg(2)] contest_methods(1)] obtain s where
    s: "spent (contest_calls 0) s" "(conc_step bytes)\<^sup>*\<^sup>* (pg_submitted, contest_start) (pg_claimed, contest_start(0 := s))"
    by (auto simp: contest_start_def)
  have reach: "conc_reachable bytes contest_calls (pg_claimed, contest_start(0 := s))"
    unfolding conc_reachable_def contest_start_def [symmetric] by (rule converse_rtranclp_into_rtranclp [OF sub s(2)])
  let ?S = "\<lambda>todo. contest_start(0 := s, 2 := late_failure todo)"
  have "tx_step bytes locks dags pg_claimed (contest_start 2) (late_failure [?i])" for locks dags
  proof -
    have "tx_step bytes locks dags pg_claimed (contest_start 2)
        (contest_start 2\<lparr>tx_running := Some (seen (contest_start 2) pg_claimed, targets bytes ?fail (seen (contest_start 2) pg_claimed), 0)\<rparr>)"
      by (rule tx_start [where sts = "[]"]) (simp_all add: contest_start_def contest_calls_def pg_text_def)
    then show ?thesis by (simp add: contest_start_def late_failure_def contest_target)
  qed
  then have 1: "conc_step bytes (pg_claimed, contest_start(0 := s)) (pg_claimed, ?S [?i])"
    using conc_move [of bytes "contest_start(0 := s)" 2 pg_claimed "late_failure [?i]"] by simp
  have "(?S [?i]) 1 = begin_txn (contest_calls 1)" by (simp add: contest_start_def)
  from lone_call [OF db_inv_reachable [OF reachable_pg(3)] contest_methods(2) contest_idle [OF s(1)] this] obtain t where
    t: "spent (contest_calls 1) t" "(conc_step bytes)\<^sup>*\<^sup>* (pg_claimed, ?S [?i]) (pg_completed, (?S [?i])(1 := t))" by blast
  let ?T = "(?S [?i])(1 := t)"
  from contest_row obtain r where r: "job_row_at pg_completed ?i = Some r" "\<not> hits ?fail pg_claimed r" by (auto split: option.splits)
  have free: "?i \<notin> written_by_others ?T 2"
    using s(1) t(1) by (auto simp: written_by_others_def contest_start_def spent_def)
  have "tx_step bytes (written_by_others ?T 2) (closed_by_others ?T 2) pg_completed (?T 2) (late_failure [])"
  proof -
    have "tx_step bytes (written_by_others ?T 2) (closed_by_others ?T 2) pg_completed (late_failure [?i])
        (late_failure [?i]\<lparr>tx_running := Some (pg_claimed, remove1 ?i [?i], 0)\<rparr>)"
      by (rule tx_pass [where st = ?fail and sts = "[]", OF _ _ _ _ _ free]) (use r in \<open>simp_all add: late_failure_def contest_calls_def seen_def close_dag_def\<close>)
    then show ?thesis by (simp add: late_failure_def)
  qed
  from conc_move [OF this] have "conc_step bytes (pg_completed, ?T) (pg_completed, ?T(2 := late_failure []))" .
  moreover have "?T(2 := late_failure []) = contest_start(0 := s, 2 := late_failure [], 1 := t)" by (auto simp: fun_eq_iff)
  ultimately have "(conc_step bytes)\<^sup>*\<^sup>* (pg_claimed, contest_start(0 := s)) (pg_completed, contest_start(0 := s, 2 := late_failure [], 1 := t))"
    using converse_rtranclp_into_rtranclp [where r = "conc_step bytes", OF 1 t(2)] by (simp add: rtranclp.rtrancl_into_rtrancl)
  with s(1) t(1) reach show ?thesis by blast
qed

section \<open>Two completions that do not take turns\<close>

text \<open>A completion that finds its job and releases nothing, while others hold other rows.\<close>

definition marked_session :: "tx_call \<Rightarrow> byte_string \<times> byte_string \<Rightarrow> job_row \<Rightarrow> statement list \<Rightarrow> txn" where
  "marked_session call i r rest = (begin_txn call)\<lparr>tx_rest := rest, tx_writes := [i \<mapsto> r]\<rparr>"

lemma complete_without_release:
  assumes call: "call = CallComplete d j owner token result now" "arguments_ok call"
    and mark: "targets ck (MarkSucceeded d j owner token result now) db = [(d, j)]" "job_row_at db (d, j) = Some r"
      "held_row d j owner token now r" "(d, j) \<notin> locks"
    and none: "targets ck (ReleaseChildren d j now) (seen (marked_session call (d, j) (succeed_row result now r) [ReleaseChildren d j now]) db) = []"
  shows "(tx_step ck locks dags db)\<^sup>*\<^sup>* (begin_txn call) (marked_session call (d, j) (succeed_row result now r) [])"
proof -
  let ?M = "MarkSucceeded d j owner token result now" and ?R = "ReleaseChildren d j now" and ?step = "tx_step ck locks dags db"
  let ?m = "\<lambda>rest. marked_session call (d, j) (succeed_row result now r) rest"
  let ?s1 = "(begin_txn call)\<lparr>tx_running := Some (db, [(d, j)], 0)\<rparr>"
  have 1: "?step (begin_txn call) ?s1"
    using tx_start [of "begin_txn call" ?M "[?R]" ck locks dags db] call mark(1) by simp
  have 2: "?step ?s1 (?m [?M, ?R]\<lparr>tx_running := Some (db, [], 1)\<rparr>)"
    using tx_write [of ?s1 ?M "[?R]" db "[(d, j)]" 0 "(d, j)" locks db r ck dags] call mark(2,3,4)
    by (simp add: marked_session_def seen_def close_dag_def begin_txn_def)
  have 3: "?step (?m [?M, ?R]\<lparr>tx_running := Some (db, [], 1)\<rparr>) (?m [?R])"
    using tx_finish [of "?m [?M, ?R]\<lparr>tx_running := Some (db, [], 1)\<rparr>" ?M "[?R]" db 1 ck locks dags db]
    by (simp add: marked_session_def begin_txn_def ensure_compare_and_set_def)
  have 4: "?step (?m [?R]) (?m [?R]\<lparr>tx_running := Some (seen (?m [?R]) db, [], 0)\<rparr>)"
    using tx_start [of "?m [?R]" ?R "[]" ck locks dags db] call none by (simp add: marked_session_def)
  have 5: "?step (?m [?R]\<lparr>tx_running := Some (seen (?m [?R]) db, [], 0)\<rparr>) (?m [])"
    using tx_finish [of "?m [?R]\<lparr>tx_running := Some (seen (?m [?R]) db, [], 0)\<rparr>" ?R "[]" "seen (?m [?R]) db" 0 ck locks dags db]
    by (simp add: marked_session_def begin_txn_def)
  note trans = rtranclp.rtrancl_into_rtrancl [where r = ?step]
  show ?thesis by (rule trans [OF trans [OF trans [OF trans [OF r_into_rtranclp [where r = ?step, OF 1] 2] 3] 4] 5])
qed

definition strand_calls :: "nat \<Rightarrow> tx_call" where
  "strand_calls k =
     (if k = 0 then CallComplete ''diamond'' ''b'' worker 3 ''SAFE'' 6000000
      else CallComplete ''diamond'' ''c'' ''worker-2'' 4 ''SAFE'' 6000000)"

definition strand_row :: "byte_string \<Rightarrow> job_row" where
  "strand_row j = the (job_row_at forked (''diamond'', j))"

definition strand_end :: "nat \<Rightarrow> txn" where
  "strand_end k = marked_session (strand_calls k) (''diamond'', if k = 0 then ''b'' else ''c'')
     (succeed_row ''SAFE'' 6000000 (strand_row (if k = 0 then ''b'' else ''c''))) []"

definition stranded_tables :: database where
  "stranded_tables = published (strand_end 1) (published (strand_end 0) forked)"

lemma strand_facts:
  "targets bytes (MarkSucceeded ''diamond'' ''b'' worker 3 ''SAFE'' 6000000) forked = [(''diamond'', ''b'')]"
  "targets bytes (MarkSucceeded ''diamond'' ''c'' ''worker-2'' 4 ''SAFE'' 6000000) forked = [(''diamond'', ''c'')]"
  "job_row_at forked (''diamond'', ''b'') = Some (strand_row ''b'')" "job_row_at forked (''diamond'', ''c'') = Some (strand_row ''c'')"
  "held_row ''diamond'' ''b'' worker 3 6000000 (strand_row ''b'')" "held_row ''diamond'' ''c'' ''worker-2'' 4 6000000 (strand_row ''c'')"
  by code_simp+

lemma strand_releases_nothing:
  "targets bytes (ReleaseChildren ''diamond'' ''b'' 6000000)
     (seen (marked_session (strand_calls 0) (''diamond'', ''b'') (succeed_row ''SAFE'' 6000000 (strand_row ''b'')) [ReleaseChildren ''diamond'' ''b'' 6000000]) forked) = []"
  "targets bytes (ReleaseChildren ''diamond'' ''c'' 6000000)
     (seen (marked_session (strand_calls 1) (''diamond'', ''c'') (succeed_row ''SAFE'' 6000000 (strand_row ''c'')) [ReleaseChildren ''diamond'' ''c'' 6000000]) forked) = []"
  by code_simp+

lemma strand_status:
  "row_status stranded_tables (''diamond'', ''b'') = Some Succeeded" "row_status stranded_tables (''diamond'', ''c'') = Some Succeeded"
  "row_status stranded_tables (''diamond'', ''d'') = Some Pending"
  by code_simp+

text \<open>Both commit, and the common child is left pending: without turns the contract of the board is lost.\<close>

lemma turns_needed:
  "\<exists>S. (conc_step bytes)\<^sup>*\<^sup>* (forked, \<lambda>k. begin_txn (strand_calls k)) (stranded_tables, S) \<and>
     tx_status (S 0) = Done \<and> tx_status (S 1) = Done"
proof -
  let ?S = "\<lambda>k. begin_txn (strand_calls k)"
  let ?done = "\<lambda>k. (strand_end k)\<lparr>tx_status := Done, tx_writes := Map.empty, tx_closed := None\<rparr>"
  have "written_by_others ?S 0 = {}" by (simp add: written_by_others_def)
  then have "(tx_step bytes (written_by_others ?S 0) (closed_by_others ?S 0) forked)\<^sup>*\<^sup>* (?S 0) (strand_end 0)"
    using complete_without_release [OF _ _ strand_facts(1,3,5) _ strand_releases_nothing(1)]
    by (simp add: strand_calls_def strand_end_def pg_text_def MAX_PAYLOAD_BYTES_def)
  from session_steps [of bytes ?S 0, OF this] have 1: "(conc_step bytes)\<^sup>*\<^sup>* (forked, ?S) (forked, ?S(0 := strand_end 0))" .
  let ?S1 = "?S(0 := strand_end 0)"
  have "(''diamond'', ''c'') \<notin> written_by_others ?S1 1"
    by (auto simp: written_by_others_def strand_end_def marked_session_def split: if_splits)
  then have "(tx_step bytes (written_by_others ?S1 1) (closed_by_others ?S1 1) forked)\<^sup>*\<^sup>* (?S1 1) (strand_end 1)"
    using complete_without_release [OF _ _ strand_facts(2,4,6) _ strand_releases_nothing(2)]
    by (simp add: strand_calls_def strand_end_def pg_text_def MAX_PAYLOAD_BYTES_def)
  from session_steps [of bytes ?S1 1, OF this] have 2: "(conc_step bytes)\<^sup>*\<^sup>* (forked, ?S1) (forked, ?S1(1 := strand_end 1))" .
  let ?S2 = "?S1(1 := strand_end 1)"
  have open_: "tx_status (strand_end k) = Open" "tx_rest (strand_end k) = []" for k by (simp_all add: strand_end_def marked_session_def)
  have 3: "conc_step bytes (forked, ?S2) (published (strand_end 0) forked, ?S2(0 := ?done 0))"
    using conc_commit [of ?S2 0 bytes forked] open_ by simp
  have 4: "conc_step bytes (published (strand_end 0) forked, ?S2(0 := ?done 0)) (stranded_tables, ?S2(0 := ?done 0, 1 := ?done 1))"
    using conc_commit [of "?S2(0 := ?done 0)" 1 bytes "published (strand_end 0) forked"] open_ by (simp add: stranded_tables_def)
  note trans = rtranclp.rtrancl_into_rtrancl [where r = "conc_step bytes"]
  from trans [OF trans [OF rtranclp_trans [OF 1 2] 3] 4] show ?thesis
    by (intro exI [of _ "?S2(0 := ?done 0, 1 := ?done 1)"] conjI) simp_all
qed

section \<open>Properties\<close>

text \<open>
  C5. However the calls of any number of sessions interleave, row by row, and whichever of them
  are rolled back: what is committed, and what any session sees, has every row within the
  constraints of the schema with its attempts within the limit, and every job that left Pending
  (and was not cancelled) has all its parents succeeded; keys are unique and edges point to rows;
  and a graph that is no longer running has no unfinished job left.
\<close>

theorem interleavings_keep_order:
  assumes "conc_reachable ck calls (db, S)"
    and "tables = db \<or> tables = seen (S k) db" and "job_row_at tables i = Some r"
  shows "job_row_check r \<and> jb_attempts r \<le> jb_max_attempts r \<and> (jb_lease_token r \<noteq> None \<longleftrightarrow> jb_state r = ''leased'') \<and>
    (jb_state r \<noteq> ''pending'' \<and> jb_state r \<noteq> ''cancelled'' \<longrightarrow> (\<forall>p\<in>row_needs tables i. row_status tables p = Some Succeeded)) \<and>
    tables_ok tables \<and>
    (\<forall>g\<in>set (db_dags db). \<forall>q\<in>set (db_jobs db). dg_id g = jb_dag_id q \<and> dg_state g \<noteq> ''running'' \<longrightarrow>
       jb_state q \<in> {''succeeded'', ''dead_lettered'', ''cancelled''})"
proof -
  note inv = conc_inv_reachable [OF assms(1)]
  note D = conc_invD [OF inv] and T = txn_invD [OF conc_invD(4) [OF inv, of k]]
  have ord: "in_order (row_needs tables) (job_row_at tables)" and ok: "tables_ok tables"
    using assms(2)
  proof (atomize (full), elim disjE)
    assume "tables = db"
    with D(1,2) show "in_order (row_needs tables) (job_row_at tables) \<and> tables_ok tables" by simp
  next
    assume "tables = seen (S k) db"
    with T(2) tables_ok_seen [OF D(1) T(1)] seen_rows [OF T(1)]
    show "in_order (row_needs tables) (job_row_at tables) \<and> tables_ok tables" by simp
  qed
  note O = in_orderD [OF ord assms(3)]
  have "jb_state r \<noteq> ''leased'' \<Longrightarrow> jb_lease_token r = None" using O(1) by (simp add: row_inv_def state_name_def)
  moreover have "jb_state r = ''leased'' \<Longrightarrow> jb_lease_token r \<noteq> None"
    using row_inv_check [OF O(1)] by (simp add: job_row_check_def)
  ultimately have lease: "jb_lease_token r \<noteq> None \<longleftrightarrow> jb_state r = ''leased''"
    by (cases "jb_state r = ''leased''") simp_all
  have started: "row_status tables p = Some Succeeded"
    if "jb_state r \<noteq> ''pending''" "jb_state r \<noteq> ''cancelled''" "p \<in> row_needs tables i" for p
    using O(2) [OF _ _ that(3)] that(1,2) by (simp add: status_succeeded state_name_def)
  have closed: "jb_state q \<in> {''succeeded'', ''dead_lettered'', ''cancelled''}"
    if "g \<in> set (db_dags db)" "q \<in> set (db_jobs db)" "dg_id g = jb_dag_id q" "dg_state g \<noteq> ''running''" for g q
  proof -
    have "job_row_at db (job_key q) = Some q" using job_row_at_iff [OF D(1)] that(2) by simp
    from D(3) [unfolded cancelled_finished_def, rule_format, OF this that(1,3,4)]
    show ?thesis by (simp add: terminal_name_def state_name_def)
  qed
  have "job_row_check r" "jb_attempts r \<le> jb_max_attempts r" using O(1) by (simp_all add: row_inv_def)
  then show ?thesis by (intro conjI impI ballI lease ok) (use started closed in simp_all)
qed

theorem interleavings_keep_order_witness:
  "row_status pg_completed (''release_demo'', ''prepare'') = Some Succeeded \<and>
   (''release_demo'', ''prepare'') \<in> row_needs pg_completed (''release_demo'', ''digest'')"
proof -
  from contest_run obtain s t where run: "conc_reachable bytes contest_calls (pg_claimed, contest_start(0 := s))"
    "(conc_step bytes)\<^sup>*\<^sup>* (pg_claimed, contest_start(0 := s)) (pg_completed, contest_start(0 := s, 2 := late_failure [], 1 := t))"
    by blast
  then have reach: "conc_reachable bytes contest_calls (pg_completed, contest_start(0 := s, 2 := late_failure [], 1 := t))"
    unfolding conc_reachable_def by (rule rtranclp_trans)
  obtain r where r: "job_row_at pg_completed (''release_demo'', ''digest'') = Some r" "jb_state r = ''ready''"
    using pg_status(5) by (auto simp: row_status_iff state_name_def)
  have "\<lparr>dp_dag_id = ''release_demo'', dp_parent_id = ''prepare'', dp_child_id = ''digest''\<rparr> \<in> set (db_dependencies pg_completed)"
    by code_simp
  then have p: "(''release_demo'', ''prepare'') \<in> row_needs pg_completed (''release_demo'', ''digest'')" by (simp add: row_needs_def)
  with interleavings_keep_order [OF reach disjI1 [OF refl] r(1)] r(2) show ?thesis by auto
qed

text \<open>
  C17. The concurrent store refines the lifecycle of the atomic one: between any two moments of any
  interleaving a committed row only moves along the lifecycle, keeps its specification and never
  loses an attempt; a finished row never changes again; and a job that has started by then has
  all the parents it ever had succeeded.
\<close>

theorem interleavings_follow_lifecycle:
  assumes "conc_reachable ck calls (db, S)" "(conc_step ck)\<^sup>*\<^sup>* (db, S) (db', S')"
    and "job_row_at db i = Some r" "row_status db i = Some st"
  shows "\<exists>r' st'. job_row_at db' i = Some r' \<and> row_status db' i = Some st' \<and> lifecycle\<^sup>*\<^sup>* st st' \<and>
    jb_kind r' = jb_kind r \<and> jb_payload r' = jb_payload r \<and> jb_max_attempts r' = jb_max_attempts r \<and>
    jb_priority r' = jb_priority r \<and> jb_attempts r \<le> jb_attempts r' \<and> jb_attempts r' \<le> jb_max_attempts r \<and>
    (is_terminal st \<longrightarrow> r' = r) \<and>
    (st' \<noteq> Pending \<and> st' \<noteq> Cancelled \<longrightarrow> (\<forall>p\<in>row_needs db i. row_status db' p = Some Succeeded))"
proof -
  note inv = conc_inv_reachable [OF assms(1)]
  from conc_steps_rows [OF assms(2) inv] have rows: "conc_inv (db', S')" "advances (job_row_at db) (job_row_at db')" by simp_all
  from advancesD [OF rows(2) assms(3)] obtain r' where r': "job_row_at db' i = Some r'" "row_steps UNIV r r'" by (elim exE conjE)
  from concurrent_board.status_steps [OF assms(2) inv, unfolded fst_conv, OF assms(4)] obtain st' where
    st': "row_status db' i = Some st'" "lifecycle\<^sup>*\<^sup>* st st'" by (elim exE conjE)
  have st: "jb_state r = state_name st" using assms(3,4) by (simp add: row_status_iff)
  have "jb_attempts r' \<le> jb_max_attempts r'"
    using in_orderD(1) [OF conc_invD(2) [OF rows(1)] r'(1)] by (simp add: row_inv_def)
  moreover have "is_terminal st \<longrightarrow> r' = r"
    using row_steps_finished [OF r'(2)] by (cases st) (simp_all add: st terminal_name_def)
  moreover have "row_status db' p = Some Succeeded" if "st' \<noteq> Pending" "st' \<noteq> Cancelled" "p \<in> row_needs db i" for p
    using concurrent_board.started_after_parents [OF assms(2) inv, of i p st'] that st'(1) assms(4) by simp
  ultimately show ?thesis using r' st' row_steps_frame [OF r'(2)] by auto
qed

theorem interleavings_follow_lifecycle_witness: "lifecycle\<^sup>*\<^sup>* Leased Succeeded"
proof -
  from pg_status(3) obtain r where r: "job_row_at pg_claimed (''release_demo'', ''prepare'') = Some r" by (auto simp: row_status_iff)
  from contest_run obtain s t where run: "conc_reachable bytes contest_calls (pg_claimed, contest_start(0 := s))"
    "(conc_step bytes)\<^sup>*\<^sup>* (pg_claimed, contest_start(0 := s)) (pg_completed, contest_start(0 := s, 2 := late_failure [], 1 := t))"
    by blast
  from interleavings_follow_lifecycle [OF run r pg_status(3)] pg_status(4) show ?thesis by auto
qed

text \<open>
  C4. A lease is settled once, and a job completes once, however sessions interleave, when no two
  claims draw the same UUID. When a session has committed its completion or failure of a lease,
  no other session that completes or fails the same lease commits or has even written the row;
  the same holds for any two completions of one job, whatever their leases. And the row a
  committed completion leaves is succeeded with the result it reported.
\<close>

theorem leases_settled_once:
  assumes "conc_reachable ck calls (db, S)" "tokens_distinct calls" "k \<noteq> l"
    and "settles (calls k) = Some (i, t)" "settles (calls l) = Some (i, t')"
    and "t = t' \<or> completes (calls k) \<and> completes (calls l)" "tx_status (S k) = Done"
  shows "tx_status (S l) \<noteq> Done \<and> tx_writes (S l) i = None \<and>
    (completes (calls k) \<longrightarrow> (\<exists>r. job_row_at db i = Some r \<and> outcome (calls k) r))"
proof -
  from fence_reachable [OF assms(1,2)] have finv: "fence_inv (db, S)" and call: "tx_call (S m) = calls m" for m by simp_all
  note F = fence_invD [OF finv, unfolded call]
  have "settled (S k) i" using assms(7) by (simp add: settled_def)
  from F(6) [OF assms(3-6) this] F(7) [OF assms(4,7)] show ?thesis by (auto simp: settled_def)
qed

theorem leases_settled_once_witness:
  "\<exists>r. job_row_at pg_completed (''release_demo'', ''prepare'') = Some r \<and> jb_result r = Some ''RELEASE CANDIDATE''"
proof -
  from contest_run obtain s t where run: "spent (contest_calls 1) t"
    "conc_reachable bytes contest_calls (pg_claimed, contest_start(0 := s))"
    "(conc_step bytes)\<^sup>*\<^sup>* (pg_claimed, contest_start(0 := s)) (pg_completed, contest_start(0 := s, 2 := late_failure [], 1 := t))"
    by blast
  have reach: "conc_reachable bytes contest_calls (pg_completed, contest_start(0 := s, 2 := late_failure [], 1 := t))"
    using run(2,3) unfolding conc_reachable_def by (rule rtranclp_trans)
  have "settles (contest_calls 1) = Some ((''release_demo'', ''prepare''), 1)" "settles (contest_calls 2) = Some ((''release_demo'', ''prepare''), 1)"
    "tx_status ((contest_start(0 := s, 2 := late_failure [], 1 := t)) 1) = Done" using run(1) by (simp_all add: contest_calls_def spent_def)
  from leases_settled_once [OF reach contest_tokens _ this(1,2) _ this(3)] show ?thesis by (auto simp: contest_calls_def)
qed

text \<open>
  C18. The row-by-row sessions do what the methods of the store do: started when no other session
  holds a row, a claim, heartbeat, completion, failure, reap or cancellation that the method
  accepts runs to its commit and leaves exactly the tables that the method leaves, whatever
  the other sessions have started to read.
\<close>

theorem undisturbed_call_is_method:
  assumes "store_reachable ck show_uuid db" "others_idle S k" "S k = begin_txn call"
    and "store_call ck show_uuid call db = (db', Inr ())"
  shows "\<exists>s. tx_call s = call \<and> tx_status s = Done \<and> tx_writes s = Map.empty \<and> (conc_step ck)\<^sup>*\<^sup>* (db, S) (db', S(k := s))"
  using lone_call [OF db_inv_reachable [OF assms(1)] assms(4,2,3)] unfolding spent_def by blast

theorem undisturbed_call_is_method_witness:
  "\<exists>s. tx_status s = Done \<and> (conc_step bytes)\<^sup>*\<^sup>* (pg_submitted, contest_start) (pg_claimed, contest_start(0 := s))"
proof -
  have "others_idle contest_start 0" "contest_start 0 = begin_txn (contest_calls 0)" by (simp_all add: others_idle_def contest_start_def)
  from undisturbed_call_is_method [OF reachable_pg(2) this contest_methods(1)] show ?thesis by blast
qed

text \<open>
  C16. The race of completions is the only way to strand a job. If completions of one graph take
  turns (between marking its job and its end, no other completion of the graph marks one, as when
  each first locks the row of the DAG), then in every state that any interleaving reaches a
  pending job still has a parent that exists and has not succeeded, whatever the other calls do
  meanwhile. The hypothesis cannot be dropped: \<open>turns_needed\<close> above is a run without it.
\<close>

theorem turns_close_the_race:
  assumes "(turn_step ck)\<^sup>*\<^sup>* (empty_database, \<lambda>k. begin_txn (calls k)) (db, S)"
    and "row_status db i = Some Pending"
  shows "\<exists>p\<in>row_needs db i. row_status db p \<noteq> None \<and> row_status db p \<noteq> Some Succeeded"
proof -
  have "turn_inv (db, S)" by (rule turn_board.inv_steps [OF assms(1) turn_inv_begin [OF db_inv_empty]])
  from turn_board.pending_waits_for [OF this, of i] assms(2) show ?thesis by simp
qed

theorem turns_close_the_race_witness:
  "\<exists>p\<in>row_needs pg_completed (''release_demo'', ''cooldown''). row_status pg_completed p \<noteq> Some Succeeded"
proof -
  from contest_run obtain s t where run: "conc_reachable bytes contest_calls (pg_claimed, contest_start(0 := s))"
    "(conc_step bytes)\<^sup>*\<^sup>* (pg_claimed, contest_start(0 := s)) (pg_completed, contest_start(0 := s, 2 := late_failure [], 1 := t))"
    by blast
  have "(conc_step bytes)\<^sup>*\<^sup>* (empty_database, \<lambda>k. begin_txn (contest_calls k)) (pg_completed, contest_start(0 := s, 2 := late_failure [], 1 := t))"
    using rtranclp_trans [OF run(1) [unfolded conc_reachable_def] run(2)] .
  then have turns: "(turn_step bytes)\<^sup>*\<^sup>* (empty_database, \<lambda>k. begin_txn (contest_calls k)) (pg_completed, contest_start(0 := s, 2 := late_failure [], 1 := t))"
    by (rule one_completion_turns) (auto simp: contest_calls_def split: if_splits)
  have "row_status pg_completed (''release_demo'', ''cooldown'') = Some Pending" by code_simp
  from turns_close_the_race [OF turns this] show ?thesis by blast
qed

end
