(* ===== verification/Worker.thy ===== *)
theory Worker
  imports StoreAnswers
begin

text \<open>
  \<open>src/worker.rs\<close> and the worker process of \<open>src/bin/orchestrator_worker.rs\<close>: the fixed
  operations, the settings read from the environment, and one round of the loop over the store.

  Parameters: \<open>digest\<close> is the hexadecimal SHA-256 of the \<open>sha2\<close> and \<open>hex\<close> crates, \<open>upper\<close> the
  Unicode upper case of the standard library on UTF-8 bytes, \<open>parse_uuid\<close> the parser of the
  \<open>uuid\<close> crate. A round is two calls with the operation in between; \<open>meanwhile\<close> is what other
  clients do to the tables during the operation.
\<close>

section \<open>Operations\<close>

datatype worker_error =
    WorkerValidation validation_error
  | InvalidPayload
  | ResultTooLarge

text \<open>The milliseconds slept, and the result.\<close>

definition execute ::
  "(byte_string \<Rightarrow> byte_string) \<Rightarrow> (byte_string \<Rightarrow> byte_string) \<Rightarrow> job_kind \<Rightarrow> byte_string
    \<Rightarrow> nat \<times> (worker_error + byte_string)" where
  "execute digest upper kind payload =
     (case validate_payload kind payload of
        Inl e \<Rightarrow> (0, Inl (WorkerValidation e))
      | Inr _ \<Rightarrow>
        (case (case kind of
                 Delay \<Rightarrow>
                   (case parse_u64 payload of
                      None \<Rightarrow> (0, Inl InvalidPayload)
                    | Some milliseconds \<Rightarrow> (milliseconds, Inr (''slept:'' @ show_nat milliseconds @ ''ms'')))
               | Checksum \<Rightarrow> (0, Inr (digest payload))
               | Uppercase \<Rightarrow> (0, Inr (upper payload))) of
           (slept, Inl e) \<Rightarrow> (slept, Inl e)
         | (slept, Inr output) \<Rightarrow>
           if MAX_PAYLOAD_BYTES < length output then (slept, Inl ResultTooLarge) else (slept, Inr output)))"

section \<open>Settings\<close>

datatype settings_error = MissingVariable byte_string | NotAnInteger byte_string | OutOfBounds byte_string

text \<open>\<open>variable\<close> is the value of the environment variable, when it is set and valid Unicode.\<close>

definition parse_bounded :: "byte_string \<Rightarrow> byte_string option \<Rightarrow> int \<Rightarrow> int \<Rightarrow> int \<Rightarrow> settings_error + int" where
  "parse_bounded name variable fallback minimum maximum =
     (case parse_i64 (case variable of None \<Rightarrow> show_int fallback | Some v \<Rightarrow> v) of
        None \<Rightarrow> Inl (NotAnInteger name)
      | Some value \<Rightarrow> if minimum \<le> value \<and> value \<le> maximum then Inr value else Inl (OutOfBounds name))"

record worker_config =
  wk_database_url :: byte_string
  wk_id :: byte_string
  wk_lease_ms :: int
  wk_poll_ms :: int

definition worker_settings :: "(byte_string \<Rightarrow> byte_string option) \<Rightarrow> byte_string \<Rightarrow> settings_error + worker_config" where
  "worker_settings env new_uuid =
     (case env ''DATABASE_URL'' of
        None \<Rightarrow> Inl (MissingVariable ''DATABASE_URL'')
      | Some url \<Rightarrow>
        let worker_id = (case env ''WORKER_ID'' of None \<Rightarrow> ''worker-'' @ new_uuid | Some v \<Rightarrow> v) in
        (case parse_bounded ''LEASE_MS'' (env ''LEASE_MS'') 15000 1 60000 of
           Inl e \<Rightarrow> Inl e
         | Inr lease_ms \<Rightarrow>
           (case parse_bounded ''POLL_MS'' (env ''POLL_MS'') 500 10 10000 of
              Inl e \<Rightarrow> Inl e
            | Inr poll_ms \<Rightarrow>
              Inr \<lparr>wk_database_url = url, wk_id = worker_id, wk_lease_ms = lease_ms, wk_poll_ms = poll_ms\<rparr>)))"

section \<open>The loop\<close>

text \<open>An error of the store, or a token that does not parse, ends the process.\<close>

datatype worker_exit = StoreFailed store_error | BadToken

datatype round = Idle int | Completed | FailedJob job_state

definition settle ::
  "(byte_string \<Rightarrow> byte_string) \<Rightarrow> (byte_string \<Rightarrow> byte_string) \<Rightarrow> byte_string \<Rightarrow> claimed_job \<Rightarrow> uuid \<Rightarrow> timestamp
    \<Rightarrow> database \<Rightarrow> database \<times> (worker_exit + round)" where
  "settle digest upper worker_id job token now db =
     (case snd (execute digest upper (cj_kind job) (cj_payload job)) of
        Inr result \<Rightarrow>
          (case store_complete (cj_dag_id job) (cj_job_id job) worker_id token result now db of
             (db', Inl e) \<Rightarrow> (db', Inl (StoreFailed e))
           | (db', Inr _) \<Rightarrow> (db', Inr Completed))
      | Inl _ \<Rightarrow>
          (case store_fail (cj_dag_id job) (cj_job_id job) worker_id token now db of
             (db', Inl e) \<Rightarrow> (db', Inl (StoreFailed e))
           | (db', Inr state) \<Rightarrow> (db', Inr (FailedJob state))))"

definition worker_round ::
  "(byte_string \<Rightarrow> byte_string) \<Rightarrow> (uuid \<Rightarrow> byte_string) \<Rightarrow> (byte_string \<Rightarrow> uuid option)
    \<Rightarrow> (byte_string \<Rightarrow> byte_string) \<Rightarrow> (byte_string \<Rightarrow> byte_string) \<Rightarrow> (byte_string \<times> byte_string \<Rightarrow> bool)
    \<Rightarrow> worker_config \<Rightarrow> uuid \<Rightarrow> timestamp \<Rightarrow> (database \<Rightarrow> database) \<Rightarrow> timestamp
    \<Rightarrow> database \<Rightarrow> database \<times> (worker_exit + round)" where
  "worker_round ck show_uuid parse_uuid digest upper locked config drawn claimed_at meanwhile settled_at db =
     (case store_claim ck show_uuid locked (wk_id config) (wk_lease_ms config) drawn claimed_at db of
        (db1, Inl e) \<Rightarrow> (db1, Inl (StoreFailed e))
      | (db1, Inr None) \<Rightarrow> (db1, Inr (Idle (wk_poll_ms config)))
      | (db1, Inr (Some job)) \<Rightarrow>
          (case parse_uuid (cj_lease_token job) of
             None \<Rightarrow> (db1, Inl BadToken)
           | Some token \<Rightarrow> settle digest upper (wk_id config) job token settled_at (meanwhile db1)))"

text \<open>
  The loop over its first rounds: what the environment does in each (the rows that are locked, the
  UUID, the two clocks and the other clients) is a \<open>tick\<close>. The first error ends the process.
\<close>

record tick =
  tk_locked :: "byte_string \<times> byte_string \<Rightarrow> bool"
  tk_drawn :: uuid
  tk_claimed_at :: timestamp
  tk_meanwhile :: "database \<Rightarrow> database"
  tk_settled_at :: timestamp

fun worker_loop ::
  "(byte_string \<Rightarrow> byte_string) \<Rightarrow> (uuid \<Rightarrow> byte_string) \<Rightarrow> (byte_string \<Rightarrow> uuid option)
    \<Rightarrow> (byte_string \<Rightarrow> byte_string) \<Rightarrow> (byte_string \<Rightarrow> byte_string) \<Rightarrow> worker_config \<Rightarrow> tick list
    \<Rightarrow> database \<Rightarrow> database \<times> (worker_exit + round list)" where
  "worker_loop ck show_uuid parse_uuid digest upper config [] db = (db, Inr [])"
| "worker_loop ck show_uuid parse_uuid digest upper config (t # ts) db =
     (case worker_round ck show_uuid parse_uuid digest upper (tk_locked t) config (tk_drawn t) (tk_claimed_at t)
             (tk_meanwhile t) (tk_settled_at t) db of
        (db', Inl e) \<Rightarrow> (db', Inl e)
      | (db', Inr r) \<Rightarrow>
          (case worker_loop ck show_uuid parse_uuid digest upper config ts db' of
             (db'', Inl e) \<Rightarrow> (db'', Inl e)
           | (db'', Inr rs) \<Rightarrow> (db'', Inr (r # rs))))"

section \<open>Operations on stored payloads\<close>

lemma char_digit_zero: "char_digit (CHR 0x00) = None"
  by (simp add: char_digit_def)

lemma pg_text_show_nat: "pg_text (show_nat n)"
  unfolding pg_text_def
proof
  assume "CHR 0x00 \<in> set (show_nat n)"
  then obtain d where "d < 10" "CHR 0x00 = digit_char d" using set_show_nat [of n] by auto
  then show False using char_digit_zero char_digit_digit_char [of d] by simp
qed

lemma pg_text_append [simp]: "pg_text (xs @ ys) \<longleftrightarrow> pg_text xs \<and> pg_text ys"
  by (simp add: pg_text_def)

lemma length_show_nat: "n < 10 ^ k \<Longrightarrow> 0 < k \<Longrightarrow> length (show_nat n) \<le> k"
proof (induction k arbitrary: n)
  case (Suc k)
  show ?case
  proof (cases "n < 10")
    case True
    then show ?thesis by (subst show_nat.simps) simp
  next
    case False
    then have k: "0 < k" using Suc.prems(1) by (cases k) auto
    have "n div 10 < 10 ^ k" using Suc.prems(1) by (simp add: less_mult_imp_div_less mult.commute)
    from Suc.IH [OF this k] False show ?thesis by (subst show_nat.simps) simp
  qed
qed simp

lemma delay_payload:
  assumes "validate_payload Delay payload = Inr ()"
  shows "\<exists>n. parse_u64 payload = Some n \<and> n \<le> 5000"
  using assms by (auto simp: validate_payload_def split: if_splits option.splits)

lemma execute_valid:
  assumes v: "validate_payload kind payload = Inr ()" and digest: "\<And>s. length (digest s) = 64"
  shows "fst (execute digest upper kind payload) \<le> 5000 \<and>
    (case snd (execute digest upper kind payload) of
       Inr result \<Rightarrow> length result \<le> 4096
     | Inl e \<Rightarrow> e = ResultTooLarge \<and> kind = Uppercase \<and> 4096 < length (upper payload))"
proof (cases kind)
  case Delay
  with v obtain n where n: "parse_u64 payload = Some n" "n \<le> 5000" using delay_payload by blast
  have "length (show_nat n) \<le> 4" by (rule length_show_nat) (use n(2) in simp_all)
  with Delay v n show ?thesis by (simp add: execute_def policy_defs)
next
  case Checksum
  with v digest show ?thesis by (simp add: execute_def policy_defs)
next
  case Uppercase
  with v show ?thesis by (simp add: execute_def policy_defs)
qed

lemma execute_text:
  assumes "snd (execute digest upper kind payload) = Inr result" "pg_text payload"
    and "\<And>s. pg_text (digest s)" "\<And>s. pg_text s \<Longrightarrow> pg_text (upper s)"
  shows "pg_text result"
proof (cases kind)
  case Delay
  with assms show ?thesis
    by (auto simp: execute_def pg_text_show_nat split: sum.splits option.splits if_splits)
      (use pg_text_show_nat in \<open>simp add: pg_text_def\<close>)
qed (use assms in \<open>auto simp: execute_def split: sum.splits if_splits\<close>)

section \<open>A round that gets a job\<close>

lemma claimed_job_row:
  assumes db: "store_reachable ck show_uuid db"
    and c: "store_claim ck show_uuid locked owner l token now db = (db', Inr (Some job))"
  shows "store_reachable ck show_uuid db' \<and>
    (\<exists>r. job_row_at db' (cj_dag_id job, cj_job_id job) = Some r \<and> jb_state r = state_name Leased \<and>
      jb_lease_owner r = Some owner \<and> jb_lease_token r = Some token \<and> jb_lease_expires_at r = Some (now + l * millisecond) \<and>
      jb_kind r = kind_name (cj_kind job) \<and> jb_payload r = cj_payload job \<and> jb_attempts r = int (cj_attempt job)) \<and>
    cj_lease_token job = show_uuid token"
proof -
  note inv = db_inv_reachable [OF db]
  have db': "store_reachable ck show_uuid db'"
    using store_runs_step [OF db [unfolded store_reachable_def] db_claim [OF c]] by (simp add: store_reachable_def)
  from inv c show ?thesis
  proof (cases rule: store_claim_cases)
    case (granted row cj)
    let ?db1 = "fst (reap_in_transaction now db)"
    note inv1 = db_inv_reap [OF inv, of now]
    have row: "row \<in> set (db_jobs ?db1)" by (rule eligible_row(1) [OF granted(3)])
    have at: "job_row_at ?db1 (job_key row) = Some row" using job_row_at_iff [OF db_inv_tables [OF inv1]] row by simp
    have "job_row_at db' (job_key row) = Some (lease_row owner token l now row)"
      unfolding granted(7) job_row_at_events by (subst job_row_at_update) (simp_all add: at)
    moreover have "jb_kind (lease_row owner token l now row) = jb_kind row" "jb_payload (lease_row owner token l now row) = jb_payload row"
      "jb_attempts (lease_row owner token l now row) = jb_attempts row + 1"
      "jb_lease_owner (lease_row owner token l now row) = Some owner" "jb_lease_token (lease_row owner token l now row) = Some token"
      "jb_lease_expires_at (lease_row owner token l now row) = Some (now + l * millisecond)"
      by (simp_all add: lease_row_def)
    moreover have "cj = job" using granted(6) by simp
    ultimately show ?thesis using db' claimed_row_fields [OF granted(5)] by (simp add: job_key_def)
  qed simp_all
qed

lemma row_texts:
  assumes db: "store_reachable ck show_uuid db" and r: "job_row_at db (d, j) = Some r"
  shows "pg_text d" "pg_text j" "pg_text (jb_payload r)"
proof -
  from job_row_at_dag [OF db_inv_tables [OF db_inv_reachable [OF db]] r] have "d \<in> dg_id ` set (db_dags db)" .
  with dag_ids_reachable [OF db] show "pg_text d" using identifier_text by blast
  from job_row_at_mem [OF r] have mem: "r \<in> set (db_jobs db)" "jb_id r = j" by (simp_all add: job_key_def)
  with db_inv_row [OF db_inv_reachable [OF db]] have "identifier_check j" by (auto simp: row_inv_def job_row_check_def)
  then show "pg_text j" by (rule identifier_text)
  from payload_ok_reachable [OF db] mem(1) show "pg_text (jb_payload r)" by (simp add: payload_ok_def)
qed

lemma settled_row:
  assumes db: "store_reachable ck show_uuid db"
    and r: "job_row_at db (cj_dag_id job, cj_job_id job) = Some r" "held_row (cj_dag_id job) (cj_job_id job) worker_id token now r"
      "jb_payload r = cj_payload job" "jb_attempts r = int (cj_attempt job)"
    and worker: "pg_text worker_id"
    and texts: "\<And>s. pg_text (digest s)" "\<And>s. pg_text s \<Longrightarrow> pg_text (upper s)"
    and lengths: "\<And>result. snd (execute digest upper (cj_kind job) (cj_payload job)) = Inr result \<Longrightarrow> length result \<le> 4096"
  shows "\<exists>db' r'. job_row_at db' (cj_dag_id job, cj_job_id job) = Some r' \<and> store_reachable ck show_uuid db' \<and>
    (case snd (execute digest upper (cj_kind job) (cj_payload job)) of
       Inr result \<Rightarrow> settle digest upper worker_id job token now db = (db', Inr Completed) \<and> r' = succeed_row result now r
     | Inl e \<Rightarrow> settle digest upper worker_id job token now db =
         (db', Inr (FailedJob (if jb_max_attempts r \<le> int (cj_attempt job) then DeadLettered else RetryWait))) \<and>
         r' = requeue_row now r)"
proof -
  let ?d = "cj_dag_id job" and ?j = "cj_job_id job"
  note inv = db_inv_reachable [OF db] and ids = row_texts [OF db r(1)]
  have mem: "r \<in> set (db_jobs db)" "job_key r = (?d, ?j)" using job_row_at_mem [OF r(1)] by simp_all
  then have held: "held ?d ?j worker_id token now db" using r(2) by (auto simp: held_def)
  show ?thesis
  proof (cases "snd (execute digest upper (cj_kind job) (cj_payload job))")
    case (Inr result)
    have "pg_text result" by (rule execute_text [OF Inr _ texts]) (use ids(3) r(3) in simp_all)
    then have c: "store_complete ?d ?j worker_id token result now db =
        (insert_event ?d ?j ''succeeded'' worker_id now (release_statement ?d ?j now (marked ?d ?j worker_id token result now db)), Inr ())"
      using held ids worker lengths [OF Inr] by (simp add: store_complete_eq [OF inv])
    let ?db' = "fst (store_complete ?d ?j worker_id token result now db)"
    have db': "store_reachable ck show_uuid ?db'"
      using store_runs_step [OF db [unfolded store_reachable_def] db_complete [OF c]] by (simp add: store_reachable_def c)
    have "succeed_row result now r \<in> set (db_jobs ?db')"
      using completed_tables [OF inv mem(1) r(2)] succeeded_row_mem [OF mem] by (simp add: c insert_event_def)
    then have "job_row_at ?db' (?d, ?j) = Some (succeed_row result now r)"
      using job_row_at_iff [OF db_inv_tables [OF db_inv_reachable [OF db']]] mem(2) by simp
    moreover have "settle digest upper worker_id job token now db = (?db', Inr Completed)" by (simp add: settle_def Inr c)
    ultimately show ?thesis using db' Inr by auto
  next
    case (Inl e)
    from store_fail_eq [OF inv, of ?d ?j worker_id token now] obtain st where
      f: "store_fail ?d ?j worker_id token now db =
        (insert_event ?d ?j (state_name st) worker_id now (update_jobs (held_row ?d ?j worker_id token now) (requeue_row now) db), Inr st)"
      and st: "st = (if jb_max_attempts r \<le> jb_attempts r then DeadLettered else RetryWait)"
      using held ids worker mem(1) r(2) by auto
    let ?db' = "fst (store_fail ?d ?j worker_id token now db)"
    have db': "store_reachable ck show_uuid ?db'"
      using store_runs_step [OF db [unfolded store_reachable_def] db_fail [OF f]] by (simp add: store_reachable_def f)
    have "job_row_at ?db' (?d, ?j) = Some (requeue_row now r)"
      unfolding f fst_conv job_row_at_events by (subst job_row_at_update) (simp_all add: r(1,2))
    moreover have "settle digest upper worker_id job token now db = (?db', Inr (FailedJob st))" by (simp add: settle_def Inl f)
    ultimately show ?thesis using db' Inl st r(4) by auto
  qed
qed

end
