(* ===== verification/Commands.thy ===== *)
theory Commands
  imports Worker
begin

text \<open>
  The other two binaries. \<open>src/bin/orchestratorctl.rs\<close>: reading a bounded graph file and the five
  commands, each a method of the store or of the domain and one printed line.
  \<open>src/bin/orchestratord.rs\<close>: the settings of the server. The file system, the JSON decoder and
  printer, the parser of socket addresses, the connection and the migrations are parameters or
  left out; the command line is decoded by \<open>clap\<close>.
\<close>

section \<open>Reading a graph\<close>

datatype ctl_error =
    ReadFailed
  | InputTooLarge
  | BadJson
  | CtlValidation validation_error
  | CtlStore store_error

text \<open>A file: its size and its contents, \<open>None\<close> when they are not UTF-8 or cannot be read.\<close>

type_synonym file_system = "byte_string \<Rightarrow> (nat \<times> byte_string option) option"

definition read_spec :: "file_system \<Rightarrow> (byte_string \<Rightarrow> dag_spec option) \<Rightarrow> byte_string \<Rightarrow> ctl_error + dag_spec" where
  "read_spec fs from_json path =
     (case fs path of
        None \<Rightarrow> Inl ReadFailed
      | Some (n_bytes, contents) \<Rightarrow>
        if 1000000 < n_bytes then Inl InputTooLarge
        else
          (case contents of
             None \<Rightarrow> Inl ReadFailed
           | Some s \<Rightarrow> (case from_json s of None \<Rightarrow> Inl BadJson | Some spec \<Rightarrow> Inr spec)))"

section \<open>Commands\<close>

datatype command =
    CmdValidate byte_string
  | CmdSubmit byte_string
  | CmdStatus byte_string
  | CmdCancel byte_string
  | CmdReap

fun join :: "byte_string \<Rightarrow> byte_string list \<Rightarrow> byte_string" where
  "join sep [] = []"
| "join sep [x] = x"
| "join sep (x # y # ys) = x @ sep @ join sep (y # ys)"

definition ctl_result :: "('a \<Rightarrow> byte_string) \<Rightarrow> store_error + 'a \<Rightarrow> ctl_error + byte_string" where
  "ctl_result f r = (case r of Inl e \<Rightarrow> Inl (CtlStore e) | Inr x \<Rightarrow> Inr (f x))"

text \<open>The tables afterwards, and the printed line or the error that ends the process.\<close>

definition run_command ::
  "file_system \<Rightarrow> (byte_string \<Rightarrow> dag_spec option) \<Rightarrow> (dag_snapshot \<Rightarrow> byte_string) \<Rightarrow> (byte_string \<Rightarrow> byte_string)
    \<Rightarrow> command \<Rightarrow> timestamp \<Rightarrow> database \<Rightarrow> (database \<times> (ctl_error + byte_string)) option" where
  "run_command fs from_json pretty ck command now db =
     (case command of
        CmdValidate file \<Rightarrow>
          (case read_spec fs from_json file of
             Inl e \<Rightarrow> Some (db, Inl e)
           | Inr spec \<Rightarrow>
             (case validate spec of
                None \<Rightarrow> None
              | Some (Inl e) \<Rightarrow> Some (db, Inl (CtlValidation e))
              | Some (Inr order) \<Rightarrow> Some (db, Inr (''valid DAG '' @ ds_id spec @ '': '' @ join '' -> '' order))))
      | CmdSubmit file \<Rightarrow>
          (case read_spec fs from_json file of
             Inl e \<Rightarrow> Some (db, Inl e)
           | Inr spec \<Rightarrow>
             (case store_submit spec now db of
                None \<Rightarrow> None
              | Some (db', r) \<Rightarrow> Some (db', ctl_result (\<lambda>_. ''submitted '' @ ds_id spec) r)))
      | CmdStatus dag_id \<Rightarrow> Some (db, ctl_result pretty (store_snapshot ck dag_id db))
      | CmdCancel dag_id \<Rightarrow>
          (case store_cancel dag_id now db of
             (db', r) \<Rightarrow> Some (db', ctl_result (\<lambda>cancelled. ''cancelled '' @ show_nat cancelled @ '' jobs in '' @ dag_id) r))
      | CmdReap \<Rightarrow>
          (case store_reap now db of
             (db', reclaimed) \<Rightarrow> Some (db', Inr (''reclaimed '' @ show_nat reclaimed @ '' expired leases''))))"

text \<open>A dry run tells the truth: \<open>submit\<close> answers a validation error exactly when \<open>validate\<close> does.\<close>

lemma validate_command_agrees:
  assumes "read_spec fs from_json file = Inr spec" "db_inv db"
  shows "run_command fs from_json pretty ck (CmdValidate file) now db = Some (db, Inl (CtlValidation e)) \<longleftrightarrow>
    run_command fs from_json pretty ck (CmdSubmit file) now db = Some (db, Inl (CtlStore (StoreValidation e)))"
proof -
  obtain v where v: "validate spec = Some v" using validate_total by blast
  show ?thesis
  proof (cases v)
    case (Inl e')
    with v assms(1) show ?thesis by (simp add: run_command_def store_submit_def ctl_result_def)
  next
    case (Inr order)
    with v have v': "validate spec = Some (Inr order)" by simp
    show ?thesis using assms(1) v' by (simp add: run_command_def store_submit_eq [OF assms(2) v'] ctl_result_def)
  qed
qed

section \<open>The server\<close>

definition parse_u32 :: "byte_string \<Rightarrow> nat option" where
  "parse_u32 s = (case parse_u64 s of None \<Rightarrow> None | Some n \<Rightarrow> if n \<le> 4294967295 then Some n else None)"

datatype server_error = MissingDatabaseUrl | BadBindAddress | BadPoolSize | ConnectRejected store_error

record 'addr server_config =
  sv_database_url :: byte_string
  sv_bind :: 'addr
  sv_max_connections :: nat

definition server_settings ::
  "(byte_string \<Rightarrow> byte_string option) \<Rightarrow> (byte_string \<Rightarrow> 'addr option) \<Rightarrow> server_error + 'addr server_config" where
  "server_settings env parse_addr =
     (case env ''DATABASE_URL'' of
        None \<Rightarrow> Inl MissingDatabaseUrl
      | Some url \<Rightarrow>
        (case parse_addr (case env ''BIND_ADDRESS'' of None \<Rightarrow> ''0.0.0.0:8080'' | Some a \<Rightarrow> a) of
           None \<Rightarrow> Inl BadBindAddress
         | Some bind \<Rightarrow>
           (case parse_u32 (case env ''DATABASE_MAX_CONNECTIONS'' of None \<Rightarrow> ''10'' | Some n \<Rightarrow> n) of
              None \<Rightarrow> Inl BadPoolSize
            | Some n \<Rightarrow>
              (case check_pool_size n of
                 Inl e \<Rightarrow> Inl (ConnectRejected e)
               | Inr _ \<Rightarrow> Inr \<lparr>sv_database_url = url, sv_bind = bind, sv_max_connections = n\<rparr>))))"

lemma server_pool_bounded:
  "server_settings env parse_addr = Inr config \<Longrightarrow> 1 \<le> sv_max_connections config \<and> sv_max_connections config \<le> 100"
  by (auto simp: server_settings_def check_pool_size_def split: option.splits sum.splits if_splits)

lemma worker_settings_bounded:
  "worker_settings env u = Inr config \<Longrightarrow>
    1 \<le> wk_lease_ms config \<and> wk_lease_ms config \<le> 60000 \<and> 10 \<le> wk_poll_ms config \<and> wk_poll_ms config \<le> 10000"
  by (auto simp: worker_settings_def parse_bounded_def Let_def split: option.splits sum.splits if_splits)

end
