(* ===== verification/Http.thy ===== *)
theory Http
  imports StoreAnswers
begin

text \<open>
  \<open>src/http.rs\<close>: the requests of the API, the handlers over the store, and the error contract.
  Building the router, decoding a request into its typed body (and rejecting one that cannot be
  decoded), the headers, and the static files are the \<open>axum\<close> and \<open>tower-http\<close> libraries; a
  request here has reached its handler with a decoded body, with \<open>None\<close> for an absent field that
  has a default. \<open>he_link\<close> says what happens to the connection during the request: the database
  answers, it cannot be reached (or the connection breaks before the commit, which PostgreSQL then
  rolls back), or the statements run and commit but their answer is lost.
\<close>

section \<open>Bodies\<close>

datatype json = JNull | JInt int | JStr byte_string | JArr "json list" | JObj "(byte_string \<times> json) list"

datatype body = JsonBody json | TextBody byte_string byte_string

record response =
  rs_status :: nat
  rs_body :: body

definition json_response :: "nat \<Rightarrow> (byte_string \<times> json) list \<Rightarrow> response" where
  "json_response status members = \<lparr>rs_status = status, rs_body = JsonBody (JObj members)\<rparr>"

definition json_opt :: "('a \<Rightarrow> json) \<Rightarrow> 'a option \<Rightarrow> json" where
  "json_opt f x = (case x of None \<Rightarrow> JNull | Some y \<Rightarrow> f y)"

definition http_state_name :: "job_state \<Rightarrow> byte_string" where
  "http_state_name state =
     (case state of
        Pending \<Rightarrow> ''pending''
      | Ready \<Rightarrow> ''ready''
      | RetryWait \<Rightarrow> ''retry_wait''
      | Leased \<Rightarrow> ''leased''
      | Succeeded \<Rightarrow> ''succeeded''
      | DeadLettered \<Rightarrow> ''dead_lettered''
      | Cancelled \<Rightarrow> ''cancelled'')"

text \<open>The serialised snapshot and claim; enumerations are written in snake case.\<close>

definition json_job :: "job_snapshot \<Rightarrow> json" where
  "json_job job = JObj
     [(''id'', JStr (sn_id job)), (''state'', JStr (http_state_name (sn_state job))),
      (''attempts'', JInt (int (sn_attempts job))), (''max_attempts'', JInt (int (sn_max_attempts job))),
      (''available_at_ms'', JInt (sn_available_at_ms job)), (''lease_owner'', json_opt JStr (sn_lease_owner job)),
      (''lease_expires_at_ms'', json_opt JInt (sn_lease_expires_at_ms job)), (''result'', json_opt JStr (sn_result job))]"

definition json_claim :: "claimed_job \<Rightarrow> json" where
  "json_claim job = JObj
     [(''dag_id'', JStr (cj_dag_id job)), (''job_id'', JStr (cj_job_id job)), (''kind'', JStr (kind_name (cj_kind job))),
      (''payload'', JStr (cj_payload job)), (''attempt'', JInt (int (cj_attempt job))),
      (''lease_token'', JStr (cj_lease_token job)), (''lease_expires_at_ms'', JInt (cj_lease_expires_at_ms job))]"

section \<open>Errors\<close>

datatype api_error = StoreFault store_error | Unavailable

text \<open>
  The SQLSTATE of a database error; a failure to decode a row and a failure of the connection
  (I/O, or no connection from the pool in time) are not errors the database reports.
\<close>

definition sqlstate :: "database_error \<Rightarrow> byte_string option" where
  "sqlstate e =
     (case e of
        UniqueViolation \<Rightarrow> Some ''23505''
      | ForeignKeyViolation \<Rightarrow> Some ''23503''
      | CheckViolation \<Rightarrow> Some ''23514''
      | InvalidText \<Rightarrow> Some ''22021''
      | NumericOutOfRange \<Rightarrow> Some ''22003''
      | DecodeError \<Rightarrow> None
      | ConnectionLost \<Rightarrow> None)"

definition is_unique_violation :: "database_error \<Rightarrow> bool" where
  "is_unique_violation error \<longleftrightarrow> sqlstate error = Some ''23505''"

definition validation_message :: "validation_error \<Rightarrow> byte_string" where
  "validation_message e =
     (case e of
        InvalidIdentifier i \<Rightarrow> ''identifier must contain 1..=64 ASCII letters, numbers, dashes, or underscores: '' @ i
      | InvalidJobCount \<Rightarrow> ''DAG must contain 1..=1000 jobs''
      | InvalidDependencyCount \<Rightarrow> ''DAG must contain at most 10000 dependencies''
      | DuplicateJob i \<Rightarrow> ''duplicate job identifier: '' @ i
      | UnknownJob i \<Rightarrow> ''dependency references unknown job: '' @ i
      | Cycle \<Rightarrow> ''dependency graph contains a cycle''
      | PayloadTooLarge \<Rightarrow> ''payload exceeds 4096 bytes''
      | InvalidDelay \<Rightarrow> ''delay payload must be an integer from 0 through 5000 milliseconds''
      | InvalidPolicy \<Rightarrow> ''attempts must be 1..=20 and priority must be -100..=100'')"

definition error_body :: "nat \<Rightarrow> byte_string \<Rightarrow> byte_string \<Rightarrow> response" where
  "error_body status code message = json_response status [(''code'', JStr code), (''message'', JStr message)]"

definition into_response :: "api_error \<Rightarrow> response" where
  "into_response e =
     (case e of
        Unavailable \<Rightarrow> error_body 503 ''unavailable'' ''database is not ready''
      | StoreFault NotFound \<Rightarrow> error_body 404 ''not_found'' ''resource not found''
      | StoreFault StoreLeaseConflict \<Rightarrow> error_body 409 ''lease_conflict'' ''lease is stale or owned by another worker''
      | StoreFault (StoreValidation error) \<Rightarrow> error_body 422 ''invalid_dag'' (validation_message error)
      | StoreFault InvalidConfiguration \<Rightarrow> error_body 400 ''invalid_request'' ''request is outside supported limits''
      | StoreFault (Database error) \<Rightarrow>
          if is_unique_violation error then error_body 409 ''already_exists'' ''resource already exists''
          else error_body 500 ''internal'' ''internal control-plane error''
      | StoreFault CorruptData \<Rightarrow> error_body 500 ''internal'' ''internal control-plane error'')"

text \<open>What \<open>?\<close> and the conversion of the handlers' results do.\<close>

definition respond :: "('a \<Rightarrow> response) \<Rightarrow> store_error + 'a \<Rightarrow> response" where
  "respond f r = (case r of Inl e \<Rightarrow> into_response (StoreFault e) | Inr x \<Rightarrow> f x)"

section \<open>The connection\<close>

datatype connection = Connected | Unreachable | ReplyLost

text \<open>
  A call of a method of the store over the connection. \<open>checked\<close> is what the method tests before it
  first uses the database, \<open>(db', r)\<close> what it does on a connected one. Without a connection the
  first statement after the tests fails; with the answer lost, an effect of the method stays.
\<close>

definition over_link ::
  "connection \<Rightarrow> store_error + 'b \<Rightarrow> database \<Rightarrow> database \<times> (store_error + 'a) \<Rightarrow> database \<times> (store_error + 'a)" where
  "over_link link checked db = (\<lambda>(db', r).
     (case link of
        Connected \<Rightarrow> (db', r)
      | Unreachable \<Rightarrow> (db, case checked of Inl e \<Rightarrow> Inl e | Inr _ \<Rightarrow> Inl (Database ConnectionLost))
      | ReplyLost \<Rightarrow> (db', case r of Inl e \<Rightarrow> Inl e | Inr _ \<Rightarrow> Inl (Database ConnectionLost))))"

text \<open>The tests of \<open>submit\<close>, \<open>complete\<close> and \<open>list_dags\<close> ahead of their first statement;
  \<open>claim\<close> and \<open>heartbeat\<close> call \<open>validate_owner_and_lease\<close>, the others go to the database at once.\<close>

definition submit_checked :: "dag_spec \<Rightarrow> store_error + unit" where
  "submit_checked spec = (case validate spec of Some (Inl e) \<Rightarrow> Inl (StoreValidation e) | _ \<Rightarrow> Inr ())"

definition complete_checked :: "byte_string \<Rightarrow> store_error + unit" where
  "complete_checked result = (if MAX_PAYLOAD_BYTES < length result then Inl InvalidConfiguration else Inr ())"

definition list_checked :: "nat \<Rightarrow> store_error + unit" where
  "list_checked limit = (if \<not> (1 \<le> limit \<and> limit \<le> 100) then Inl InvalidConfiguration else Inr ())"

text \<open>\<open>ready\<close>: the trivial query has an answer.\<close>

definition store_ready :: "connection \<Rightarrow> bool" where
  "store_ready link \<longleftrightarrow> link = Connected"

section \<open>Requests\<close>

record list_query =
  lq_after :: "byte_string option"
  lq_limit :: "nat option"

definition default_page_size :: nat where
  "default_page_size = 25"

record claim_request =
  cr_owner :: byte_string
  cr_lease_ms :: "int option"

definition default_lease_ms :: int where
  "default_lease_ms = 15000"

record lease_request =
  lr_dag_id :: byte_string
  lr_job_id :: byte_string
  lr_owner :: byte_string
  lr_lease_token :: uuid
  lr_lease_ms :: "int option"

record complete_request =
  cq_dag_id :: byte_string
  cq_job_id :: byte_string
  cq_owner :: byte_string
  cq_lease_token :: uuid
  cq_result :: byte_string

definition or_default :: "'a \<Rightarrow> 'a option \<Rightarrow> 'a" where
  "or_default d x = (case x of None \<Rightarrow> d | Some y \<Rightarrow> y)"

datatype api_request =
    GetLive
  | GetReady
  | GetMetrics
  | PostDag dag_spec
  | GetDags list_query
  | GetDag byte_string
  | PostCancel byte_string
  | PostClaim claim_request
  | PostHeartbeat lease_request
  | PostComplete complete_request
  | PostFail lease_request

datatype http_method = GET | POST

text \<open>The route of each handler: the method and the segments of the path.\<close>

definition route :: "api_request \<Rightarrow> http_method \<times> byte_string list" where
  "route request =
     (case request of
        GetLive \<Rightarrow> (GET, [''health'', ''live''])
      | GetReady \<Rightarrow> (GET, [''health'', ''ready''])
      | GetMetrics \<Rightarrow> (GET, [''metrics''])
      | PostDag _ \<Rightarrow> (POST, [''v1'', ''dags''])
      | GetDags _ \<Rightarrow> (GET, [''v1'', ''dags''])
      | GetDag dag_id \<Rightarrow> (GET, [''v1'', ''dags'', dag_id])
      | PostCancel dag_id \<Rightarrow> (POST, [''v1'', ''dags'', dag_id, ''cancel''])
      | PostClaim _ \<Rightarrow> (POST, [''v1'', ''leases'', ''claim''])
      | PostHeartbeat _ \<Rightarrow> (POST, [''v1'', ''leases'', ''heartbeat''])
      | PostComplete _ \<Rightarrow> (POST, [''v1'', ''leases'', ''complete''])
      | PostFail _ \<Rightarrow> (POST, [''v1'', ''leases'', ''fail'']))"

section \<open>Handlers\<close>

record http_env =
  he_collation :: "byte_string \<Rightarrow> byte_string"
  he_show_uuid :: "uuid \<Rightarrow> byte_string"
  he_locked :: "byte_string \<times> byte_string \<Rightarrow> bool"
  he_link :: connection
  he_drawn :: uuid
  he_now :: timestamp

definition http_live :: response where
  "http_live = json_response 200 [(''status'', JStr ''live'')]"

definition http_ready :: "http_env \<Rightarrow> response" where
  "http_ready env =
     (if store_ready (he_link env) then json_response 200 [(''status'', JStr ''ready'')] else into_response Unavailable)"

definition http_metrics :: "http_env \<Rightarrow> response" where
  "http_metrics env =
     (if \<not> store_ready (he_link env) then into_response Unavailable
      else \<lparr>rs_status = 200, rs_body = TextBody ''text/plain; version=0.0.4''
        (''# HELP orchestrator_ready Database readiness'' @ [CHR 0x0A] @
         ''# TYPE orchestrator_ready gauge'' @ [CHR 0x0A] @ ''orchestrator_ready 1'' @ [CHR 0x0A])\<rparr>)"

definition http_submit :: "http_env \<Rightarrow> dag_spec \<Rightarrow> database \<Rightarrow> (database \<times> response) option" where
  "http_submit env spec db =
     (case store_submit spec (he_now env) db of
        None \<Rightarrow> None
      | Some called \<Rightarrow>
        (case over_link (he_link env) (submit_checked spec) db called of
           (db', r) \<Rightarrow> Some (db', respond (\<lambda>_. json_response 201 [(''dag_id'', JStr (ds_id spec))]) r)))"

definition http_list_dags :: "http_env \<Rightarrow> list_query \<Rightarrow> database \<Rightarrow> database \<times> response" where
  "http_list_dags env query db =
     (let limit = or_default default_page_size (lq_limit query) in
      case over_link (he_link env) (list_checked limit) db
             (db, store_list_dags (he_collation env) (lq_after query) limit db) of
        (db', r) \<Rightarrow> (db', respond (\<lambda>dags. json_response 200
          [(''items'', JArr (map JStr dags)), (''next_cursor'', if dags = [] then JNull else JStr (last dags))]) r))"

definition http_snapshot :: "http_env \<Rightarrow> byte_string \<Rightarrow> database \<Rightarrow> database \<times> response" where
  "http_snapshot env dag_id db =
     (case over_link (he_link env) (Inr ()) db (db, store_snapshot (he_collation env) dag_id db) of
        (db', r) \<Rightarrow> (db', respond (\<lambda>snap. json_response 200
          [(''id'', JStr (dsn_id snap)), (''jobs'', JArr (map json_job (dsn_jobs snap)))]) r))"

definition http_cancel :: "http_env \<Rightarrow> byte_string \<Rightarrow> database \<Rightarrow> database \<times> response" where
  "http_cancel env dag_id db =
     (case over_link (he_link env) (Inr ()) db (store_cancel dag_id (he_now env) db) of
        (db', r) \<Rightarrow> (db', respond (\<lambda>cancelled. json_response 200
          [(''dag_id'', JStr dag_id), (''cancelled_jobs'', JInt (int cancelled))]) r))"

definition http_claim :: "http_env \<Rightarrow> claim_request \<Rightarrow> database \<Rightarrow> database \<times> response" where
  "http_claim env request db =
     (let lease_ms = or_default default_lease_ms (cr_lease_ms request) in
      case over_link (he_link env) (validate_owner_and_lease (cr_owner request) lease_ms) db
             (store_claim (he_collation env) (he_show_uuid env) (he_locked env) (cr_owner request)
               lease_ms (he_drawn env) (he_now env) db) of
        (db', r) \<Rightarrow> (db', respond (\<lambda>claim. json_response 200 [(''job'', json_opt json_claim claim)]) r))"

definition http_heartbeat :: "http_env \<Rightarrow> lease_request \<Rightarrow> database \<Rightarrow> database \<times> response" where
  "http_heartbeat env request db =
     (let lease_ms = or_default default_lease_ms (lr_lease_ms request) in
      case over_link (he_link env) (validate_owner_and_lease (lr_owner request) lease_ms) db
             (store_heartbeat (lr_dag_id request) (lr_job_id request) (lr_owner request) (lr_lease_token request)
               lease_ms (he_now env) db) of
        (db', r) \<Rightarrow> (db', respond (\<lambda>_. json_response 200 [(''status'', JStr ''extended'')]) r))"

definition http_complete :: "http_env \<Rightarrow> complete_request \<Rightarrow> database \<Rightarrow> database \<times> response" where
  "http_complete env request db =
     (case over_link (he_link env) (complete_checked (cq_result request)) db
             (store_complete (cq_dag_id request) (cq_job_id request) (cq_owner request) (cq_lease_token request)
               (cq_result request) (he_now env) db) of
        (db', r) \<Rightarrow> (db', respond (\<lambda>_. json_response 200 [(''status'', JStr ''succeeded'')]) r))"

definition http_fail :: "http_env \<Rightarrow> lease_request \<Rightarrow> database \<Rightarrow> database \<times> response" where
  "http_fail env request db =
     (case over_link (he_link env) (Inr ()) db
             (store_fail (lr_dag_id request) (lr_job_id request) (lr_owner request) (lr_lease_token request) (he_now env) db) of
        (db', r) \<Rightarrow> (db', respond (\<lambda>state. json_response 200 [(''status'', JStr (http_state_name state))]) r))"

definition serve :: "http_env \<Rightarrow> api_request \<Rightarrow> database \<Rightarrow> (database \<times> response) option" where
  "serve env request db =
     (case request of
        GetLive \<Rightarrow> Some (db, http_live)
      | GetReady \<Rightarrow> Some (db, http_ready env)
      | GetMetrics \<Rightarrow> Some (db, http_metrics env)
      | PostDag spec \<Rightarrow> http_submit env spec db
      | GetDags query \<Rightarrow> Some (http_list_dags env query db)
      | GetDag dag_id \<Rightarrow> Some (http_snapshot env dag_id db)
      | PostCancel dag_id \<Rightarrow> Some (http_cancel env dag_id db)
      | PostClaim body \<Rightarrow> Some (http_claim env body db)
      | PostHeartbeat body \<Rightarrow> Some (http_heartbeat env body db)
      | PostComplete body \<Rightarrow> Some (http_complete env body db)
      | PostFail body \<Rightarrow> Some (http_fail env body db))"

end
