(* ===== verification/WorkerProgress.thy ===== *)
theory WorkerProgress
  imports Worker
begin

text \<open>
  Progress of the worker process on the store: a worker that is left alone finishes one job per
  round, with the result of its operation, until nothing is left, and then keeps polling.
\<close>

section \<open>Tables that wait for a worker\<close>

text \<open>Only the graph \<open>d\<close> has unfinished jobs, each ready and due, or pending; none of its jobs failed.\<close>

definition quiet :: "byte_string \<Rightarrow> timestamp \<Rightarrow> database \<Rightarrow> bool" where
  "quiet d now db \<longleftrightarrow>
     db_inv db \<and> wf {(p, i). p \<in> row_needs db i \<and> fst i = d} \<and>
     (\<forall>r\<in>set (db_jobs db).
        if jb_dag_id r = d
        then jb_state r = state_name Succeeded \<or> jb_state r = state_name Pending \<or>
          jb_state r = state_name Ready \<and> jb_available_at r \<le> now
        else terminal_name (jb_state r))"

definition unfinished_rows :: "database \<Rightarrow> (byte_string \<times> byte_string) set" where
  "unfinished_rows db = {i. \<exists>r\<in>set (db_jobs db). job_key r = i \<and> \<not> terminal_name (jb_state r)}"

definition row_output :: "(byte_string \<Rightarrow> byte_string) \<Rightarrow> (byte_string \<Rightarrow> byte_string) \<Rightarrow> job_row \<Rightarrow> worker_error + byte_string" where
  "row_output digest upper r = snd (execute digest upper (projr (parse_kind (jb_kind r))) (jb_payload r))"

text \<open>The operation of every job of the graph succeeds, and a stored result is its result.\<close>

definition results_right :: "(byte_string \<Rightarrow> byte_string) \<Rightarrow> (byte_string \<Rightarrow> byte_string) \<Rightarrow> byte_string \<Rightarrow> database \<Rightarrow> bool" where
  "results_right digest upper d db \<longleftrightarrow>
     (\<forall>r\<in>set (db_jobs db). jb_dag_id r = d \<longrightarrow>
        (\<exists>result. row_output digest upper r = Inr result \<and>
           (jb_state r = state_name Succeeded \<longrightarrow> jb_result r = Some result)))"

lemma terminal_names [simp]:
  "terminal_name (state_name st) \<longleftrightarrow> is_terminal st"
  by (cases st) (simp_all add: terminal_name_def is_terminal_def)

lemma update_jobs_none: "(\<And>r. r \<in> set (db_jobs db) \<Longrightarrow> \<not> p r) \<Longrightarrow> update_jobs p f db = db"
proof -
  assume "\<And>r. r \<in> set (db_jobs db) \<Longrightarrow> \<not> p r"
  then have "map (\<lambda>r. if p r then f r else r) (db_jobs db) = db_jobs db" by (intro map_idI) simp
  then show ?thesis by (simp add: update_jobs_def)
qed

lemma quiet_dag_row:
  assumes "quiet d now db" "r \<in> set (db_jobs db)"
  shows "jb_dag_id r = d \<Longrightarrow> jb_state r = state_name Succeeded \<or> jb_state r = state_name Pending \<or>
      jb_state r = state_name Ready \<and> jb_available_at r \<le> now"
    and "jb_dag_id r \<noteq> d \<Longrightarrow> terminal_name (jb_state r)"
    and "jb_state r \<noteq> state_name Leased"
proof -
  from assms have "if jb_dag_id r = d
        then jb_state r = state_name Succeeded \<or> jb_state r = state_name Pending \<or>
          jb_state r = state_name Ready \<and> jb_available_at r \<le> now
        else terminal_name (jb_state r)" unfolding quiet_def by blast
  then show "jb_dag_id r = d \<Longrightarrow> jb_state r = state_name Succeeded \<or> jb_state r = state_name Pending \<or>
      jb_state r = state_name Ready \<and> jb_available_at r \<le> now"
    and "jb_dag_id r \<noteq> d \<Longrightarrow> terminal_name (jb_state r)"
    and "jb_state r \<noteq> state_name Leased"
    by (auto simp: is_terminal_def split: if_splits)
qed

lemma quiet_reap: "quiet d now db \<Longrightarrow> fst (reap_in_transaction t db) = db"
  unfolding reap_in_transaction_def fst_conv
  by (rule update_jobs_none) (auto simp: expired_row_s dest: quiet_dag_row(3))

section \<open>When nothing can be claimed\<close>

lemma ready_eligible:
  assumes q: "quiet d now db" and r: "r \<in> set (db_jobs db)" "jb_state r = state_name Ready" and "now \<le> t"
  shows "r \<in> set (eligible_rows (\<lambda>_. False) t db)"
proof -
  have inv: "db_inv db" using q by (simp add: quiet_def)
  then have ok: "row_ok db r" using r(1) by (simp add: db_inv_def)
  have d: "jb_dag_id r = d" using quiet_dag_row(2) [OF q r(1)] r(2) by (auto simp: is_terminal_def)
  have due: "jb_available_at r \<le> t" using quiet_dag_row(1) [OF q r(1) d] r(2) assms(4) by auto
  obtain g where g: "g \<in> set (db_dags db)" "dg_id g = jb_dag_id r"
    using inv r(1) by (auto simp: db_inv_def tables_ok_def)
  have "dg_state g = ''running''" by (rule row_ok_running [OF ok _ g]) (simp add: r(2) is_terminal_def)
  moreover have "\<not> open_parent db r" using ok r(2) by (simp add: row_ok_def open_parent_blocked)
  ultimately show ?thesis
    using r g due by (auto simp: eligible_rows_def candidate_row_s)
qed

lemma quiet_finished:
  assumes q: "quiet d now db" and none: "eligible_rows (\<lambda>_. False) t db = []" "now \<le> t"
    and r: "r \<in> set (db_jobs db)" "jb_dag_id r = d"
  shows "jb_state r = state_name Succeeded"
proof -
  have inv: "db_inv db" and wf: "wf {(p, i). p \<in> row_needs db i \<and> fst i = d}" using q by (simp_all add: quiet_def)
  have state: "jb_state r = state_name Succeeded \<or> jb_state r = state_name Pending"
    if "r \<in> set (db_jobs db)" "jb_dag_id r = d" for r
    using quiet_dag_row(1) [OF q that] ready_eligible [OF q that(1) _ none(2)] none(1) by auto
  have no_pending: "fst i = d \<Longrightarrow> row_status db i \<noteq> Some Pending" for i
    using wf
  proof (induction i rule: wf_induct_rule)
    case (less i)
    show ?case
    proof
      assume "row_status db i = Some Pending"
      from store_board.pending_waits_for [OF inv this] obtain p where
        p: "p \<in> row_needs db i" "row_status db p \<noteq> None" "row_status db p \<noteq> Some Succeeded" by blast
      have d: "fst p = d" using p(1) less.prems by (cases i) (auto simp: row_needs_def)
      from p(2) obtain st where st: "row_status db p = Some st" by blast
      then obtain q where "job_row_at db p = Some q" "jb_state q = state_name st" by (auto simp: row_status_iff)
      with job_row_at_mem have "q \<in> set (db_jobs db)" "job_key q = p" "jb_state q = state_name st" by blast+
      with d state [of q] st p(3) have "row_status db p = Some Pending" by (auto simp: job_key_def)
      with less.IH [of p] p(1) less.prems d show False by simp
    qed
  qed
  have "job_row_at db (job_key r) = Some r" using job_row_at_iff [OF db_inv_tables [OF inv]] r(1) by simp
  with no_pending [of "job_key r"] r(2) have "jb_state r \<noteq> state_name Pending"
    by (auto simp: row_status_iff job_key_def)
  with state [OF r] show ?thesis by blast
qed

section \<open>A round\<close>

text \<open>What is assumed of the worker's settings and of the libraries it calls.\<close>

definition worker_ok ::
  "(uuid \<Rightarrow> byte_string) \<Rightarrow> (byte_string \<Rightarrow> uuid option) \<Rightarrow> (byte_string \<Rightarrow> byte_string) \<Rightarrow> (byte_string \<Rightarrow> byte_string)
    \<Rightarrow> worker_config \<Rightarrow> bool" where
  "worker_ok show_uuid parse_uuid digest upper config \<longleftrightarrow>
     validate_owner_and_lease (wk_id config) (wk_lease_ms config) = Inr () \<and> pg_text (wk_id config) \<and>
     (\<forall>u. parse_uuid (show_uuid u) = Some u) \<and>
     (\<forall>s. length (digest s) = 64 \<and> pg_text (digest s)) \<and> (\<forall>s. pg_text s \<longrightarrow> pg_text (upper s))"

text \<open>What a round does to the rows of a quiet store: the claimed job succeeds, its children may become ready.\<close>

definition advanced :: "byte_string \<Rightarrow> byte_string \<Rightarrow> byte_string \<Rightarrow> timestamp \<Rightarrow> job_row \<Rightarrow> job_row \<Rightarrow> bool" where
  "advanced d j result now r r' \<longleftrightarrow>
     (if job_key r = (d, j)
      then job_key r' = (d, j) \<and> jb_kind r' = jb_kind r \<and> jb_payload r' = jb_payload r \<and>
        jb_state r' = state_name Succeeded \<and> jb_result r' = Some result
      else r' = r \<or> jb_dag_id r = d \<and> jb_state r = state_name Pending \<and> r' = release_row now r)"

lemma settle_completes:
  assumes db: "store_reachable ck show_uuid db"
    and c: "c \<in> set (db_jobs db)" "held_row (cj_dag_id job) (cj_job_id job) owner token now c"
    and result: "snd (execute digest upper (cj_kind job) (cj_payload job)) = Inr result" "length result \<le> 4096"
      "pg_text result" "pg_text owner"
  shows "\<exists>db'. settle digest upper owner job token now db = (db', Inr Completed) \<and> store_runs ck show_uuid db db' \<and>
    db_jobs db' = completed_rows (cj_dag_id job) (cj_job_id job) result now db \<and> db_dependencies db' = db_dependencies db"
proof -
  let ?d = "cj_dag_id job" and ?j = "cj_job_id job"
  let ?db2 = "release_statement ?d ?j now (marked ?d ?j owner token result now db)"
  note inv = db_inv_reachable [OF db]
  have "job_row_at db (?d, ?j) = Some c"
    using job_row_at_iff [OF db_inv_tables [OF inv]] c held_row_leased by blast
  note ids = row_texts [OF db this]
  have "held ?d ?j owner token now db" using c by (auto simp: held_def)
  with ids result have s: "store_complete ?d ?j owner token result now db = (insert_event ?d ?j ''succeeded'' owner now ?db2, Inr ())"
    by (simp add: store_complete_eq [OF inv])
  have "store_runs ck show_uuid db (insert_event ?d ?j ''succeeded'' owner now ?db2)"
    by (rule store_runs_step [OF store_runs_refl db_complete [OF s]])
  moreover have "db_jobs (insert_event ?d ?j ''succeeded'' owner now ?db2) = completed_rows ?d ?j result now db"
    using completed_tables [OF inv c] by (simp add: insert_event_def)
  moreover have "db_dependencies (insert_event ?d ?j ''succeeded'' owner now ?db2) = db_dependencies db"
    by (simp add: insert_event_def release_statement_def marked_def)
  moreover have "settle digest upper owner job token now db = (insert_event ?d ?j ''succeeded'' owner now ?db2, Inr Completed)"
    by (simp add: settle_def s result(1))
  ultimately show ?thesis by blast
qed

lemma completed_after_lease:
  assumes "db_jobs db1 = map (\<lambda>r. if r = c then lease_row owner token l t r else r) (db_jobs db)"
    and "job_key c = (d, j)" "distinct (map job_key (db_jobs db))" "c \<in> set (db_jobs db)"
  shows "\<exists>g. completed_rows d j result now db1 = map g (db_jobs db) \<and> (\<forall>r\<in>set (db_jobs db). advanced d j result now r (g r))"
proof -
  define h where "h r = (if r = c then lease_row owner token l t r else r)" for r
  define f where "f r = (if job_key r = (d, j) then succeed_row result now r
     else if jb_dag_id r = d \<and> jb_state r = ''pending'' \<and> (d, j) \<in> row_needs db1 (job_key r) \<and>
       (\<forall>p\<in>row_needs db1 (job_key r). p = (d, j) \<or> row_status db1 p = Some Succeeded) then release_row now r
     else r)" for r
  have "completed_rows d j result now db1 = map (f \<circ> h) (db_jobs db)"
    unfolding completed_rows_def assms(1) by (simp add: f_def h_def comp_def)
  moreover have "advanced d j result now r ((f \<circ> h) r)" if r: "r \<in> set (db_jobs db)" for r
  proof (cases "r = c")
    case True
    have "job_key (lease_row owner token l t c) = (d, j)" using assms(2) by simp
    then have "f (h r) = succeed_row result now (lease_row owner token l t c)" using True by (simp add: f_def h_def)
    with True show ?thesis using assms(2) by (simp add: advanced_def) (simp add: succeed_row_s lease_row_s)
  next
    case False
    with job_key_unique [OF assms(3) r assms(4)] assms(2) have "job_key r \<noteq> (d, j)" by auto
    with False show ?thesis by (simp add: advanced_def f_def h_def state_literals)
  qed
  ultimately show ?thesis by blast
qed

lemma advanced_frame:
  assumes "advanced d j result now r r'"
  shows "job_key r' = job_key r" "jb_dag_id r' = jb_dag_id r" "jb_kind r' = jb_kind r" "jb_payload r' = jb_payload r"
proof -
  show "job_key r' = job_key r" "jb_kind r' = jb_kind r" "jb_payload r' = jb_payload r"
    using assms by (auto simp: advanced_def release_row_def job_key_def split: if_splits)
  then show "jb_dag_id r' = jb_dag_id r" by (simp add: job_key_def)
qed

lemma advanced_tables:
  assumes q: "quiet d now db" and right: "results_right digest upper d db"
    and inv': "db_inv db'" and deps: "db_dependencies db' = db_dependencies db"
    and jobs: "db_jobs db' = map g (db_jobs db)" "\<forall>r\<in>set (db_jobs db). advanced d j result now' r (g r)"
    and c: "c \<in> set (db_jobs db)" "job_key c = (d, j)" "jb_state c = state_name Ready" "row_output digest upper c = Inr result"
    and "now \<le> now'"
  shows "quiet d now' db'" "results_right digest upper d db'" "unfinished_rows db' = unfinished_rows db - {(d, j)}"
proof -
  have inv: "db_inv db" using q by (simp add: quiet_def)
  have row: "\<exists>r\<in>set (db_jobs db). advanced d j result now' r r'" if "r' \<in> set (db_jobs db')" for r'
    using that jobs by auto
  have needs: "row_needs db' i = row_needs db i" for i by (simp add: row_needs_def deps)
  show "quiet d now' db'"
    unfolding quiet_def needs
  proof (intro conjI ballI)
    show "db_inv db'" by (rule inv')
    show "wf {(p, i). p \<in> row_needs db i \<and> fst i = d}" using q by (simp add: quiet_def)
    fix r' assume "r' \<in> set (db_jobs db')"
    with row obtain r where r: "r \<in> set (db_jobs db)" and a: "advanced d j result now' r r'" by blast
    show "if jb_dag_id r' = d then jb_state r' = state_name Succeeded \<or> jb_state r' = state_name Pending \<or>
          jb_state r' = state_name Ready \<and> jb_available_at r' \<le> now' else terminal_name (jb_state r')"
      using quiet_dag_row(1,2) [OF q r] a advanced_frame(2) [OF a] assms(11)
      by (auto simp: advanced_def release_row_s job_key_def split: if_splits)
  qed
  show "results_right digest upper d db'"
    unfolding results_right_def
  proof (intro ballI impI)
    fix r' assume r': "r' \<in> set (db_jobs db')" "jb_dag_id r' = d"
    with row obtain r where r: "r \<in> set (db_jobs db)" and a: "advanced d j result now' r r'" by blast
    note frame = advanced_frame [OF a]
    have out: "row_output digest upper r' = row_output digest upper r" by (simp add: row_output_def frame(3,4))
    from right r r'(2) frame(2) obtain x where x: "row_output digest upper r = Inr x"
      "jb_state r = state_name Succeeded \<longrightarrow> jb_result r = Some x" by (auto simp: results_right_def)
    have "jb_state r' = state_name Succeeded \<longrightarrow> jb_result r' = Some x"
    proof (cases "job_key r = (d, j)")
      case True
      with db_inv_unique [OF inv r c(1)] c(2,4) x(1) have "x = result" by simp
      with True a show ?thesis by (simp add: advanced_def)
    next
      case False
      with a x(2) show ?thesis by (auto simp: advanced_def release_row_s)
    qed
    with out x(1) show "\<exists>x. row_output digest upper r' = Inr x \<and> (jb_state r' = state_name Succeeded \<longrightarrow> jb_result r' = Some x)"
      by simp
  qed
  have ended: "terminal_name (jb_state (g r)) \<longleftrightarrow> job_key r = (d, j) \<or> terminal_name (jb_state r)"
    and key: "job_key (g r) = job_key r" if "r \<in> set (db_jobs db)" for r
  proof -
    from jobs(2) that have a: "advanced d j result now' r (g r)" by blast
    show "job_key (g r) = job_key r" by (rule advanced_frame(1) [OF a])
    show "terminal_name (jb_state (g r)) \<longleftrightarrow> job_key r = (d, j) \<or> terminal_name (jb_state r)"
      using a by (auto simp: advanced_def release_row_s is_terminal_def split: if_splits)
  qed
  show "unfinished_rows db' = unfinished_rows db - {(d, j)}"
    unfolding unfinished_rows_def jobs(1) using ended key by auto
qed

lemma quiet_round:
  fixes drawn :: uuid
  assumes db: "store_reachable ck show_uuid db" and q: "quiet d now db" and right: "results_right digest upper d db"
    and ok: "worker_ok show_uuid parse_uuid digest upper config"
    and clock: "now \<le> claimed_at" "claimed_at \<le> settled_at" "settled_at < claimed_at + wk_lease_ms config * millisecond"
  defines "run \<equiv> worker_round ck show_uuid parse_uuid digest upper (\<lambda>_. False) config drawn claimed_at (\<lambda>db. db) settled_at db"
  shows "run = (db, Inr (Idle (wk_poll_ms config))) \<and> unfinished_rows db = {} \<or>
    (\<exists>db' i. run = (db', Inr Completed) \<and> i \<in> unfinished_rows db \<and> unfinished_rows db' = unfinished_rows db - {i} \<and>
       store_runs ck show_uuid db db' \<and> quiet d settled_at db' \<and> results_right digest upper d db')"
proof -
  have inv: "db_inv db" using q by (simp add: quiet_def)
  note reap = quiet_reap [OF q]
  have owner: "validate_owner_and_lease (wk_id config) (wk_lease_ms config) = Inr ()" "pg_text (wk_id config)"
    using ok by (simp_all add: worker_ok_def)
  obtain db1 answer where claim: "store_claim ck show_uuid (\<lambda>_. False) (wk_id config) (wk_lease_ms config) drawn claimed_at db = (db1, answer)"
    by fastforce
  from inv claim show ?thesis
  proof (cases rule: store_claim_cases)
    case nothing
    note none = this
    note idle = quiet_finished [OF q none(3) [unfolded reap] clock(1)]
    have "terminal_name (jb_state r)" if "r \<in> set (db_jobs db)" for r
      using idle [OF that] quiet_dag_row(2) [OF q that] by (cases "jb_dag_id r = d") (simp_all add: is_terminal_def)
    then have "unfinished_rows db = {}" by (auto simp: unfinished_rows_def)
    then show ?thesis using claim none(4,5) by (simp add: run_def worker_round_def reap)
  next
    case (granted c job)
    note c = eligible_row [OF granted(3) [unfolded reap]]
    note fields = claimed_row_fields [OF granted(5)]
    define j where "j = jb_id c"
    have d: "jb_dag_id c = d"
      using quiet_dag_row(2) [OF q c(1)] candidate_state [OF c(2)] by (cases "jb_dag_id c = d") (auto simp: is_terminal_def)
    have ready: "jb_state c = state_name Ready"
      using quiet_dag_row(1) [OF q c(1) d] candidate_state [OF c(2)] by auto
    have key: "job_key c = (d, j)" by (simp add: job_key_def d j_def)
    have job: "cj_dag_id job = d" "cj_job_id job = j" using fields d by (simp_all add: j_def)
    from claimed_job_row [OF db claim [unfolded granted(6)]] have db1: "store_reachable ck show_uuid db1"
      and token: "cj_lease_token job = show_uuid drawn" by blast+
    have jobs1: "db_jobs db1 = map (\<lambda>r. if r = c then lease_row (wk_id config) drawn (wk_lease_ms config) claimed_at r else r) (db_jobs db)"
      using map_same_key [OF inv c(1)] by (simp add: granted(7) reap)
    let ?c1 = "lease_row (wk_id config) drawn (wk_lease_ms config) claimed_at c"
    have c1: "?c1 \<in> set (db_jobs db1)" unfolding jobs1 set_map by (rule image_eqI [OF _ c(1)]) simp
    have held: "held_row (cj_dag_id job) (cj_job_id job) (wk_id config) drawn settled_at ?c1"
      using clock(3) d by (simp add: held_row_s lease_row_s job j_def)
    obtain result where result: "row_output digest upper c = Inr result"
      using right c(1) d by (auto simp: results_right_def)
    then have run_job: "snd (execute digest upper (cj_kind job) (cj_payload job)) = Inr result"
      using fields by (simp add: row_output_def)
    have "pg_text (jb_payload c)" using payload_ok_reachable [OF db] c(1) by (simp add: payload_ok_def)
    with ok fields have plain: "pg_text result" by (intro execute_text [OF run_job]) (auto simp: worker_ok_def)
    have short: "length result \<le> 4096"
      using run_job by (auto simp: execute_def policy_defs split: sum.splits prod.splits if_splits)
    from settle_completes [OF db1 c1 held run_job short plain owner(2), unfolded job] obtain db2 where
      settle: "settle digest upper (wk_id config) job drawn settled_at db1 = (db2, Inr Completed)"
      and db2: "store_runs ck show_uuid db1 db2" "db_jobs db2 = completed_rows d j result settled_at db1"
        "db_dependencies db2 = db_dependencies db1" by blast
    have keys: "distinct (map job_key (db_jobs db))" using inv by (simp add: db_inv_def tables_ok_def)
    from completed_after_lease [OF jobs1 key keys c(1)] db2(2) obtain g where
      g: "db_jobs db2 = map g (db_jobs db)" "\<forall>r\<in>set (db_jobs db). advanced d j result settled_at r (g r)" by metis
    have runs: "store_runs ck show_uuid db db2"
      by (rule store_runs_trans [OF db2(1)], rule store_runs_step [OF store_runs_refl db_claim [OF claim]])
    then have inv2: "db_inv db2" using db_inv_runs inv by blast
    have deps: "db_dependencies db2 = db_dependencies db" by (simp add: db2(3) granted(7) reap)
    have "now \<le> settled_at" using clock(1,2) by simp
    note moved = advanced_tables [OF q right inv2 deps g c(1) key ready result this]
    have "run = (db2, Inr Completed)"
      using claim granted(6) settle ok by (simp add: run_def worker_round_def token worker_ok_def)
    moreover have "(d, j) \<in> unfinished_rows db"
      using c(1) key ready by (auto simp: unfinished_rows_def is_terminal_def)
    ultimately show ?thesis using moved runs by blast
  qed (use owner in simp_all)
qed

section \<open>The loop\<close>

text \<open>Nobody else uses the store, time does not go back, and every job is settled within its lease.\<close>

fun undisturbed :: "int \<Rightarrow> timestamp \<Rightarrow> tick list \<Rightarrow> bool" where
  "undisturbed lease_ms now [] \<longleftrightarrow> True"
| "undisturbed lease_ms now (t # ts) \<longleftrightarrow>
     tk_locked t = (\<lambda>_. False) \<and> tk_meanwhile t = (\<lambda>db. db) \<and>
     now \<le> tk_claimed_at t \<and> tk_claimed_at t \<le> tk_settled_at t \<and>
     tk_settled_at t < tk_claimed_at t + lease_ms * millisecond \<and> undisturbed lease_ms (tk_settled_at t) ts"

lemma finite_unfinished_rows: "finite (unfinished_rows db)"
proof (rule finite_subset)
  show "unfinished_rows db \<subseteq> job_key ` set (db_jobs db)" by (force simp: unfinished_rows_def)
qed simp

lemma undisturbed_later: "undisturbed l now' ts \<Longrightarrow> now \<le> now' \<Longrightarrow> undisturbed l now ts"
  by (cases ts) auto

lemma worker_loop_quiet:
  assumes "store_reachable ck show_uuid db" "quiet d now db" "results_right digest upper d db"
    and ok: "worker_ok show_uuid parse_uuid digest upper config"
    and "undisturbed (wk_lease_ms config) now ts"
  shows "\<exists>db'. worker_loop ck show_uuid parse_uuid digest upper config ts db =
      (db', Inr (replicate (min (card (unfinished_rows db)) (length ts)) Completed @
                 replicate (length ts - card (unfinished_rows db)) (Idle (wk_poll_ms config)))) \<and>
    card (unfinished_rows db') = card (unfinished_rows db) - length ts \<and>
    store_runs ck show_uuid db db' \<and> (\<exists>now'. quiet d now' db') \<and> results_right digest upper d db'"
  using assms(1-3,5)
proof (induction ts arbitrary: db now)
  case (Cons t ts)
  from Cons.prems(4) have t: "tk_locked t = (\<lambda>_. False)" "tk_meanwhile t = (\<lambda>db. db)"
    and clock: "now \<le> tk_claimed_at t" "tk_claimed_at t \<le> tk_settled_at t"
      "tk_settled_at t < tk_claimed_at t + wk_lease_ms config * millisecond"
    and rest: "undisturbed (wk_lease_ms config) (tk_settled_at t) ts" by simp_all
  let ?run = "worker_round ck show_uuid parse_uuid digest upper (\<lambda>_. False) config (tk_drawn t) (tk_claimed_at t) (\<lambda>db. db) (tk_settled_at t) db"
  from quiet_round [OF Cons.prems(1-3) ok clock, of "tk_drawn t"] show ?case
  proof (elim disjE exE conjE)
    assume run: "?run = (db, Inr (Idle (wk_poll_ms config)))" and none: "unfinished_rows db = {}"
    have "undisturbed (wk_lease_ms config) now ts" by (rule undisturbed_later [OF rest]) (use clock in simp)
    from Cons.IH [OF Cons.prems(1-3) this] none run t show ?thesis by auto
  next
    fix db1 i
    assume run: "?run = (db1, Inr Completed)" and i: "i \<in> unfinished_rows db" "unfinished_rows db1 = unfinished_rows db - {i}"
      and runs: "store_runs ck show_uuid db db1" and db1: "quiet d (tk_settled_at t) db1" "results_right digest upper d db1"
    have n: "card (unfinished_rows db) = Suc (card (unfinished_rows db1))"
      unfolding i(2) using card.remove [OF finite_unfinished_rows i(1)] by simp
    have "store_reachable ck show_uuid db1"
      using store_runs_trans [OF runs] Cons.prems(1) by (simp add: store_reachable_def)
    from Cons.IH [OF this db1 rest] run t show ?thesis using store_runs_trans [OF _ runs] by (auto simp: n)
  qed
qed (auto intro: store_runs_refl)

section \<open>After a submission\<close>

lemma row_needs_submitted:
  assumes inv: "db_inv db" and new: "ds_id spec \<notin> dg_id ` set (db_dags db)"
    and p: "p \<in> row_needs (admitted_tables spec now db) i" "fst i = ds_id spec"
  shows "(snd p, snd i) \<in> edge_rel spec"
proof -
  obtain x where i: "i = (ds_id spec, x)" using p(2) by (cases i) simp
  from p(1) obtain a where a: "p = (ds_id spec, a)" and
    e: "\<lparr>dp_dag_id = ds_id spec, dp_parent_id = a, dp_child_id = x\<rparr> \<in> set (db_dependencies db) \<or>
      \<lparr>dp_dag_id = ds_id spec, dp_parent_id = a, dp_child_id = x\<rparr> \<in> edge_row (ds_id spec) ` set (ds_dependencies spec)"
    by (auto simp: row_needs_def i admitted_tables_def)
  have "\<lparr>dp_dag_id = ds_id spec, dp_parent_id = a, dp_child_id = x\<rparr> \<notin> set (db_dependencies db)"
  proof
    assume "\<lparr>dp_dag_id = ds_id spec, dp_parent_id = a, dp_child_id = x\<rparr> \<in> set (db_dependencies db)"
    then have "(ds_id spec, a) \<in> row_needs db (ds_id spec, x)" by (simp add: row_needs_def)
    with needs_row [OF db_inv_tables [OF inv]] obtain r where "job_row_at db (ds_id spec, a) = Some r" by blast
    with job_row_at_dag [OF db_inv_tables [OF inv]] new show False by blast
  qed
  with e show ?thesis by (auto simp: i a edge_row_def edge_rel_def)
qed

lemma quiet_after_submit:
  assumes db: "store_reachable ck show_uuid db" and ended: "\<forall>r\<in>set (db_jobs db). terminal_name (jb_state r)"
    and s: "store_submit spec now db = Some (db', Inr ())"
    and digest: "\<And>s. length (digest s) = 64"
    and upper: "\<And>job. job \<in> set (ds_jobs spec) \<Longrightarrow> js_kind job = Uppercase \<Longrightarrow> length (upper (js_payload job)) \<le> 4096"
  shows "quiet (ds_id spec) now db'" "results_right digest upper (ds_id spec) db'"
    "unfinished_rows db' = (\<lambda>job. (ds_id spec, js_id job)) ` set (ds_jobs spec)"
    "card (unfinished_rows db') = length (ds_jobs spec)"
proof -
  note inv = db_inv_reachable [OF db]
  obtain order where v: "validate spec = Some (Inr order)"
    using s by (auto simp: store_submit_def split: option.splits sum.splits)
  note wf = validate_Inr_well_formed [OF v]
  from s [unfolded store_submit_eq [OF inv v]] have new: "ds_id spec \<notin> dg_id ` set (db_dags db)"
    and db': "db' = admitted_tables spec now db" by (auto split: if_splits)
  let ?row = "submitted_row (ds_id spec) (dependency_counts spec) now"
  have rows: "set (db_jobs db') = set (db_jobs db) \<union> ?row ` set (ds_jobs spec)" by (simp add: db' admitted_tables_def)
  have old: "jb_dag_id r \<noteq> ds_id spec" if "r \<in> set (db_jobs db)" for r using submitted_not_old [OF db_inv_tables [OF inv] new that] .
  have "wf (edge_rel spec)" by (rule finite_acyclic_wf [OF _ validate_acyclic [OF v]]) (simp add: edge_rel_def)
  then have "wf {(p, i). p \<in> row_needs db' i \<and> fst i = ds_id spec}"
    by (rule wf_subset [OF wf_inv_image [where f = snd]]) (auto simp: in_inv_image db' dest: row_needs_submitted [OF inv new])
  moreover have "db_inv db'" by (rule db_inv_submit [OF inv s])
  moreover have "jb_dag_id (?row job) = ds_id spec"
    "jb_state (?row job) = state_name Pending \<or> jb_state (?row job) = state_name Ready \<and> jb_available_at (?row job) \<le> now" for job
    by (simp_all add: submitted_row_s)
  ultimately show "quiet (ds_id spec) now db'"
    unfolding quiet_def rows using ended old by auto
  show "results_right digest upper (ds_id spec) db'"
    unfolding results_right_def rows
  proof (intro ballI impI)
    fix r assume "r \<in> set (db_jobs db) \<union> ?row ` set (ds_jobs spec)" "jb_dag_id r = ds_id spec"
    with old obtain job where job: "job \<in> set (ds_jobs spec)" and r: "r = ?row job" by blast
    have valid: "validate_payload (js_kind job) (js_payload job) = Inr ()"
      using wf job by (auto simp: dag_well_formed_def list_all_iff job_well_formed_def)
    from execute_valid [where digest = digest and upper = upper, OF valid digest] upper [OF job] obtain result where
      "snd (execute digest upper (js_kind job) (js_payload job)) = Inr result"
      by (cases "snd (execute digest upper (js_kind job) (js_payload job))") auto
    then show "\<exists>x. row_output digest upper r = Inr x \<and> (jb_state r = state_name Succeeded \<longrightarrow> jb_result r = Some x)"
      by (simp add: r row_output_def submitted_row_s)
  qed
  show unf: "unfinished_rows db' = (\<lambda>job. (ds_id spec, js_id job)) ` set (ds_jobs spec)"
  proof -
    have "job_key (?row job) = (ds_id spec, js_id job)" "\<not> terminal_name (jb_state (?row job))" for job
      by (simp_all add: submitted_key) (simp add: submitted_row_s is_terminal_def)
    then show ?thesis unfolding unfinished_rows_def rows using ended by force
  qed
  have "distinct (map js_id (ds_jobs spec))" using wf by (simp add: dag_well_formed_def)
  then have "distinct (map (\<lambda>job. (ds_id spec, js_id job)) (ds_jobs spec))" by (simp add: distinct_map inj_on_def)
  then show "card (unfinished_rows db') = length (ds_jobs spec)"
    unfolding unf using distinct_card by fastforce
qed

text \<open>When no row is unfinished, every job of the submitted graph has the result of its operation.\<close>

lemma finished_job:
  assumes db: "store_reachable ck show_uuid db" and s: "store_submit spec now db = Some (db0, Inr ())"
    and run: "store_runs ck show_uuid db0 db'" and q: "quiet (ds_id spec) now' db'"
    and right: "results_right digest upper (ds_id spec) db'"
    and none: "unfinished_rows db' = {}" and job: "job \<in> set (ds_jobs spec)"
  shows "\<exists>r result. job_row_at db' (ds_id spec, js_id job) = Some r \<and> jb_state r = state_name Succeeded \<and>
    jb_result r = Some result \<and> snd (execute digest upper (js_kind job) (js_payload job)) = Inr result"
proof -
  note inv = db_inv_reachable [OF db]
  obtain order where v: "validate spec = Some (Inr order)"
    using s by (auto simp: store_submit_def split: option.splits sum.splits)
  from s [unfolded store_submit_eq [OF inv v]] have db0: "db0 = admitted_tables spec now db" by (auto split: if_splits)
  let ?row = "submitted_row (ds_id spec) (dependency_counts spec) now job"
  note inv0 = db_inv_submit [OF inv s]
  have "?row \<in> set (db_jobs db0)" using job by (simp add: db0 admitted_tables_def)
  then have "job_row_at db0 (ds_id spec, js_id job) = Some ?row"
    using job_row_at_iff [OF db_inv_tables [OF inv0]] by (simp add: submitted_key)
  from store_runs_row [OF run db_inv_tables [OF inv0] this] obtain r where
    r: "job_row_at db' (ds_id spec, js_id job) = Some r" and steps: "row_steps UNIV ?row r" by blast
  from job_row_at_mem [OF r] have mem: "r \<in> set (db_jobs db')" "jb_dag_id r = ds_id spec" by (simp_all add: job_key_def)
  with none have "terminal_name (jb_state r)" by (cases "job_key r") (auto simp: unfinished_rows_def)
  with quiet_dag_row(1) [OF q mem] have succ: "jb_state r = state_name Succeeded" by (auto simp: is_terminal_def)
  have "jb_kind r = kind_name (js_kind job)" "jb_payload r = js_payload job"
    using row_steps_frame [OF steps] by (simp_all add: submitted_row_s)
  with right mem succ r show ?thesis by (auto simp: results_right_def row_output_def)
qed

end
