(* ===== verification/ServiceProperties.thy ===== *)
theory ServiceProperties
  imports Commands Http WorkerProgress StoreExamples
begin

text \<open>Properties of the processes over the store: the worker's loop and the HTTP API.\<close>

section \<open>The worker\<close>

text \<open>A digest of the right shape and an upper case that keeps the text, for the concrete runs.\<close>

definition demo_digest :: "byte_string \<Rightarrow> byte_string" where
  "demo_digest s = replicate 64 (CHR ''0'')"

definition demo_upper :: "byte_string \<Rightarrow> byte_string" where
  "demo_upper s = s"

definition demo_config :: worker_config where
  "demo_config = \<lparr>wk_database_url = ''postgres'', wk_id = worker, wk_lease_ms = 5000, wk_poll_ms = 500\<rparr>"

lemma demo_operations:
  "length (demo_digest s) = 64 \<and> pg_text (demo_digest s)" "pg_text s \<Longrightarrow> pg_text (demo_upper s)"
  by (simp_all add: demo_digest_def demo_upper_def pg_text_def)

lemma execute_demo:
  "snd (execute demo_digest demo_upper Uppercase ''release candidate'') = Inr ''release candidate''"
  by code_simp

text \<open>
  Every job the store hands out can be executed: its payload passes the checks again, a
  delay sleeps at most five seconds (well below the default lease of fifteen), the result fits
  the limit of the store, and the only failure is an upper case that grows beyond 4096 bytes. The
  digest is 64 hexadecimal digits.
\<close>

theorem claimed_jobs_execute:
  assumes "store_reachable ck show_uuid db"
    and "store_claim ck show_uuid locked owner l token now db = (db', Inr (Some job))"
    and "\<And>s. length (digest s) = 64"
  shows "validate_payload (cj_kind job) (cj_payload job) = Inr () \<and>
    fst (execute digest upper (cj_kind job) (cj_payload job)) \<le> 5000 \<and>
    (case snd (execute digest upper (cj_kind job) (cj_payload job)) of
       Inr result \<Rightarrow> length result \<le> MAX_PAYLOAD_BYTES
     | Inl e \<Rightarrow> e = ResultTooLarge \<and> cj_kind job = Uppercase \<and> MAX_PAYLOAD_BYTES < length (upper (cj_payload job)))"
proof -
  from claimed_job_row [OF assms(1,2)] obtain r where db': "store_reachable ck show_uuid db'"
    and r: "job_row_at db' (cj_dag_id job, cj_job_id job) = Some r" "jb_kind r = kind_name (cj_kind job)"
      "jb_payload r = cj_payload job" by blast
  have "payload_ok r" using payload_ok_reachable [OF db'] job_row_at_mem [OF r(1)] by blast
  then obtain k where "kind_name (cj_kind job) = kind_name k" "validate_payload k (cj_payload job) = Inr ()"
    using r(2,3) by (auto simp: payload_ok_def)
  then have "validate_payload (cj_kind job) (cj_payload job) = Inr ()"
    by (metis parse_kind_name sum.inject(2))
  with execute_valid [where digest = digest and upper = upper, OF this assms(3)] show ?thesis
    unfolding MAX_PAYLOAD_BYTES_def by blast
qed

theorem claimed_jobs_execute_witness:
  "validate_payload Uppercase ''release candidate'' = Inr () \<and>
   fst (execute demo_digest demo_upper Uppercase ''release candidate'') \<le> 5000"
  using claimed_jobs_execute [OF reachable_pg(2) claim_pg, of demo_digest demo_upper] demo_operations by simp

text \<open>
  C21. A round of the worker settles the job it claimed. If nobody touched the job while its
  operation ran and the lease has not run out, the round ends without an error: the job has
  succeeded with the result of the operation, or, when the operation failed, it waits for a retry
  or is dead-lettered by its attempt count. The worker's own name is valid, printed UUIDs parse
  back, and digest and upper case do not introduce zero bytes.
\<close>

theorem worker_round_settles_job:
  assumes "store_reachable ck show_uuid db"
    and "store_claim ck show_uuid locked (wk_id config) (wk_lease_ms config) drawn claimed_at db = (db1, Inr (Some job))"
    and "store_runs ck show_uuid db1 (meanwhile db1)"
    and "job_row_at (meanwhile db1) (cj_dag_id job, cj_job_id job) = job_row_at db1 (cj_dag_id job, cj_job_id job)"
    and "settled_at < claimed_at + wk_lease_ms config * millisecond"
    and "parse_uuid (show_uuid drawn) = Some drawn" "pg_text (wk_id config)"
    and "\<And>s. length (digest s) = 64 \<and> pg_text (digest s)" "\<And>s. pg_text s \<Longrightarrow> pg_text (upper s)"
  shows "\<exists>db2 r. job_row_at db2 (cj_dag_id job, cj_job_id job) = Some r \<and> store_reachable ck show_uuid db2 \<and>
    (case snd (execute digest upper (cj_kind job) (cj_payload job)) of
       Inr result \<Rightarrow>
         worker_round ck show_uuid parse_uuid digest upper locked config drawn claimed_at meanwhile settled_at db
           = (db2, Inr Completed) \<and>
         jb_state r = state_name Succeeded \<and> jb_result r = Some result
     | Inl e \<Rightarrow>
         worker_round ck show_uuid parse_uuid digest upper locked config drawn claimed_at meanwhile settled_at db
           = (db2, Inr (FailedJob (if jb_max_attempts r \<le> int (cj_attempt job) then DeadLettered else RetryWait))) \<and>
         jb_state r = state_name (if jb_max_attempts r \<le> int (cj_attempt job) then DeadLettered else RetryWait))"
proof -
  let ?i = "(cj_dag_id job, cj_job_id job)" and ?db = "meanwhile db1"
  from claimed_job_row [OF assms(1,2)] obtain r where db1: "store_reachable ck show_uuid db1"
    and r: "job_row_at db1 ?i = Some r" "jb_state r = state_name Leased" "jb_lease_owner r = Some (wk_id config)"
      "jb_lease_token r = Some drawn" "jb_lease_expires_at r = Some (claimed_at + wk_lease_ms config * millisecond)"
      "jb_payload r = cj_payload job" "jb_attempts r = int (cj_attempt job)"
    and token: "cj_lease_token job = show_uuid drawn" by blast
  have db: "store_reachable ck show_uuid ?db"
    using store_runs_trans [OF assms(3)] db1 by (simp add: store_reachable_def)
  have at: "job_row_at ?db ?i = Some r" using assms(4) r(1) by simp
  have held: "held_row (cj_dag_id job) (cj_job_id job) (wk_id config) drawn settled_at r"
    using job_row_at_mem [OF r(1)] r(2-5) assms(5) by (simp add: held_row_s job_key_def)
  have v: "length result \<le> 4096" if "snd (execute digest upper (cj_kind job) (cj_payload job)) = Inr result" for result
    using that by (auto simp: execute_def policy_defs split: sum.splits prod.splits if_splits)
  from settled_row [OF db at held r(6,7) assms(7), of digest upper] assms(8,9) v obtain db2 r' where
    settled: "job_row_at db2 ?i = Some r'" "store_reachable ck show_uuid db2"
      "case snd (execute digest upper (cj_kind job) (cj_payload job)) of
         Inr result \<Rightarrow> settle digest upper (wk_id config) job drawn settled_at ?db = (db2, Inr Completed) \<and> r' = succeed_row result settled_at r
       | Inl e \<Rightarrow> settle digest upper (wk_id config) job drawn settled_at ?db =
           (db2, Inr (FailedJob (if jb_max_attempts r \<le> int (cj_attempt job) then DeadLettered else RetryWait))) \<and>
           r' = requeue_row settled_at r" by blast
  have round: "worker_round ck show_uuid parse_uuid digest upper locked config drawn claimed_at meanwhile settled_at db =
      settle digest upper (wk_id config) job drawn settled_at ?db"
    by (simp add: worker_round_def assms(2,6) token)
  show ?thesis
  proof (cases "snd (execute digest upper (cj_kind job) (cj_payload job))")
    case (Inr result)
    with settled round show ?thesis
      by (intro exI [of _ db2] exI [of _ r']) (simp add: succeed_row_s)
  next
    case (Inl e)
    with settled round r(7) show ?thesis
      by (intro exI [of _ db2] exI [of _ r']) (simp add: requeue_row_s)
  qed
qed

theorem worker_round_settles_job_witness:
  "\<exists>db2 r. worker_round bytes demo_uuid (\<lambda>_. Some 1) demo_digest demo_upper unlocked demo_config 1 2000000 id 3000000 pg_submitted
      = (db2, Inr Completed) \<and> job_row_at db2 (''release_demo'', ''prepare'') = Some r \<and>
     jb_state r = state_name Succeeded \<and> jb_result r = Some ''release candidate''"
proof -
  have config: "wk_id demo_config = worker" "wk_lease_ms demo_config = 5000" by (simp_all add: demo_config_def)
  have claim: "store_claim bytes demo_uuid unlocked (wk_id demo_config) (wk_lease_ms demo_config) 1 2000000 pg_submitted =
     (pg_claimed, Inr (Some \<lparr>cj_dag_id = ''release_demo'', cj_job_id = ''prepare'', cj_kind = Uppercase,
       cj_payload = ''release candidate'', cj_attempt = 1, cj_lease_token = ''uuid'', cj_lease_expires_at_ms = 7000\<rparr>))"
    unfolding config by (rule claim_pg)
  have "pg_text worker" by (simp add: pg_text_def)
  with worker_round_settles_job [OF reachable_pg(2) claim, of id 3000000 "\<lambda>_. Some 1" demo_digest demo_upper]
    store_runs_refl demo_operations execute_demo config
  have "\<exists>db2 r. job_row_at db2 (''release_demo'', ''prepare'') = Some r \<and> store_reachable bytes demo_uuid db2 \<and>
      worker_round bytes demo_uuid (\<lambda>_. Some 1) demo_digest demo_upper unlocked demo_config 1 2000000 id 3000000 pg_submitted
        = (db2, Inr Completed) \<and> jb_state r = state_name Succeeded \<and> jb_result r = Some ''release candidate''"
    by (simp add: millisecond_def)
  then show ?thesis by metis
qed

text \<open>
  C13. One worker finishes every accepted graph. Submit a graph to a store whose other jobs are
  finished and leave one worker alone with it, no other client and no lock in its way, the clock
  not going back, each job settled within its lease, for at least as many rounds as the graph has
  jobs: the first rounds each complete one job, as many as the graph has, the later ones find nothing, no round ends the
  process, and every job of the graph has succeeded with the result of its own operation. Digest
  and upper case do not introduce zero bytes, printed UUIDs parse back, and no upper case of a
  payload of the graph grows beyond the limit.
\<close>

theorem worker_finishes_graph:
  assumes "store_reachable ck show_uuid db"
    and "\<forall>r\<in>set (db_jobs db). jb_state r \<in> {''succeeded'', ''dead_lettered'', ''cancelled''}"
    and "store_submit spec now db = Some (db0, Inr ())"
    and "worker_ok show_uuid parse_uuid digest upper config"
    and "\<forall>job\<in>set (ds_jobs spec). js_kind job = Uppercase \<longrightarrow> length (upper (js_payload job)) \<le> 4096"
    and "undisturbed (wk_lease_ms config) now ticks" "length (ds_jobs spec) \<le> length ticks"
  shows "\<exists>db'. worker_loop ck show_uuid parse_uuid digest upper config ticks db0 =
      (db', Inr (replicate (length (ds_jobs spec)) Completed @
                 replicate (length ticks - length (ds_jobs spec)) (Idle (wk_poll_ms config)))) \<and>
    (\<forall>job\<in>set (ds_jobs spec). \<exists>r result.
       job_row_at db' (ds_id spec, js_id job) = Some r \<and> jb_state r = ''succeeded'' \<and> jb_result r = Some result \<and>
       snd (execute digest upper (js_kind job) (js_payload job)) = Inr result)"
proof -
  have ended: "\<forall>r\<in>set (db_jobs db). terminal_name (jb_state r)"
    using assms(2) by (auto simp: terminal_name_def state_literals)
  have digest: "\<And>s. length (digest s) = 64" using assms(4) by (simp add: worker_ok_def)
  note quiet = quiet_after_submit [OF assms(1) ended assms(3) digest, where upper = upper]
  have db0: "store_reachable ck show_uuid db0"
    using store_runs_step [OF assms(1) [unfolded store_reachable_def] db_submit [OF assms(3)]]
    by (simp add: store_reachable_def)
  have n: "card (unfinished_rows db0) = length (ds_jobs spec)" using quiet(4) assms(5) by blast
  from worker_loop_quiet [OF db0 quiet(1,2) assms(4,6)] assms(5) obtain db' now' where
    run: "worker_loop ck show_uuid parse_uuid digest upper config ticks db0 =
      (db', Inr (replicate (length (ds_jobs spec)) Completed @
                 replicate (length ticks - length (ds_jobs spec)) (Idle (wk_poll_ms config))))"
    and left: "card (unfinished_rows db') = 0" and runs: "store_runs ck show_uuid db0 db'"
    and q: "quiet (ds_id spec) now' db'" "results_right digest upper (ds_id spec) db'"
    using assms(7) by (auto simp: n min_absorb1)
  have "unfinished_rows db' = {}" using left finite_unfinished_rows by simp
  from finished_job [OF assms(1,3) runs q this] run show ?thesis by (auto simp: state_literals)
qed

text \<open>A printer of UUIDs that can be parsed back: the bits, lowest first.\<close>

definition bit_uuid :: "uuid \<Rightarrow> byte_string" where
  "bit_uuid u = map (\<lambda>i. if bit u i then CHR ''1'' else CHR ''0'') [0..<128]"

definition parse_bit_uuid :: "byte_string \<Rightarrow> uuid option" where
  "parse_bit_uuid s = Some (horner_sum of_bool 2 (map (\<lambda>c. c = CHR ''1'') s))"

lemma parse_bit_uuid: "parse_bit_uuid (bit_uuid u) = Some u"
proof -
  have "map (\<lambda>c. c = CHR ''1'') (bit_uuid u) = map (bit u) [0..<128]" by (simp add: bit_uuid_def comp_def)
  then have "parse_bit_uuid (bit_uuid u) = Some (take_bit 128 u)"
    by (simp add: parse_bit_uuid_def horner_sum_bit_eq_take_bit del: upt_rec_numeral)
  also have "take_bit 128 u = u" using take_bit_length_eq [of u] by simp
  finally show ?thesis .
qed

definition demo_ticks :: "tick list" where
  "demo_ticks = map (\<lambda>n. \<lparr>tk_locked = \<lambda>_. False, tk_drawn = of_nat n, tk_claimed_at = 2000000 + 1000000 * int n,
     tk_meanwhile = \<lambda>db. db, tk_settled_at = 2500000 + 1000000 * int n\<rparr>) [0, 1, 2, 3]"

theorem worker_finishes_graph_witness:
  "\<exists>db'. worker_loop bytes bit_uuid parse_bit_uuid demo_digest demo_upper demo_config demo_ticks pg_submitted =
      (db', Inr [Completed, Completed, Completed, Idle 500]) \<and>
    (\<exists>r. job_row_at db' (''release_demo'', ''cooldown'') = Some r \<and> jb_state r = ''succeeded'')"
proof -
  have "store_reachable bytes bit_uuid empty_database" by (simp add: store_reachable_def store_runs_refl)
  moreover have "\<forall>r\<in>set (db_jobs empty_database). jb_state r \<in> {''succeeded'', ''dead_lettered'', ''cancelled''}"
    by (simp add: empty_database_def)
  moreover have "worker_ok bit_uuid parse_bit_uuid demo_digest demo_upper demo_config"
    using demo_operations by (simp add: worker_ok_def parse_bit_uuid demo_config_def validate_owner_and_lease_def pg_text_def)
  moreover have "\<forall>job\<in>set (ds_jobs release_demo). js_kind job = Uppercase \<longrightarrow> length (demo_upper (js_payload job)) \<le> 4096"
    by (simp add: example_defs demo_upper_def)
  moreover have "undisturbed (wk_lease_ms demo_config) 1000000 demo_ticks"
    by (simp add: demo_ticks_def demo_config_def millisecond_def)
  moreover have jobs: "length (ds_jobs release_demo) = 3" "length demo_ticks = 4" "ds_id release_demo = ''release_demo''"
    "wk_poll_ms demo_config = 500" "ds_jobs release_demo ! 2 \<in> set (ds_jobs release_demo)" "js_id (ds_jobs release_demo ! 2) = ''cooldown''"
    by (simp_all add: example_defs demo_ticks_def demo_config_def)
  ultimately obtain db' where run: "worker_loop bytes bit_uuid parse_bit_uuid demo_digest demo_upper demo_config demo_ticks pg_submitted =
      (db', Inr (replicate 3 Completed @ replicate (4 - 3) (Idle 500)))"
    and rows: "\<forall>job\<in>set (ds_jobs release_demo). \<exists>r result.
       job_row_at db' (ds_id release_demo, js_id job) = Some r \<and> jb_state r = ''succeeded'' \<and> jb_result r = Some result \<and>
       snd (execute demo_digest demo_upper (js_kind job) (js_payload job)) = Inr result"
    using worker_finishes_graph [OF _ _ submit_pg, of bytes bit_uuid parse_bit_uuid demo_digest demo_upper demo_config demo_ticks]
    by auto
  from rows [rule_format, OF jobs(5)] have "\<exists>r. job_row_at db' (''release_demo'', ''cooldown'') = Some r \<and> jb_state r = ''succeeded''"
    unfolding jobs(3,6) by blast
  moreover have "replicate 3 Completed @ replicate (4 - 3) (Idle 500) = [Completed, Completed, Completed, Idle 500]"
    by (simp add: numeral_3_eq_3)
  ultimately show ?thesis using run by auto
qed

section \<open>The API\<close>








lemma json_response_status [simp]: "rs_status (json_response status members) = status"
  by (simp add: json_response_def)












end
