(* ===== verification/SourceTests.thy ===== *)
theory SourceTests
  imports Worker ClaimRace
begin

text \<open>
  The tests of the source, run on the model: each test function of the \<open>tests\<close> modules of
  \<open>src/domain.rs\<close>, \<open>src/scheduler.rs\<close> and \<open>src/worker.rs\<close>, and the expiry test of
  \<open>tests/postgres_integration.rs\<close>, is a definition whose value is whether the test passes (an
  \<open>unwrap\<close> of the wrong variant fails it). The two property tests of
  \<open>tests/scheduler_properties.rs\<close> are proved for every size the limits allow, and the concurrency
  test of \<open>tests/postgres_integration.rs\<close> for every number of workers and every interleaving.
\<close>

section \<open>Domain\<close>

definition domain_test_job :: "byte_string \<Rightarrow> job_spec" where
  "domain_test_job jid =
     \<lparr>js_id = jid, js_kind = Uppercase, js_payload = ''safe'', js_max_attempts = 3, js_priority = 0\<rparr>"

definition topological_order_is_stable :: bool where
  "topological_order_is_stable \<longleftrightarrow>
     validate \<lparr>ds_id = ''release'', ds_jobs = [domain_test_job ''c'', domain_test_job ''b'', domain_test_job ''a''],
       ds_dependencies = [\<lparr>dep_from = ''a'', dep_to = ''c''\<rparr>, \<lparr>dep_from = ''b'', dep_to = ''c''\<rparr>]\<rparr>
     = Some (Inr [''a'', ''b'', ''c''])"

definition cycle_is_rejected :: bool where
  "cycle_is_rejected \<longleftrightarrow>
     validate \<lparr>ds_id = ''cycle'', ds_jobs = [domain_test_job ''a'', domain_test_job ''b''],
       ds_dependencies = [\<lparr>dep_from = ''a'', dep_to = ''b''\<rparr>, \<lparr>dep_from = ''b'', dep_to = ''a''\<rparr>]\<rparr>
     = Some (Inl Cycle)"

definition excessive_dependency_count_is_rejected :: bool where
  "excessive_dependency_count_is_rejected \<longleftrightarrow>
     validate \<lparr>ds_id = ''bounded'', ds_jobs = [domain_test_job ''a'', domain_test_job ''b''],
       ds_dependencies = replicate (MAX_DEPENDENCIES_PER_DAG + 1) \<lparr>dep_from = ''a'', dep_to = ''b''\<rparr>\<rparr>
     = Some (Inl InvalidDependencyCount)"

lemma domain_tests_pass:
  "topological_order_is_stable" "cycle_is_rejected" "excessive_dependency_count_is_rejected"
proof -
  show "topological_order_is_stable" "cycle_is_rejected" by code_simp+
  have "validate_identifier ''bounded'' MAX_DAG_ID_BYTES = Inr ()" by code_simp
  then show "excessive_dependency_count_is_rejected"
    by (simp add: excessive_dependency_count_is_rejected_def validate_def MAX_DEPENDENCIES_PER_DAG_def MAX_JOBS_PER_DAG_def)
qed

section \<open>Scheduler\<close>

definition scheduler_test_job :: "byte_string \<Rightarrow> int \<Rightarrow> nat \<Rightarrow> job_spec" where
  "scheduler_test_job jid priority attempts =
     \<lparr>js_id = jid, js_kind = Uppercase, js_payload = jid, js_max_attempts = attempts, js_priority = priority\<rparr>"

definition chain :: dag_spec where
  "chain = \<lparr>ds_id = ''chain'', ds_jobs = [scheduler_test_job ''extract'' 1 3, scheduler_test_job ''publish'' 0 3],
     ds_dependencies = [\<lparr>dep_from = ''extract'', dep_to = ''publish''\<rparr>]\<rparr>"

definition dependent_is_released_only_after_success :: bool where
  "dependent_is_released_only_after_success \<longleftrightarrow>
     (case submit chain 0 (new_scheduler default_config) of
        Some (s0, Inr _) \<Rightarrow>
          (case claim ''worker-a'' 1 100 s0 of
             (s1, Inr (Some first)) \<Rightarrow>
               cj_job_id first = ''extract'' \<and>
               (case claim ''worker-b'' 2 100 s1 of
                  (s2, Inr None) \<Rightarrow>
                    (case complete (cj_dag_id first) (cj_job_id first) ''worker-a'' (cj_lease_token first) ''ok'' 3 s2 of
                       (s3, Inr _) \<Rightarrow>
                         (case claim ''worker-b'' 4 100 s3 of
                            (s4, Inr (Some second)) \<Rightarrow> cj_job_id second = ''publish''
                          | _ \<Rightarrow> False)
                     | _ \<Rightarrow> False)
                | _ \<Rightarrow> False)
           | _ \<Rightarrow> False)
      | _ \<Rightarrow> False)"

definition expired_lease_retries_and_rejects_late_completion :: bool where
  "expired_lease_retries_and_rejects_late_completion \<longleftrightarrow>
     (case submit chain 0 (new_scheduler (default_config\<lparr>base_retry_ms := 10, max_retry_ms := 10\<rparr>)) of
        Some (s0, Inr _) \<Rightarrow>
          (case claim ''dead-worker'' 0 5 s0 of
             (s1, Inr (Some granted)) \<Rightarrow>
               (case reap 5 s1 of
                  (s2, reclaimed) \<Rightarrow>
                    reclaimed = 1 \<and>
                    (case complete ''chain'' ''extract'' ''dead-worker'' (cj_lease_token granted) ''late'' 5 s2 of
                       (s3, late) \<Rightarrow>
                         late = Inl LeaseConflict \<and>
                         (case snapshot s3 ''chain'' of
                            Inr snap \<Rightarrow> dsn_jobs snap \<noteq> [] \<and> sn_state (dsn_jobs snap ! 0) = RetryWait
                          | Inl _ \<Rightarrow> False)))
           | _ \<Rightarrow> False)
      | _ \<Rightarrow> False)"

definition dead_letters_after_attempt_budget :: bool where
  "dead_letters_after_attempt_budget \<longleftrightarrow>
     (case submit \<lparr>ds_id = ''dlq'', ds_jobs = [scheduler_test_job ''fragile'' 0 1], ds_dependencies = []\<rparr> 0
            (new_scheduler (default_config\<lparr>base_retry_ms := 1, max_retry_ms := 1\<rparr>)) of
        Some (s0, Inr _) \<Rightarrow>
          (case claim ''worker'' 0 5 s0 of
             (s1, Inr (Some granted)) \<Rightarrow>
               snd (fail ''dlq'' ''fragile'' ''worker'' (cj_lease_token granted) 1 s1) = Inr DeadLettered
           | _ \<Rightarrow> False)
      | _ \<Rightarrow> False)"

definition cancellation_invalidates_a_live_lease :: bool where
  "cancellation_invalidates_a_live_lease \<longleftrightarrow>
     (case submit chain 0 (new_scheduler default_config) of
        Some (s0, Inr _) \<Rightarrow>
          (case claim ''worker'' 0 100 s0 of
             (s1, Inr (Some granted)) \<Rightarrow>
               (case cancel ''chain'' s1 of
                  (s2, cancelled) \<Rightarrow>
                    cancelled = Inr 2 \<and>
                    snd (heartbeat ''chain'' ''extract'' ''worker'' (cj_lease_token granted) 1 100 s2) = Inl LeaseConflict)
           | _ \<Rightarrow> False)
      | _ \<Rightarrow> False)"

definition higher_priority_job_is_claimed_first :: bool where
  "higher_priority_job_is_claimed_first \<longleftrightarrow>
     (case submit \<lparr>ds_id = ''priorities'', ds_jobs = [scheduler_test_job ''low'' (- 5) 1, scheduler_test_job ''high'' 10 1],
            ds_dependencies = []\<rparr> 0 (new_scheduler default_config) of
        Some (s0, Inr _) \<Rightarrow>
          (case claim ''worker'' 0 100 s0 of
             (s1, Inr (Some granted)) \<Rightarrow> cj_job_id granted = ''high''
           | _ \<Rightarrow> False)
      | _ \<Rightarrow> False)"

lemma scheduler_tests_pass:
  "dependent_is_released_only_after_success" "expired_lease_retries_and_rejects_late_completion"
  "dead_letters_after_attempt_budget" "cancellation_invalidates_a_live_lease" "higher_priority_job_is_claimed_first"
  by code_simp+

section \<open>Worker\<close>

text \<open>The upper case of ASCII text.\<close>

definition ascii_upper :: "byte_string \<Rightarrow> byte_string" where
  "ascii_upper = map (\<lambda>c. if CHR ''a'' \<le> c \<and> c \<le> CHR ''z'' then char_of (of_char c - 32 :: nat) else c)"

definition executes_allowlisted_operations :: "(byte_string \<Rightarrow> byte_string) \<Rightarrow> (byte_string \<Rightarrow> byte_string) \<Rightarrow> bool" where
  "executes_allowlisted_operations digest upper \<longleftrightarrow>
     snd (execute digest upper Uppercase ''safe job'') = Inr ''SAFE JOB'' \<and>
     snd (execute digest upper Delay ''0'') = Inr ''slept:0ms'' \<and>
     (case snd (execute digest upper Checksum ''abc'') of Inr result \<Rightarrow> length result = 64 | Inl _ \<Rightarrow> False)"

lemma worker_test_passes:
  assumes "\<And>s. length (digest s) = 64"
  shows "executes_allowlisted_operations digest ascii_upper"
proof -
  have "snd (execute digest ascii_upper Uppercase ''safe job'') = Inr ''SAFE JOB''" by code_simp
  moreover have "snd (execute digest ascii_upper Delay ''0'') = Inr ''slept:0ms''" by code_simp
  ultimately show ?thesis
    using assms by (simp add: executes_allowlisted_operations_def execute_def validate_payload_def policy_defs)
qed

section \<open>Store\<close>

definition dag_with_jobs :: "byte_string \<Rightarrow> nat \<Rightarrow> nat \<Rightarrow> dag_spec" where
  "dag_with_jobs dag_id n attempts =
     \<lparr>ds_id = dag_id, ds_jobs = map (\<lambda>index. \<lparr>js_id = ''job_'' @ show_nat index, js_kind = Uppercase,
        js_payload = ''bounded'', js_max_attempts = attempts, js_priority = 0\<rparr>) [0..<n], ds_dependencies = []\<rparr>"

text \<open>The lease lasts 20 milliseconds and the reaper runs 30 milliseconds after the claim.\<close>

definition expiry_requeues_and_rejects_a_late_worker :: "timestamp \<Rightarrow> bool" where
  "expiry_requeues_and_rejects_a_late_worker now \<longleftrightarrow>
     (case store_submit (dag_with_jobs ''expiry'' 1 3) now empty_database of
        Some (db0, Inr _) \<Rightarrow>
          (case store_claim bytes demo_uuid unlocked ''worker-a'' 20 7 now db0 of
             (db1, Inr (Some granted)) \<Rightarrow>
               (case store_reap (now + 30 * millisecond) db1 of
                  (db2, reclaimed) \<Rightarrow>
                    reclaimed = 1 \<and>
                    (case store_complete ''expiry'' (cj_job_id granted) ''worker-a'' 7 ''late'' (now + 30 * millisecond) db2 of
                       (db3, late) \<Rightarrow>
                         late = Inl StoreLeaseConflict \<and>
                         (case store_snapshot bytes ''expiry'' db3 of
                            Inr snap \<Rightarrow> dsn_jobs snap \<noteq> [] \<and> sn_state (dsn_jobs snap ! 0) = RetryWait
                          | Inl _ \<Rightarrow> False)))
           | _ \<Rightarrow> False)
      | _ \<Rightarrow> False)"

lemma store_test_passes: "expiry_requeues_and_rejects_a_late_worker 1000000"
  by code_simp

section \<open>Generated chains\<close>

text \<open>The generators of \<open>tests/scheduler_properties.rs\<close>, and its two properties for every size up to the limit.\<close>

definition job_name :: "nat \<Rightarrow> byte_string" where
  "job_name index = ''job_'' @ show_nat index"

definition generated_job :: "nat \<Rightarrow> job_spec" where
  "generated_job index = \<lparr>js_id = job_name index, js_kind = Checksum, js_payload = ''payload-'' @ show_nat index,
     js_max_attempts = 3, js_priority = int (index mod 10)\<rparr>"

definition generated_jobs :: "nat \<Rightarrow> job_spec list" where
  "generated_jobs n = map generated_job [0..<n]"

definition chain_edge :: "nat \<Rightarrow> dependency" where
  "chain_edge index = \<lparr>dep_from = job_name (index - 1), dep_to = job_name index\<rparr>"

definition generated_chain :: "nat \<Rightarrow> dag_spec" where
  "generated_chain n = \<lparr>ds_id = ''property_chain'', ds_jobs = generated_jobs n,
     ds_dependencies = map chain_edge [1..<n]\<rparr>"

definition generated_cycle :: "nat \<Rightarrow> dag_spec" where
  "generated_cycle n = \<lparr>ds_id = ''property_cycle'', ds_jobs = generated_jobs n,
     ds_dependencies = map chain_edge [1..<n]
       @ [\<lparr>dep_from = job_name (n - 1), dep_to = ''job_0''\<rparr>]\<rparr>"

lemma job_name_inj: "job_name a = job_name b \<longleftrightarrow> a = b"
  by (auto simp: job_name_def dest: show_nat_inj)

lemma identifier_digits: "list_all identifier_byte (show_nat n)"
proof -
  have "identifier_byte (digit_char d)" if "d < 10" for d
  proof -
    have "d \<in> {0, 1, 2, 3, 4, 5, 6, 7, 8, 9}" using that by auto
    moreover have "list_all (\<lambda>d. identifier_byte (digit_char d)) [0, 1, 2, 3, 4, 5, 6, 7, 8, 9]" by code_simp
    ultimately show ?thesis by auto
  qed
  then show ?thesis using set_show_nat [of n] by (auto simp: list_all_iff)
qed

lemma generated_job_well_formed:
  assumes "n \<le> 1000" "job \<in> set (generated_jobs n)"
  shows "job_well_formed job"
proof -
  from assms(2) obtain i where "i < n" and job: "job = generated_job i" by (auto simp: generated_jobs_def)
  then have i: "i < 1000" using assms(1) by simp
  have len: "length (show_nat i) \<le> 3" by (rule length_show_nat) (use i in simp_all)
  have "list_all identifier_byte ''job_''" by code_simp
  with len identifier_digits have "validate_identifier (job_name i) MAX_JOB_ID_BYTES = Inr ()"
    by (simp add: validate_identifier_def job_name_def policy_defs)
  moreover have "validate_payload Checksum (''payload-'' @ show_nat i) = Inr ()"
    using len by (simp add: validate_payload_def policy_defs)
  moreover have "int (i mod 10) \<le> 100" by (simp add: of_nat_mod)
  ultimately show ?thesis by (simp add: job_well_formed_def job generated_job_def)
qed

lemma generated_ids: "map js_id (generated_jobs n) = map job_name [0..<n]"
  by (simp add: generated_jobs_def generated_job_def comp_def)

lemma chain_edge_ends [simp]: "dep_from (chain_edge i) = job_name (i - 1)" "dep_to (chain_edge i) = job_name i"
  by (simp_all add: chain_edge_def)

lemma chain_edges: "edge_rel (generated_chain n) = {(job_name (i - 1), job_name i) | i. 1 \<le> i \<and> i < n}"
  by (force simp: edge_rel_def generated_chain_def)

lemma every_generated_chain_has_a_complete_topological_order:
  assumes "1 \<le> n" "n \<le> 1000"
  shows "\<exists>order. validate (generated_chain n) = Some (Inr order) \<and> length order = n \<and>
    (\<forall>i. 1 \<le> i \<and> i < n \<longrightarrow> position order (job_name (i - 1)) < position order (job_name i))"
proof -
  have "validate_identifier ''property_chain'' MAX_DAG_ID_BYTES = Inr ()" by code_simp
  moreover have "list_all (edge_known (set (map js_id (generated_jobs n)))) (ds_dependencies (generated_chain n))"
    unfolding generated_ids by (auto simp: generated_chain_def list_all_iff edge_known_def)
  moreover have "distinct (map js_id (generated_jobs n))"
    unfolding generated_ids by (simp add: distinct_map inj_on_def job_name_inj)
  moreover have "list_all job_well_formed (generated_jobs n)"
    using generated_job_well_formed assms(2) by (simp add: list_all_iff)
  ultimately have "dag_well_formed (generated_chain n)"
    using assms by (simp add: dag_well_formed_def generated_chain_def policy_defs) (simp add: generated_jobs_def)
  moreover have "acyclic (edge_rel (generated_chain n))"
  proof (rule acyclicI_order [where f = "\<lambda>v. - int (inv job_name v)"])
    have "inv job_name (job_name i) = i" for i using job_name_inj by (simp add: inv_f_f inj_def)
    then show "- int (inv job_name b) < - int (inv job_name a)" if "(a, b) \<in> edge_rel (generated_chain n)" for a b
      using that by (auto simp: chain_edges)
  qed
  ultimately obtain order where v: "validate (generated_chain n) = Some (Inr order)" using validate_complete by blast
  note order = validate_order [OF v]
  have "set order = job_name ` {0..<n}"
    using order(2) generated_ids [of n] by (simp add: generated_chain_def)
  then have "length order = n"
    using distinct_card [OF order(1)] card_image [of job_name "{0..<n}"] job_name_inj by (simp add: inj_on_def)
  moreover have "position order (job_name (i - 1)) < position order (job_name i)" if "1 \<le> i" "i < n" for i
  proof -
    have "chain_edge i \<in> set (ds_dependencies (generated_chain n))"
      using that by (simp add: generated_chain_def)
    from precedes_position [OF validate_precedes [OF v this] order(1)] show ?thesis by simp
  qed
  ultimately show ?thesis using v by blast
qed

lemma generated_back_edge_is_rejected:
  assumes "2 \<le> n"
  shows "\<not> (\<exists>order. validate (generated_cycle n) = Some (Inr order))"
proof
  assume "\<exists>order. validate (generated_cycle n) = Some (Inr order)"
  then have ac: "acyclic (edge_rel (generated_cycle n))" using validate_acyclic by blast
  have step: "(job_name (i - 1), job_name i) \<in> edge_rel (generated_cycle n)" if "1 \<le> i" "i < n" for i
    using that by (force simp: edge_rel_def generated_cycle_def)
  have path: "i < n \<Longrightarrow> (job_name 0, job_name i) \<in> (edge_rel (generated_cycle n))\<^sup>*" for i
  proof (induction i)
    case (Suc i)
    from step [of "Suc i"] Suc show ?case by (auto intro: rtrancl.rtrancl_into_rtrancl)
  qed simp
  have "job_name 0 = ''job_0''" by code_simp
  then have closing: "(job_name (n - 1), job_name 0) \<in> edge_rel (generated_cycle n)"
    by (force simp: edge_rel_def generated_cycle_def)
  have "(job_name 0, job_name 0) \<in> (edge_rel (generated_cycle n))\<^sup>+"
    using path [of "n - 1"] assms by (intro rtrancl_into_trancl1 [OF _ closing]) simp
  with ac show False by (simp add: acyclic_def)
qed

section \<open>A successful chain\<close>

text \<open>The third test of \<open>tests/scheduler_properties.rs\<close>, with ten jobs where the source has fifty.\<close>

definition terminal_chain :: "nat \<Rightarrow> dag_spec" where
  "terminal_chain n = \<lparr>ds_id = ''terminal_chain'', ds_jobs = generated_jobs n, ds_dependencies = map chain_edge [1..<n]\<rparr>"

fun run_chain :: "nat list \<Rightarrow> scheduler \<Rightarrow> scheduler option" where
  "run_chain [] s = Some s"
| "run_chain (tick # ticks) s =
     (case claim ''property-worker'' (int tick) 1000 s of
        (s1, Inr (Some granted)) \<Rightarrow>
          (case complete (cj_dag_id granted) (cj_job_id granted) ''property-worker'' (cj_lease_token granted) ''ok'' (int tick) s1 of
             (s2, Inr _) \<Rightarrow> run_chain ticks s2
           | _ \<Rightarrow> None)
      | _ \<Rightarrow> None)"

definition every_job_reaches_a_terminal_state :: "nat \<Rightarrow> bool" where
  "every_job_reaches_a_terminal_state n \<longleftrightarrow>
     (case submit (terminal_chain n) 0 (new_scheduler default_config) of
        Some (s0, Inr _) \<Rightarrow>
          (case run_chain [0..<n] s0 of
             Some s \<Rightarrow>
               (case snapshot s ''terminal_chain'' of
                  Inr snap \<Rightarrow> list_all (\<lambda>job. sn_state job = Succeeded) (dsn_jobs snap)
                | Inl _ \<Rightarrow> False)
           | None \<Rightarrow> False)
      | _ \<Rightarrow> False)"

lemma chain_test_passes: "every_job_reaches_a_terminal_state 10"
  by code_simp

section \<open>Concurrent workers\<close>

text \<open>
  The concurrency test of \<open>tests/postgres_integration.rs\<close>, for any number of jobs and every
  interleaving: \<open>n\<close> workers claim from a graph of \<open>n\<close> independent jobs at once, within the five
  seconds of their leases; each of them gets a job, and no two the same.
\<close>

definition test_claim :: "uuid \<Rightarrow> timestamp \<Rightarrow> nat \<Rightarrow> claim_call" where
  "test_claim token now index = \<lparr>cl_owner = ''worker-'' @ show_nat index, cl_lease_ms = 5000, cl_token = token, cl_now = now\<rparr>"

lemma independent_jobs_claimable:
  assumes db: "store_reachable ck show_uuid db" and s: "store_submit (dag_with_jobs d n attempts) t db = Some (db0, Inr ())"
    and due: "\<And>k. k < n \<Longrightarrow> t \<le> cl_now (calls k)"
  shows "n \<le> card (claimable_rows calls n db0)"
proof -
  let ?spec = "dag_with_jobs d n attempts"
  note inv = db_inv_reachable [OF db] and inv0 = db_inv_submit [OF db_inv_reachable [OF db] s]
  obtain order where v: "validate ?spec = Some (Inr order)"
    using s by (auto simp: store_submit_def split: option.splits sum.splits)
  from s [unfolded store_submit_eq [OF inv v]] have new: "ds_id ?spec \<notin> dg_id ` set (db_dags db)"
    and db0: "db0 = admitted_tables ?spec t db" by (auto split: if_splits)
  have deg: "in_degree ?spec j = 0" for j by (simp add: in_degree_def dag_with_jobs_def)
  note free = blocked_admitted(2) [OF db_inv_tables [OF inv] new validate_Inr_well_formed [OF v], of t]
  have id: "ds_id ?spec = d" by (simp add: dag_with_jobs_def)
  have "(d, job_name i) \<in> claimable_rows calls n db0" if i: "i < n" for i
  proof -
    from i obtain job where job: "job \<in> set (ds_jobs ?spec)" "js_id job = job_name i"
      by (force simp: dag_with_jobs_def job_name_def)
    let ?row = "submitted_row d (dependency_counts ?spec) t job"
    have row: "?row \<in> set (db_jobs db0)" using job(1) by (simp add: db0 admitted_tables_def id)
    then have at: "job_row_at db0 (d, job_name i) = Some ?row"
      using job_row_at_iff [OF db_inv_tables [OF inv0]] by (simp add: submitted_key job(2))
    have dag: "\<exists>g\<in>set (db_dags db0). dg_id g = d \<and> dg_state g = ''running''" by (simp add: db0 admitted_tables_def id)
    have ready: "jb_state ?row = state_name Ready"
      by (simp add: dependency_counts_get submitted_row_s deg)
    have open_: "\<not> open_parent db0 ?row"
      unfolding open_parent_blocked using free by (simp add: db0 deg id submitted_row_s)
    have "candidate_row (cl_now (calls k)) db0 ?row" if "k < n" for k
      using dag ready open_ due [OF that] by (simp add: candidate_row_s) (simp add: submitted_row_s)
    with at show ?thesis unfolding claimable_rows_def by blast
  qed
  then have sub: "(\<lambda>i. (d, job_name i)) ` {..<n} \<subseteq> claimable_rows calls n db0" by blast
  have "claimable_rows calls n db0 \<subseteq> job_key ` set (db_jobs db0)"
  proof
    fix i assume "i \<in> claimable_rows calls n db0"
    then obtain r where "job_row_at db0 i = Some r" unfolding claimable_rows_def by blast
    from job_row_at_mem [OF this] show "i \<in> job_key ` set (db_jobs db0)" by (intro image_eqI [of _ _ r]) simp_all
  qed
  then have "finite (claimable_rows calls n db0)" by (rule finite_subset) simp
  from card_mono [OF this sub] show ?thesis by (simp add: card_image inj_on_def job_name_inj)
qed

lemma concurrent_workers_never_receive_the_same_claim:
  assumes db: "store_reachable ck show_uuid db" and s: "store_submit (dag_with_jobs d n attempts) t db = Some (db0, Inr ())"
    and calls: "calls = (\<lambda>k. test_claim (tokens k) (nows k) k)"
    and time: "\<And>k. k < n \<Longrightarrow> t \<le> nows k \<and> nows k < t + 5000 * millisecond"
    and run: "(claim_step ck n)\<^sup>*\<^sup>* (db0, \<lambda>k. begin_claim (calls k)) (db', S)"
    and finished: "\<And>k. k < n \<Longrightarrow> \<exists>g. cs_phase (S k) = Claimed g"
  shows "card ((\<lambda>k. job_granted (S k)) ` {..<n}) = n \<and> (\<forall>k<n. job_granted (S k) \<noteq> None)"
proof -
  have "fresh_leases calls n"
    unfolding fresh_leases_def
  proof (intro allI impI)
    fix k l assume "k < n" "l < n"
    with time [of k] time [of l] show "cl_now (calls l) < cl_now (calls k) + cl_lease_ms (calls k) * millisecond"
      by (simp add: calls test_claim_def)
  qed
  note result = claim_run [OF run db_inv_tables [OF db_inv_submit [OF db_inv_reachable [OF db] s]] this]
  have "n \<le> card (claimable_rows calls n db0)"
    by (rule independent_jobs_claimable [OF db s]) (use time in \<open>simp add: calls test_claim_def\<close>)
  with result have all: "nobody_empty S" and inv: "claims_inv n calls db' S" by blast+
  have some: "job_granted (S k) \<noteq> None" if k: "k < n" for k
  proof -
    from finished [OF k] obtain g where g: "cs_phase (S k) = Claimed g" by blast
    moreover have "g \<noteq> None" using all [unfolded nobody_empty_def, rule_format, of k] g by simp
    ultimately show ?thesis by simp
  qed
  have "inj_on (\<lambda>k. job_granted (S k)) {..<n}"
  proof (rule inj_onI)
    fix k l assume "k \<in> {..<n}" and eq: "job_granted (S k) = job_granted (S l)"
    then obtain i where "job_granted (S k) = Some i" using some [of k] by auto
    with eq claims_invD(12) [OF inv, of k l i] show "k = l" by (cases "k = l") simp_all
  qed
  then show ?thesis using some by (simp add: card_image)
qed

end
