(* ===== verification/Spec2Isabelle.thy ===== *)
theory Spec2Isabelle
  imports DomainProperties SchedulerProperties LifecycleProperties EffectProperties StoreProperties
    ConcurrencyProperties ServiceProperties SourceTests
begin

text \<open>
  A verification library for the cloud job orchestrator, a control plane that runs directed
  acyclic graphs (DAGs) of jobs on workers with leases, retries and cancellation.

  \<^bold>\<open>The program.\<close> \<open>src/domain.rs\<close> holds the values, the limits and the validation of a graph
  (Kahn's algorithm over hash maps). \<open>src/scheduler.rs\<close> is the deterministic in-memory scheduler.
  \<open>src/store.rs\<close> is the same control plane over PostgreSQL, on the schema of
  \<open>migrations/0001_control_plane.sql\<close>; it validates with the domain and is what runs in
  production. \<open>src/http.rs\<close> puts the store behind an HTTP API, \<open>src/worker.rs\<close> executes one job,
  and \<open>src/bin\<close> has the worker process (claim, execute, complete or fail), the client and the
  server.

  \<^bold>\<open>Foundations.\<close>
  \<^item> \<open>Prelude\<close>: byte strings, the integer types of Rust with their saturating, wrapping and checked
    operations written out, printing and parsing of integers, lemmas on lists and sorting.
  \<^item> \<open>HashMap\<close>: \<open>std::collections::HashMap\<close> as an association list with distinct keys whose order is
    one possible iteration order; the contract \<open>hash_map_laws\<close>, under which the counting and
    grouping loops are proved once, with its interpretation \<open>hm\<close>.
  \<^item> \<open>ReadyHeap\<close>: the ready keys with their order (an instance of \<open>linorder\<close>) and the binary heap
    under the contract \<open>min_heap_laws\<close>, interpretation \<open>rh\<close>.

  \<^bold>\<open>Domain\<close> (\<open>src/domain.rs\<close>). \<open>Domain\<close> has the types, the limits and \<open>DagSpec::validate\<close> with each of
  its loops as a function of the same order; \<open>Kahn\<close> proves the algorithm (soundness, completeness,
  topological order, independence of the listing order); \<open>Examples\<close> evaluates it on the graph of
  \<open>examples/release-dag.json\<close>; \<open>DomainProperties\<close> states the results.

  \<^bold>\<open>Scheduler\<close> (\<open>src/scheduler.rs\<close>). \<open>Scheduler\<close> has the state (a hash map of DAGs, each a hash map of
  job records, the heap, the token sequence) and every method and private helper.
  \<open>SchedulerState\<close> reads and writes single jobs; \<open>SchedulerInv\<close> is the invariant; \<open>SchedulerLease\<close>,
  \<open>SchedulerComplete\<close> and \<open>SchedulerSubmit\<close> prove each operation's effect and preservation;
  \<open>SchedulerMachine\<close> has the step relation over all calls, reachability and the invariant by rule
  induction; \<open>SchedulerLifecycle\<close> the abstract lifecycle of a job and the contract
  \<open>token_fencing\<close>; \<open>SchedulerProgress\<close> the liveness of one worker; \<open>SchedulerExamples\<close> concrete
  runs. The results are in \<open>SchedulerProperties\<close>, \<open>LifecycleProperties\<close> and \<open>EffectProperties\<close>.

  \<^bold>\<open>Store\<close> (\<open>src/store.rs\<close>). \<open>Store\<close> has the tables as lists of rows and every SQL statement as a
  function on them; a method is the sequence of its statements in a transaction that an error
  rolls back. \<open>StoreInv\<close> is the invariant of the tables (keys, foreign keys, \<open>CHECK\<close> constraints,
  leases, pending children); \<open>StoreOps\<close> and \<open>StoreFlow\<close> the effect of each method; \<open>StoreMachine\<close>
  the events and histories of transactions; \<open>StoreAnswers\<close> the exact answer of each method on
  every branch; \<open>StoreExamples\<close> concrete databases and \<open>StoreProperties\<close> the results.
  \<open>JobBoard\<close> states once what both implementations promise to an observer of job states: the
  contract \<open>job_board\<close> (dependencies, terminal states, lifecycle), which the scheduler
  (\<open>sched_board\<close>) and the store (\<open>store_board\<close> in \<open>StoreBoard\<close>) both satisfy; \<open>token_fencing\<close> is
  interpreted for both as well (\<open>sched_fence\<close>, \<open>pg_fence\<close>).
  \<open>StoreRace\<close> gives up the atomicity of methods: sessions run their statements one at a time, each
  on the committed tables and its own writes, with row locks, as at READ COMMITTED; it proves that
  two concurrent completions with arguments the method accepts can leave a child pending for ever
  (\<open>after_race\<close> is the database they leave); refused arguments roll a session back. \<open>ClaimRace\<close> does the same for any number of claims, with \<open>SKIP LOCKED\<close>: an invariant over
  all interleavings shows that no job is handed out twice; a session on its own is the method.

  \<^bold>\<open>Concurrency\<close> (\<open>src/store.rs\<close>, all methods together). \<open>Concurrency\<close> is the store with any number of
  sessions, row by row: a call is its list of \<open>UPDATE\<close> statements (\<open>statements\<close>), a statement its
  \<open>WHERE\<close> and \<open>SET\<close> clause on a row (\<open>hits\<close>, \<open>rewrite\<close>); \<open>tx_step\<close> takes a snapshot, visits the
  selected rows one at a time, waits for (or, in the claim, passes over) rows that others have
  locked, evaluates the clause again on the version it finds with its subqueries still on the
  snapshot, and can be rolled back at any moment; \<open>conc_step\<close> interleaves sessions, commits and
  submissions (one step, because nobody sees the rows of a new graph before it commits).
  \<open>ConcurrencyRows\<close> has what remains true of the view of a session when it or another one writes;
  \<open>ConcurrencyInv\<close> the invariant over all interleavings (views in order, versions above the committed
  rows, no two writers of a row, nothing unfinished behind a cancellation) and the interpretation
  \<open>concurrent_board\<close> of \<open>job_history\<close>, the part of \<open>job_board\<close> that needs no atomic methods: the part it
  lacks, that a pending job has a parent to wait for, is what the race of completions breaks.
  \<open>ConcurrencyFence\<close> follows lease tokens: each comes from the claim that drew it and is settled by
  one session. \<open>ConcurrencyTurns\<close> restricts the steps so that completions of one graph take turns,
  as if each first locked the row of its DAG, and interprets the whole \<open>job_board\<close> for it
  (\<open>turn_board\<close>): the race is the only gap. \<open>ConcurrencySerial\<close> proves that a session that finds no row held by others does
  what the method of \<open>Store\<close> does, for all six methods; \<open>ConcurrencyProperties\<close> has the results, a
  run in which a failure report overtaken by a completion changes nothing, and the race as a run
  of this model.

  \<^bold>\<open>Service.\<close> \<open>Worker\<close> (\<open>src/worker.rs\<close>, \<open>src/bin/orchestrator_worker.rs\<close>): the operations, the
  settings, a round of the loop and the loop over any number of rounds, with what the environment
  does in each (clocks, UUID, locked rows, other clients) as a \<open>tick\<close>. \<open>WorkerProgress\<close> shows that
  each undisturbed round settles one job more, and so that the loop finishes a graph. \<open>Http\<close>
  (\<open>src/http.rs\<close>): routes, bodies with their defaults, handlers over the store, and the mapping of
  errors to responses; every call of the store goes through \<open>over_link\<close>, which says what the handler
  gets when the database cannot be reached or its answer is lost. \<open>Commands\<close>
  (\<open>src/bin/orchestratorctl.rs\<close>, \<open>src/bin/orchestratord.rs\<close>): reading a bounded file, the five
  commands, the settings of the server. \<open>ServiceProperties\<close> states the results.

  \<^bold>\<open>Tests.\<close> \<open>SourceTests\<close> runs the tests of the source on the model: the unit tests of the modules and
  the expiry test of \<open>tests/postgres_integration.rs\<close> by evaluation; the two property tests of
  \<open>tests/scheduler_properties.rs\<close> and the concurrency test of \<open>tests/postgres_integration.rs\<close> as
  theorems over every size and every interleaving; the chain test with ten jobs instead of fifty.

  \<^bold>\<open>What the theorems show.\<close> Validation accepts exactly the acyclic graphs within the limits, its
  order is topological and stable, its errors are justified, and it returns. Both control planes
  keep their invariant in every history; never start a job before its parents succeeded; never
  change a finished job; accept a lease operation exactly under the live lease, and a token that
  is not the current one never again; leave the state unchanged on every error. Each operation's
  effect is stated exactly, on every branch. With every other job finished and nobody else calling,
  one worker on the in-memory scheduler finishes an accepted graph (at one clock reading), and the
  worker process does on the store (each job settled within its lease, no upper case growing past
  the limit): in as many rounds as the graph has jobs, each ends succeeded, in the store with the
  result of its operation. Concurrent claims never share a job,
  and with enough work nobody comes away empty-handed. A round of the worker settles the job it
  claimed, a snapshot reads back what was submitted, paging enumerates the graphs, and every answer of
  an HTTP handler is in the documented error contract, also during an outage of the database. With methods that interleave row by row, the order of
  a graph, the lifecycle, the schema and the finality of jobs survive, and a lease is settled once;
  what does not survive is shown by the race of completions, proved as the code has it, and
  completions that take turns would restore it.

  \<^bold>\<open>Parameters and hypotheses.\<close> Time is an argument of every operation, as the in-memory scheduler has it;
  for the store it is \<open>CURRENT_TIMESTAMP\<close>. The store takes the drawn UUID (that draws never repeat
  is a hypothesis where tokens are compared over time or between sessions), the printer of UUIDs, the collation key of the
  database (injective where a total order is needed) and the set of rows that other transactions
  have locked. The worker takes SHA-256 in hexadecimal (64 digits), the Unicode upper case and the
  UUID parser (printed UUIDs parse back). The client takes the file system and the JSON decoder.
  Every hypothesis is met by the concrete functions of the witnesses.

  \<^bold>\<open>Loops and bounds.\<close> The worklist loop of Kahn's algorithm is a \<open>partial_function (option)\<close>, and
  \<open>validate_returns\<close> shows that it returns on every input; the claim loop over the heap terminates
  by the size of the heap. There is no fuel. Times are \<open>i64\<close> values with the saturation of the
  code; the lease sequence is a 64-bit counter, and the statements on in-memory tokens hold
  until it is exhausted; the jitter hash is computed on 64-bit words.

  \<^bold>\<open>Not modelled.\<close> JSON and request decoding with the rejection of requests that cannot be decoded,
  \<open>clap\<close>, logging, the metrics registry, tracing layers, static files, building the router (the
  release of \<open>axum\<close> in the lock file panics on the nested service at the root), sockets, opening the
  connection pool and running the migrations are libraries or input and output. A failed
  connection is modelled where a handler sees it, in \<open>Http\<close>: before the commit it leaves the tables
  as they were, after it the effect stays and only the answer is lost; the worker and the client
  are modelled on a reachable database. The timestamp arithmetic of PostgreSQL is
  unbounded here. The web dashboard, the infrastructure and the scripts are outside the
  Rust program, and \<open>src/lib.rs\<close> only re-exports.
\<close>

end
